(* ===== verification/Varint.thy ===== *)
theory Varint
  imports Prelude
begin

text \<open>
  The Bitcoin CompactSize integer of \<open>crates/trie/src/varint.rs\<close>, and the interface
  through which its readers are used. The trie's node parser and the Bridge's partial
  Merkle tree parser have readers of their own; each of them is shown to decode what
  \<open>encode_varint\<close> writes by interpreting the locale \<open>varint_codec\<close>.
\<close>

subsection \<open>The encoder and the panicking decoder\<close>

definition encode_varint :: "u64 \<Rightarrow> bytes" where
  "encode_varint value =
     (if value < 253 then [ucast value]
      else if value \<le> 0xFFFF then 0xFD # to_le 2 (unat (ucast value :: u16))
      else if value \<le> 0xFFFFFFFF then 0xFE # to_le 4 (unat (ucast value :: u32))
      else 0xFF # to_le 8 (unat value))"

text \<open>\<open>None\<close> stands for the panic of an index past the end of \<open>data\<close>.\<close>

definition decode_varint :: "bytes \<Rightarrow> (u64 \<times> nat) option" where
  "decode_varint data =
     (case data of
        [] \<Rightarrow> None
      | first # _ \<Rightarrow>
          if first < 253 then Some (ucast first, 1)
          else if first = 253 then
            (if 3 \<le> length data then Some (of_nat (from_le (slice_of 1 3 data)), 3) else None)
          else if first = 254 then
            (if 5 \<le> length data then Some (of_nat (from_le (slice_of 1 5 data)), 5) else None)
          else
            (if 9 \<le> length data then Some (of_nat (from_le (slice_of 1 9 data)), 9) else None))"

definition varint_size :: "u64 \<Rightarrow> nat" where
  "varint_size value =
     (if value < 253 then 1
      else if value \<le> 0xFFFF then 3
      else if value \<le> 0xFFFFFFFF then 5
      else 9)"

subsection \<open>The interface of a reader\<close>

text \<open>
  A reader of one varint from the front of a byte string: it recovers the value that was
  written and says how many bytes it took, whatever follows.
\<close>

locale varint_codec =
  fixes enc :: "u64 \<Rightarrow> bytes"
    and dec :: "bytes \<Rightarrow> (u64 \<times> nat) option"
  assumes dec_enc: "dec (enc v @ rest) = Some (v, length (enc v))"
begin

lemma enc_inj: "enc v = enc w \<Longrightarrow> v = w"
  using dec_enc [of v "[]"] dec_enc [of w "[]"] by simp

lemma enc_prefix_free: "enc v @ xs = enc w @ ys \<Longrightarrow> v = w \<and> xs = ys"
proof -
  assume eq: "enc v @ xs = enc w @ ys"
  then have "Some (v, length (enc v)) = Some (w, length (enc w))"
    using dec_enc [of v xs] dec_enc [of w ys] by simp
  then show ?thesis using eq by simp
qed

end

subsection \<open>Correctness\<close>

lemma length_encode_varint: "length (encode_varint v) = varint_size v"
  by (simp add: encode_varint_def varint_size_def)

lemma varint_size_pos: "0 < varint_size v" and varint_size_le: "varint_size v \<le> 9"
  by (simp_all add: varint_size_def)

lemma of_nat_from_le_to_le:
  assumes "unat w < 256 ^ n"
  shows "of_nat (from_le (to_le n (unat w))) = w"
  using assms by (simp add: from_le_to_le)

lemma unat_ucast_u16: "v \<le> 0xFFFF \<Longrightarrow> unat (ucast v :: u16) = unat v" for v :: u64
  by (simp add: word_le_nat_alt unsigned_ucast_eq take_bit_nat_eq_self)

lemma unat_ucast_u32: "v \<le> 0xFFFFFFFF \<Longrightarrow> unat (ucast v :: u32) = unat v" for v :: u64
  by (simp add: word_le_nat_alt unsigned_ucast_eq take_bit_nat_eq_self)

lemma unat_ucast_u8: "v < 253 \<Longrightarrow> unat (ucast v :: u8) = unat v" for v :: u64
  by (simp add: word_less_nat_alt unsigned_ucast_eq take_bit_nat_eq_self)

lemma ucast_u8_u64: "v < 253 \<Longrightarrow> ucast (ucast v :: u8) = v" for v :: u64
  by (rule word_unat_eq_iff [THEN iffD2])
    (simp add: word_less_nat_alt unsigned_ucast_eq unsigned_take_bit_eq take_bit_nat_eq_self)

lemma ucast_u8_less: "v < 253 \<Longrightarrow> (ucast v :: u8) < 253" for v :: u64
  by (simp add: word_less_nat_alt unsigned_ucast_eq take_bit_nat_eq_self)

lemma encode_varint_cases:
  obtains (one) "v < 253" "encode_varint v = [ucast v]"
  | (three) "253 \<le> v" "v \<le> 0xFFFF" "encode_varint v = 0xFD # to_le 2 (unat v)" "unat v < 256 ^ 2"
  | (five) "0xFFFF < v" "v \<le> 0xFFFFFFFF" "encode_varint v = 0xFE # to_le 4 (unat v)" "unat v < 256 ^ 4"
  | (nine) "0xFFFFFFFF < v" "encode_varint v = 0xFF # to_le 8 (unat v)" "unat v < 256 ^ 8"
proof -
  have "unat v < 2 ^ LENGTH(64)" by (rule unsigned_less)
  then have b8: "unat v < 256 ^ 8" by simp
  consider "v < 253" | "253 \<le> v" "v \<le> 0xFFFF" | "0xFFFF < v" "v \<le> 0xFFFFFFFF" | "0xFFFFFFFF < v"
    by fastforce
  then show thesis
  proof cases
    case 1
    then show thesis by (intro one) (simp_all add: encode_varint_def)
  next
    case 2
    then show thesis
      by (intro three)
        (auto simp: encode_varint_def unat_ucast_u16 word_le_nat_alt word_less_nat_alt)
  next
    case 3
    then show thesis
      by (intro five)
        (auto simp: encode_varint_def unat_ucast_u32 word_le_nat_alt word_less_nat_alt)
  next
    case 4
    then show thesis
      using b8
      by (intro nine)
        (auto simp: encode_varint_def word_le_nat_alt word_less_nat_alt)
  qed
qed

lemma decode_encode_varint:
  "decode_varint (encode_varint v @ rest) = Some (v, length (encode_varint v))"
proof (cases rule: encode_varint_cases [of v])
  case one
  then show ?thesis by (simp add: decode_varint_def ucast_u8_less ucast_u8_u64)
next
  case three
  then show ?thesis by (simp add: decode_varint_def slice_of_def from_le_to_le)
next
  case five
  then show ?thesis by (simp add: decode_varint_def slice_of_def from_le_to_le)
next
  case nine
  then show ?thesis by (simp add: decode_varint_def slice_of_def from_le_to_le)
qed

interpretation plain_varint: varint_codec encode_varint decode_varint
  by unfold_locales (rule decode_encode_varint)


end
