(* ===== verification/Path.thy ===== *)
theory Path
  imports Prelude
begin

text \<open>
  Bit-level paths of the binary trie (\<open>crates/trie/src/path.rs\<close>): the packing of an
  expanded path (one byte per bit) into bytes, most significant bit first, and the key
  slice, a window \<open>offset..limit\<close> into an expanded key. The bits a slice stands for,
  \<open>ks_bits\<close>, are the view of it that the trie's specification uses; \<open>ks_ok\<close> is the
  invariant under which no operation of a slice indexes out of range.
\<close>

subsection \<open>Packing\<close>

definition encoded_len :: "nat \<Rightarrow> nat" where
  "encoded_len bit_count = (bit_count + 7) div 8"

definition set_path_bit :: "nat \<times> u8 \<Rightarrow> bytes \<Rightarrow> bytes" where
  "set_path_bit = (\<lambda>(k, b) out.
     if b \<noteq> 0 then out[k div 8 := (out ! (k div 8)) OR drop_bit (k mod 8) 0x80] else out)"

definition path_encode :: "bytes \<Rightarrow> bytes" where
  "path_encode path =
     fold set_path_bit (enumerate 0 path) (replicate (encoded_len (length path)) 0)"

text \<open>
  The loop of \<open>decode\<close>; \<open>path_decode\<close> adds the index check, with \<open>None\<close> for the panic.
\<close>

definition decode_bits :: "bytes \<Rightarrow> nat \<Rightarrow> bytes" where
  "decode_bits encoded bit_length =
     map (\<lambda>k. if drop_bit (7 - k mod 8) (encoded ! (k div 8)) AND 1 \<noteq> 0 then 1 else 0)
       [0..<bit_length]"

definition path_decode :: "bytes \<Rightarrow> nat \<Rightarrow> bytes option" where
  "path_decode encoded bit_length =
     (if encoded_len bit_length \<le> length encoded then Some (decode_bits encoded bit_length) else None)"

subsection \<open>Key slices\<close>

record key_slice =
  expanded :: bytes
  offset :: nat
  limit :: nat

definition ks_new :: "bytes \<Rightarrow> nat \<Rightarrow> nat \<Rightarrow> key_slice" where
  "ks_new e off lim = \<lparr> expanded = e, offset = off, limit = lim \<rparr>"

text \<open>The bits of a key are all within it, so this call of \<open>decode\<close> does not panic.\<close>

definition from_key :: "bytes \<Rightarrow> key_slice" where
  "from_key key =
     (let e = decode_bits key (length key * 8)
      in \<lparr> expanded = e, offset = 0, limit = length e \<rparr>)"

definition from_encoded :: "bytes \<Rightarrow> nat \<Rightarrow> key_slice option" where
  "from_encoded encoded bit_length =
     (case path_decode encoded bit_length of
        None \<Rightarrow> None
      | Some e \<Rightarrow> Some \<lparr> expanded = e, offset = 0, limit = length e \<rparr>)"

definition ks_empty :: key_slice where
  "ks_empty = \<lparr> expanded = [], offset = 0, limit = 0 \<rparr>"

definition ks_length :: "key_slice \<Rightarrow> nat" where
  "ks_length s = limit s - offset s"

definition ks_is_empty :: "key_slice \<Rightarrow> bool" where
  "ks_is_empty s = (ks_length s = 0)"

definition ks_get :: "key_slice \<Rightarrow> nat \<Rightarrow> u8" where
  "ks_get s i = expanded s ! (offset s + i)"

definition ks_expand :: "key_slice \<Rightarrow> bytes" where
  "ks_expand s = slice_of (offset s) (limit s) (expanded s)"

definition ks_encode :: "key_slice \<Rightarrow> bytes" where
  "ks_encode s = path_encode (slice_of (offset s) (limit s) (expanded s))"

definition ks_slice :: "key_slice \<Rightarrow> nat \<Rightarrow> nat \<Rightarrow> key_slice" where
  "ks_slice s a b =
     (let new_offset = offset s + a; new_limit = offset s + b
      in \<lparr> expanded = expanded s, offset = new_offset, limit = new_limit \<rparr>)"

function common_from :: "key_slice \<Rightarrow> key_slice \<Rightarrow> nat \<Rightarrow> nat \<Rightarrow> key_slice" where
  "common_from s t i max_len =
     (if i < max_len then
        (if ks_get s i \<noteq> ks_get t i then ks_slice s 0 i else common_from s t (i + 1) max_len)
      else ks_slice s 0 max_len)"
  by pat_completeness auto
termination by (relation "measure (\<lambda>(s, t, i, n). n - i)") auto

declare common_from.simps [simp del]

definition common_path :: "key_slice \<Rightarrow> key_slice \<Rightarrow> key_slice" where
  "common_path s t = common_from s t 0 (min (ks_length s) (ks_length t))"

definition rebuild_shared_path :: "key_slice \<Rightarrow> u8 \<Rightarrow> key_slice \<Rightarrow> key_slice" where
  "rebuild_shared_path s implicit_bit child =
     \<lparr> expanded = slice_of (offset s) (limit s) (expanded s) @ [implicit_bit]
         @ slice_of (offset child) (limit child) (expanded child),
       offset = 0,
       limit = ks_length s + 1 + ks_length child \<rparr>"

definition left_pad :: "key_slice \<Rightarrow> nat \<Rightarrow> key_slice" where
  "left_pad s n = \<lparr> expanded = replicate n 0 @ ks_expand s, offset = 0, limit = n + ks_length s \<rparr>"

definition ks_eq :: "key_slice \<Rightarrow> key_slice \<Rightarrow> bool" where
  "ks_eq s t = (ks_expand s = ks_expand t)"

subsection \<open>Invariant and abstraction\<close>

definition bits01 :: "bytes \<Rightarrow> bool" where
  "bits01 bs = list_all (\<lambda>b. b = 0 \<or> b = 1) bs"

definition ks_ok :: "key_slice \<Rightarrow> bool" where
  "ks_ok s = (offset s \<le> limit s \<and> limit s \<le> length (expanded s) \<and> bits01 (expanded s))"

definition bools :: "bytes \<Rightarrow> bool list" where
  "bools bs = map (\<lambda>b. b \<noteq> 0) bs"

definition bit_bytes :: "bool list \<Rightarrow> bytes" where
  "bit_bytes bs = map (\<lambda>b. if b then 1 else 0) bs"

definition ks_bits :: "key_slice \<Rightarrow> bool list" where
  "ks_bits s = bools (ks_expand s)"

text \<open>The bits of a byte, most significant first, and of a whole key.\<close>

definition byte_bits :: "u8 \<Rightarrow> bool list" where
  "byte_bits b = map (\<lambda>r. bit b (7 - r)) [0..<8]"

definition key_bits :: "bytes \<Rightarrow> bool list" where
  "key_bits key = concat (map byte_bits key)"

text \<open>The longest common prefix of two bit strings.\<close>

fun lcp :: "'a list \<Rightarrow> 'a list \<Rightarrow> 'a list" where
  "lcp (x # xs) (y # ys) = (if x = y then x # lcp xs ys else [])"
| "lcp _ _ = []"

subsection \<open>Packing is a bijection between bit strings and padded bytes\<close>

lemma and_one_neq_zero_iff: "drop_bit i x AND 1 \<noteq> 0 \<longleftrightarrow> bit x i" for x :: u8
  by (simp add: bit_iff_odd_drop_bit and_one_eq mod_2_eq_odd)

lemma bit_0x80: "bit (0x80 :: u8) n \<longleftrightarrow> n = 7"
proof -
  have "(0x80 :: u8) = push_bit 7 1" by simp
  then show ?thesis by (simp only: bit_push_bit_iff) (auto simp: bit_1_iff)
qed

lemma bit_drop_bit_0x80: "bit (drop_bit m (0x80 :: u8)) n \<longleftrightarrow> m + n = 7"
  by (simp only: bit_drop_bit_eq o_def bit_0x80)

lemma length_fold_set_path_bit [simp]: "length (fold set_path_bit ks out) = length out"
  by (induction ks arbitrary: out) (auto simp: set_path_bit_def)

lemma set_path_bit_pair:
  "set_path_bit (k, b) out =
     (if b \<noteq> 0 then out[k div 8 := (out ! (k div 8)) OR drop_bit (k mod 8) 0x80] else out)"
  by (simp add: set_path_bit_def)

lemma length_path_encode: "length (path_encode path) = encoded_len (length path)"
  by (simp add: path_encode_def)

lemma div8_less_encoded_len: "k < n \<Longrightarrow> k div 8 < encoded_len n"
  using div_le_mono [of "k + 8" "n + 7" 8] by (simp add: encoded_len_def)

lemma bit_fold_set_path_bit:
  assumes "j < length out" "r < 8" "encoded_len (length path) \<le> length out"
  shows "bit (fold set_path_bit (enumerate 0 path) out ! j) (7 - r) \<longleftrightarrow>
     bit (out ! j) (7 - r) \<or> (8 * j + r < length path \<and> path ! (8 * j + r) \<noteq> 0)"
  using assms(3)
proof (induction path rule: rev_induct)
  case Nil
  then show ?case by simp
next
  case (snoc b path)
  let ?n = "length path"
  let ?o = "fold set_path_bit (enumerate 0 path) out"
  have n: "?n div 8 < length out"
    using snoc.prems div8_less_encoded_len [of ?n "length (path @ [b])"] by simp
  have "encoded_len ?n \<le> length out"
    using snoc.prems by (simp add: encoded_len_def)
  note IH = snoc.IH [OF this]
  have step: "fold set_path_bit (enumerate 0 (path @ [b])) out = set_path_bit (?n, b) ?o"
    by (simp add: enumerate_append_eq)
  have split: "?n = 8 * (?n div 8) + ?n mod 8" by simp
  have pos: "?n mod 8 + (7 - r) = 7 \<and> ?n div 8 = j \<longleftrightarrow> 8 * j + r = ?n"
  proof
    assume "?n mod 8 + (7 - r) = 7 \<and> ?n div 8 = j"
    then have "?n mod 8 = r" "?n div 8 = j" using assms(2) by auto
    with split show "8 * j + r = ?n" by simp
  next
    assume eq: "8 * j + r = ?n"
    have "(8 * j + r) div 8 = j" "(8 * j + r) mod 8 = r" using assms(2) by auto
    then have "?n div 8 = j" "?n mod 8 = r" unfolding eq by auto
    then show "?n mod 8 + (7 - r) = 7 \<and> ?n div 8 = j" using assms(2) by simp
  qed
  have "bit (set_path_bit (?n, b) ?o ! j) (7 - r) \<longleftrightarrow>
      bit (?o ! j) (7 - r) \<or> (b \<noteq> 0 \<and> 8 * j + r = ?n)"
    unfolding pos [symmetric] using n assms(1)
    by (cases "b = 0"; cases "?n div 8 = j")
      (simp_all add: set_path_bit_pair bit_or_iff bit_drop_bit_0x80)
  then show ?case
    unfolding step IH by (cases "8 * j + r" ?n rule: linorder_cases) (simp_all add: nth_append)
qed

lemma bit_path_encode:
  assumes "j < encoded_len (length path)" "r < 8"
  shows "bit (path_encode path ! j) (7 - r) \<longleftrightarrow> 8 * j + r < length path \<and> path ! (8 * j + r) \<noteq> 0"
  using bit_fold_set_path_bit [of j "replicate (encoded_len (length path)) 0" r path] assms
  by (simp add: path_encode_def)

lemma length_decode_bits [simp]: "length (decode_bits e n) = n"
  by (simp add: decode_bits_def)

lemma nth_decode_bits:
  "k < n \<Longrightarrow> decode_bits e n ! k = (if bit (e ! (k div 8)) (7 - k mod 8) then 1 else 0)"
  by (simp add: decode_bits_def and_one_neq_zero_iff)

lemma bits01_decode_bits [simp]: "bits01 (decode_bits e n)"
  by (auto simp: bits01_def list_all_iff decode_bits_def)

lemma decode_bits_path_encode:
  "decode_bits (path_encode path) (length path) = bit_bytes (bools path)"
proof (rule nth_equalityI)
  fix k assume "k < length (decode_bits (path_encode path) (length path))"
  then have k: "k < length path" by simp
  have "bit (path_encode path ! (k div 8)) (7 - k mod 8) \<longleftrightarrow> path ! k \<noteq> 0"
    using bit_path_encode [of "k div 8" path "k mod 8"] div8_less_encoded_len [OF k] k by simp
  then show "decode_bits (path_encode path) (length path) ! k = bit_bytes (bools path) ! k"
    using k by (simp add: nth_decode_bits bit_bytes_def bools_def)
qed (simp add: bit_bytes_def bools_def)

lemma bit_bytes_bools: "bits01 bs \<Longrightarrow> bit_bytes (bools bs) = bs"
  by (induction bs) (auto simp: bits01_def bit_bytes_def bools_def)

lemma bools_bit_bytes [simp]: "bools (bit_bytes bs) = bs"
  by (induction bs) (auto simp: bit_bytes_def bools_def)

lemma bits01_bit_bytes [simp]: "bits01 (bit_bytes bs)"
  by (induction bs) (auto simp: bit_bytes_def bits01_def)

lemma length_bools [simp]: "length (bools bs) = length bs"
  by (simp add: bools_def)

lemma length_bit_bytes [simp]: "length (bit_bytes bs) = length bs"
  by (simp add: bit_bytes_def)

lemma path_decode_encode: "bits01 path \<Longrightarrow> path_decode (path_encode path) (length path) = Some path"
  by (simp add: path_decode_def length_path_encode decode_bits_path_encode bit_bytes_bools)

lemma path_encode_decode: "path_encode (decode_bits key (length key * 8)) = key"
proof (rule nth_equalityI)
  show len: "length (path_encode (decode_bits key (length key * 8))) = length key"
    by (simp add: length_path_encode encoded_len_def)
  fix j assume "j < length (path_encode (decode_bits key (length key * 8)))"
  with len have j: "j < length key" by simp
  show "path_encode (decode_bits key (length key * 8)) ! j = key ! j"
  proof (rule bit_eqI)
    fix n assume "possible_bit TYPE(u8) n"
    then have n: "n < 8" by simp
    define r where "r = 7 - n"
    have r: "r < 8" "n = 7 - r" using n by (auto simp: r_def)
    have dm: "(8 * j + r) div 8 = j" "(8 * j + r) mod 8 = r" "8 * j + r < length key * 8"
      using r j by auto
    have "bit (path_encode (decode_bits key (length key * 8)) ! j) (7 - r) = bit (key ! j) (7 - r)"
      using bit_path_encode [of j "decode_bits key (length key * 8)" r] j r dm
      by (simp add: encoded_len_def nth_decode_bits)
    then show "bit (path_encode (decode_bits key (length key * 8)) ! j) n = bit (key ! j) n"
      using r by simp
  qed
qed

subsection \<open>Slices denote bit strings\<close>

lemma bits01_append [simp]: "bits01 (xs @ ys) \<longleftrightarrow> bits01 xs \<and> bits01 ys"
  by (simp add: bits01_def)

lemma bits01_Cons [simp]: "bits01 (x # xs) \<longleftrightarrow> (x = 0 \<or> x = 1) \<and> bits01 xs"
  by (simp add: bits01_def)

lemma bits01_Nil [simp]: "bits01 []"
  by (simp add: bits01_def)

lemma bits01_replicate [simp]: "bits01 (replicate n 0)"
  by (simp add: bits01_def list_all_iff)

lemma bits01_slice_of: "bits01 xs \<Longrightarrow> bits01 (slice_of a b xs)"
  using set_slice_of [of a b xs] by (auto simp: bits01_def list_all_iff)

lemma ks_ok_expand: "ks_ok s \<Longrightarrow> bits01 (ks_expand s)"
  by (simp add: ks_ok_def ks_expand_def bits01_slice_of)

lemma length_ks_expand [simp]: "ks_ok s \<Longrightarrow> length (ks_expand s) = ks_length s"
  by (simp add: ks_ok_def ks_expand_def ks_length_def)

lemma length_ks_bits [simp]: "ks_ok s \<Longrightarrow> length (ks_bits s) = ks_length s"
  by (simp add: ks_bits_def)

lemma ks_is_empty_iff [simp]: "ks_ok s \<Longrightarrow> ks_is_empty s \<longleftrightarrow> ks_bits s = []"
  using length_ks_bits [of s] by (auto simp: ks_is_empty_def simp del: length_ks_bits)

lemma ks_expand_eq: "ks_ok s \<Longrightarrow> ks_expand s = bit_bytes (ks_bits s)"
  by (simp add: ks_bits_def bit_bytes_bools ks_ok_expand)

lemma ks_eq_iff: "ks_ok s \<Longrightarrow> ks_ok t \<Longrightarrow> ks_eq s t \<longleftrightarrow> ks_bits s = ks_bits t"
  by (auto simp: ks_eq_def ks_bits_def) (metis ks_expand_eq ks_bits_def)

lemma ks_get_index_ok: "ks_ok s \<Longrightarrow> i < ks_length s \<Longrightarrow> offset s + i < length (expanded s)"
  by (auto simp: ks_ok_def ks_length_def)

lemma ks_get_bit:
  assumes "ks_ok s" "i < ks_length s"
  shows "ks_get s i = (if ks_bits s ! i then 1 else 0)"
proof -
  have "ks_get s i = ks_expand s ! i"
    using assms by (simp add: ks_get_def ks_expand_def ks_ok_def ks_length_def nth_slice_of)
  also have "\<dots> = bit_bytes (ks_bits s) ! i" by (simp add: ks_expand_eq assms)
  finally show ?thesis using assms by (simp add: bit_bytes_def)
qed

lemma ks_ok_empty [simp]: "ks_ok ks_empty" and ks_bits_empty [simp]: "ks_bits ks_empty = []"
  by (simp_all add: ks_ok_def ks_empty_def ks_bits_def ks_expand_def slice_of_def bools_def)

lemma ks_length_slice [simp]: "ks_length (ks_slice s a b) = b - a"
  by (simp add: ks_length_def ks_slice_def)

lemma ks_ok_slice [simp, intro]:
  "ks_ok s \<Longrightarrow> a \<le> b \<Longrightarrow> b \<le> ks_length s \<Longrightarrow> ks_ok (ks_slice s a b)"
  by (auto simp: ks_ok_def ks_slice_def ks_length_def)

lemma ks_bits_slice:
  assumes "ks_ok s" "a \<le> b" "b \<le> ks_length s"
  shows "ks_bits (ks_slice s a b) = slice_of a b (ks_bits s)"
proof -
  have "min (b - a) (limit s - (offset s + a)) = b - a"
    using assms by (auto simp: ks_ok_def ks_length_def)
  then show ?thesis
    using assms
    by (simp add: ks_bits_def ks_expand_def ks_slice_def slice_of_def bools_def take_map drop_map
        drop_take drop_drop add.commute ks_length_def)
qed

lemma ks_bits_slice_to: "ks_ok s \<Longrightarrow> n \<le> ks_length s \<Longrightarrow> ks_bits (ks_slice s 0 n) = take n (ks_bits s)"
  by (simp add: ks_bits_slice slice_of_def)

lemma ks_bits_slice_from:
  "ks_ok s \<Longrightarrow> n \<le> ks_length s \<Longrightarrow> ks_bits (ks_slice s n (ks_length s)) = drop n (ks_bits s)"
  by (simp add: ks_bits_slice slice_of_def)

lemma ks_ok_from_key [simp]: "ks_ok (from_key key)"
  by (simp add: ks_ok_def from_key_def Let_def)

lemma ks_length_from_key [simp]: "ks_length (from_key key) = 8 * length key"
  by (simp add: ks_length_def from_key_def)

lemma length_byte_bits [simp]: "length (byte_bits b) = 8"
  by (simp add: byte_bits_def)

lemma length_key_bits [simp]: "length (key_bits key) = 8 * length key"
  by (induction key) (auto simp: key_bits_def)

lemma nth_key_bits:
  "k < 8 * length key \<Longrightarrow> key_bits key ! k = bit (key ! (k div 8)) (7 - k mod 8)"
proof (induction key arbitrary: k)
  case Nil
  then show ?case by simp
next
  case (Cons b key)
  show ?case
  proof (cases "k < 8")
    case True
    then show ?thesis by (simp add: key_bits_def nth_append byte_bits_def)
  next
    case False
    then obtain m where m: "k = m + 8" by (metis add.commute le_Suc_ex not_less)
    then have "key_bits (b # key) ! k = key_bits key ! m"
      by (simp add: key_bits_def nth_append)
    also have "\<dots> = bit (key ! (m div 8)) (7 - m mod 8)"
      using Cons m by simp
    moreover have "(m + 8) div 8 = Suc (m div 8)" by simp
    ultimately show ?thesis by (simp add: m)
  qed
qed

lemma ks_bits_from_key: "ks_bits (from_key key) = key_bits key"
proof (rule nth_equalityI)
  fix k assume "k < length (ks_bits (from_key key))"
  then have k: "k < 8 * length key" by simp
  then show "ks_bits (from_key key) ! k = key_bits key ! k"
    by (simp add: ks_bits_def ks_expand_def from_key_def Let_def slice_of_def bools_def
        nth_decode_bits nth_key_bits mult.commute)
qed simp

lemma key_bits_inject: "key_bits k = key_bits l \<longleftrightarrow> k = l"
proof
  assume eq: "key_bits k = key_bits l"
  then have "ks_expand (from_key k) = ks_expand (from_key l)"
    by (simp add: ks_expand_eq ks_bits_from_key)
  then have "path_encode (ks_expand (from_key k)) = path_encode (ks_expand (from_key l))" by simp
  then show "k = l"
    by (simp add: ks_expand_def from_key_def slice_of_def path_encode_decode)
qed simp

lemma lcp_take_drop:
  "lcp xs ys = take (length (lcp xs ys)) xs" "lcp xs ys = take (length (lcp xs ys)) ys"
  by (induction xs ys rule: lcp.induct) auto

lemma lcp_length_le: "length (lcp xs ys) \<le> length xs" "length (lcp xs ys) \<le> length ys"
  by (induction xs ys rule: lcp.induct) auto

lemma lcp_next_differs:
  "length (lcp xs ys) < length xs \<Longrightarrow> length (lcp xs ys) < length ys \<Longrightarrow>
   xs ! length (lcp xs ys) \<noteq> ys ! length (lcp xs ys)"
  by (induction xs ys rule: lcp.induct) auto

lemma lcp_eqI:
  "n \<le> length xs \<Longrightarrow> n \<le> length ys \<Longrightarrow> take n xs = take n ys \<Longrightarrow>
   (n < length xs \<Longrightarrow> n < length ys \<Longrightarrow> xs ! n \<noteq> ys ! n) \<Longrightarrow> lcp xs ys = take n xs"
proof (induction xs ys arbitrary: n rule: lcp.induct)
  case (1 x xs y ys)
  then show ?case by (cases n) auto
qed auto

lemma common_from_ok:
  assumes "ks_ok s" "ks_ok t" "n = min (ks_length s) (ks_length t)" "i \<le> n"
    "take i (ks_bits s) = take i (ks_bits t)"
  shows "ks_ok (common_from s t i n) \<and> ks_bits (common_from s t i n) = lcp (ks_bits s) (ks_bits t)"
  using assms(4,5)
proof (induction "n - i" arbitrary: i)
  case 0
  then have "i = n" by simp
  then have "common_from s t i n = ks_slice s 0 n" by (simp add: common_from.simps)
  moreover have "lcp (ks_bits s) (ks_bits t) = take n (ks_bits s)"
    using 0 \<open>i = n\<close> assms by (intro lcp_eqI) auto
  ultimately show ?case using assms by (simp add: ks_bits_slice_to)
next
  case (Suc d)
  then have i: "i < ks_length s" "i < ks_length t" "i < n" using assms(3) by auto
  have get: "ks_get s i = ks_get t i \<longleftrightarrow> ks_bits s ! i = ks_bits t ! i"
    using i assms(1,2) by (simp add: ks_get_bit)
  show ?case
  proof (cases "ks_get s i = ks_get t i")
    case True
    then have "take (i + 1) (ks_bits s) = take (i + 1) (ks_bits t)"
      using Suc get i assms(1,2) by (simp add: take_Suc_conv_app_nth)
    with Suc i True show ?thesis
      by (simp add: common_from.simps [of s t i n])
  next
    case False
    then have "lcp (ks_bits s) (ks_bits t) = take i (ks_bits s)"
      using Suc get i assms(1,2) by (intro lcp_eqI) auto
    with False i assms(1) show ?thesis
      by (simp add: common_from.simps [of s t i n] ks_bits_slice_to)
  qed
qed

lemma ks_ok_common_path [simp, intro]: "ks_ok s \<Longrightarrow> ks_ok t \<Longrightarrow> ks_ok (common_path s t)"
  and ks_bits_common_path: "ks_ok s \<Longrightarrow> ks_ok t \<Longrightarrow>
    ks_bits (common_path s t) = lcp (ks_bits s) (ks_bits t)"
  using common_from_ok [of s t "min (ks_length s) (ks_length t)" 0]
  by (simp_all add: common_path_def)

lemma ks_length_common_path:
  "ks_ok s \<Longrightarrow> ks_ok t \<Longrightarrow> ks_length (common_path s t) = length (lcp (ks_bits s) (ks_bits t))"
  by (metis ks_bits_common_path ks_ok_common_path length_ks_bits)

lemma ks_bits_whole: "offset s = 0 \<Longrightarrow> limit s = length (expanded s) \<Longrightarrow> ks_bits s = bools (expanded s)"
  by (simp add: ks_bits_def ks_expand_def slice_of_def)

lemma ks_ok_rebuild [simp, intro]:
  assumes "ks_ok s" "ks_ok c" "b = 0 \<or> b = 1"
  shows "ks_ok (rebuild_shared_path s b c)"
  using assms
  by (auto simp: ks_ok_def rebuild_shared_path_def ks_length_def bits01_slice_of)

lemma ks_bits_rebuild:
  "ks_ok s \<Longrightarrow> ks_ok c \<Longrightarrow> ks_bits (rebuild_shared_path s b c) = ks_bits s @ (b \<noteq> 0) # ks_bits c"
  by (subst ks_bits_whole)
    (simp_all add: rebuild_shared_path_def ks_ok_def ks_length_def ks_bits_def ks_expand_def bools_def)

lemma ks_ok_left_pad: "ks_ok s \<Longrightarrow> ks_ok (left_pad s n)"
  using ks_ok_expand [of s] by (auto simp: ks_ok_def left_pad_def ks_length_def ks_expand_def)

lemma ks_bits_left_pad: "ks_ok s \<Longrightarrow> ks_bits (left_pad s n) = replicate n False @ ks_bits s"
  by (subst ks_bits_whole) (simp_all add: left_pad_def ks_bits_def bools_def)

subsection \<open>A slice and its packed form\<close>

lemma ks_encode_bits: "ks_ok s \<Longrightarrow> ks_encode s = path_encode (bit_bytes (ks_bits s))"
  using ks_expand_eq [of s] by (simp add: ks_encode_def ks_expand_def)

lemma length_ks_encode [simp]: "ks_ok s \<Longrightarrow> length (ks_encode s) = encoded_len (ks_length s)"
  by (simp add: ks_encode_bits length_path_encode)

lemma from_encoded_ks_encode:
  assumes "ks_ok s"
  shows "\<exists>t. from_encoded (ks_encode s) (ks_length s) = Some t \<and> ks_ok t \<and> ks_bits t = ks_bits s"
proof -
  have "path_decode (ks_encode s) (ks_length s) = Some (bit_bytes (ks_bits s))"
    using path_decode_encode [of "bit_bytes (ks_bits s)"] assms by (simp add: ks_encode_bits)
  then show ?thesis
    using assms
    by (auto simp: from_encoded_def ks_ok_def ks_bits_def ks_expand_def slice_of_def)
qed

subsection \<open>Properties\<close>

text \<open>Packing is a bijection: an expanded path of zeros and ones unpacks from its packed form without
  an index error, and the bits of a key pack to the key.
\<close>

theorem packing_bijective:
  assumes "bits01 path"
  shows "path_decode (path_encode path) (length path) = Some path
    \<and> ks_encode (from_key key) = key \<and> ks_bits (from_key key) = key_bits key"
proof -
  have "ks_encode (from_key key) = path_encode (decode_bits key (length key * 8))"
    by (simp add: ks_encode_def from_key_def slice_of_def)
  then show ?thesis
    using path_decode_encode [OF assms] by (simp add: ks_bits_from_key path_encode_decode)
qed

theorem packing_bijective_witness:
  "path_decode (path_encode [1, 0, 1, 1, 0, 0, 1, 0, 1]) (length [1, 0, 1, 1, 0, 0, 1, 0, 1 :: u8]) =
   Some [1, 0, 1, 1, 0, 0, 1, 0, 1]"
  using packing_bijective [of "[1, 0, 1, 1, 0, 0, 1, 0, 1]"] by simp

text \<open>The common path of two slices is their longest common prefix: it is a well-formed slice, its
  bits are a prefix of both, and where both go on, they go on differently. Every index that the
  loop reads is inside the expanded keys.
\<close>

theorem common_path_longest:
  assumes "ks_ok s" "ks_ok t"
  shows "let c = ks_bits (common_path s t)
    in ks_ok (common_path s t) \<and> prefix c (ks_bits s) \<and> prefix c (ks_bits t)
       \<and> (length c = ks_length s \<or> length c = ks_length t
          \<or> ks_get s (length c) \<noteq> ks_get t (length c))"
proof -
  let ?c = "lcp (ks_bits s) (ks_bits t)"
  have "prefix ?c (ks_bits s)" "prefix ?c (ks_bits t)"
    using lcp_take_drop [of "ks_bits s" "ks_bits t"] take_is_prefix by metis+
  moreover have "length ?c = ks_length s \<or> length ?c = ks_length t
      \<or> ks_get s (length ?c) \<noteq> ks_get t (length ?c)"
    using lcp_next_differs [of "ks_bits s" "ks_bits t"] lcp_length_le [of "ks_bits s" "ks_bits t"] assms
    by (auto simp: ks_get_bit)
  ultimately show ?thesis using assms by (simp add: ks_bits_common_path Let_def)
qed

theorem common_path_longest_witness:
  "prefix (ks_bits (common_path (from_key [0x12]) (from_key [0x13]))) (key_bits [0x13])"
  using common_path_longest [of "from_key [0x12]" "from_key [0x13]"]
  by (simp add: Let_def ks_bits_from_key)

end
