(* ===== verification/Shared_Path.thy ===== *)
theory Shared_Path
  imports Varint Path
begin

text \<open>
  The serialized form of a node's shared path (\<open>crates/trie/src/shared_path.rs\<close>): a length
  prefix of one byte for the common lengths and a varint otherwise, followed by the packed
  bits.
\<close>

definition serialize_length :: "nat \<Rightarrow> bytes \<Rightarrow> bytes" where
  "serialize_length lshared out =
     (if 1 \<le> lshared \<and> lshared \<le> 32 then out @ [of_nat (lshared - 1)]
      else if 160 \<le> lshared \<and> lshared \<le> 382 then out @ [of_nat (lshared - 128)]
      else out @ [0xFF] @ encode_varint (of_nat lshared))"

definition sp_serialize :: "key_slice \<Rightarrow> bytes \<Rightarrow> bytes" where
  "sp_serialize shared_path out =
     (let lshared = ks_length shared_path
      in if lshared = 0 then out
         else serialize_length lshared out @ ks_encode shared_path)"

definition length_prefix_size :: "nat \<Rightarrow> nat" where
  "length_prefix_size lshared =
     (if 1 \<le> lshared \<and> lshared \<le> 32 \<or> 160 \<le> lshared \<and> lshared \<le> 382 then 1
      else 1 + varint_size (of_nat lshared))"

definition serialized_length :: "nat \<Rightarrow> nat" where
  "serialized_length lshared =
     (if lshared = 0 then 0 else length_prefix_size lshared + encoded_len lshared)"

text \<open>The length prefix at \<open>pos\<close>; \<open>None\<close> is the panic of reading past the end.\<close>

definition sp_header :: "bytes \<Rightarrow> nat \<Rightarrow> (nat \<times> nat) option" where
  "sp_header data pos =
     (if length data \<le> pos then None
      else
        let first = unat (data ! pos)
        in if first \<le> 31 then Some (first + 1, 1)
           else if first \<le> 254 then Some (first + 128, 1)
           else (case decode_varint (drop (pos + 1) data) of
                   None \<Rightarrow> None
                 | Some (v, vs) \<Rightarrow> Some (unat v, 1 + vs)))"

definition sp_deserialize :: "bytes \<Rightarrow> nat \<Rightarrow> bool \<Rightarrow> (key_slice \<times> nat) option" where
  "sp_deserialize data pos present =
     (if \<not> present then Some (ks_empty, 0)
      else case sp_header data pos of
             None \<Rightarrow> None
           | Some (lshared, header_size) \<Rightarrow>
               let encoded_bytes = encoded_len lshared; start = pos + header_size
               in if length data < start + encoded_bytes then None
                  else (case from_encoded (slice_of start (start + encoded_bytes) data) lshared of
                          None \<Rightarrow> None
                        | Some s \<Rightarrow> Some (s, header_size + encoded_bytes)))"

subsection \<open>Lengths\<close>

lemma length_serialize_length:
  "0 < n \<Longrightarrow> length (serialize_length n out) = length out + length_prefix_size n"
  by (simp add: serialize_length_def length_prefix_size_def length_encode_varint)

lemma length_sp_serialize:
  "ks_ok s \<Longrightarrow> length (sp_serialize s out) = length out + serialized_length (ks_length s)"
  by (simp add: sp_serialize_def serialized_length_def length_serialize_length)

lemma serialize_length_append: "serialize_length n out = out @ serialize_length n []"
  by (simp add: serialize_length_def)

lemma sp_serialize_append: "sp_serialize s out = out @ sp_serialize s []"
  using serialize_length_append [of "ks_length s" out] by (simp add: sp_serialize_def Let_def)

subsection \<open>Round trip\<close>

lemma sp_header_serialize:
  assumes "0 < n" "n < 2 ^ 64"
  shows "sp_header (pre @ serialize_length n [] @ rest) (length pre) = Some (n, length_prefix_size n)"
proof -
  consider (small) "1 \<le> n" "n \<le> 32" | (mid) "160 \<le> n" "n \<le> 382" | (big) "32 < n" "n < 160 \<or> 382 < n"
    using assms by linarith
  then show ?thesis
  proof cases
    case small
    then have "unat (of_nat (n - 1) :: u8) = n - 1"
      by (simp add: unat_of_nat del: of_nat_diff)
    with small show ?thesis
      by (simp add: sp_header_def Let_def serialize_length_def length_prefix_size_def)
  next
    case mid
    then have "unat (of_nat (n - 128) :: u8) = n - 128"
      by (simp add: unat_of_nat del: of_nat_diff)
    with mid show ?thesis
      by (auto simp: sp_header_def Let_def serialize_length_def length_prefix_size_def)
  next
    case big
    have "unat (of_nat n :: u64) = n" using assms by (simp add: unat_of_nat)
    with big show ?thesis
      by (auto simp: sp_header_def serialize_length_def length_prefix_size_def
          decode_encode_varint length_encode_varint)
  qed
qed

lemma sp_deserialize_serialize:
  assumes "ks_ok s" "ks_length s < 2 ^ 64"
  shows "\<exists>t. sp_deserialize (pre @ sp_serialize s [] @ rest) (length pre) (0 < ks_length s)
           = Some (t, length (sp_serialize s [])) \<and> ks_ok t \<and> ks_bits t = ks_bits s"
proof (cases "ks_length s = 0")
  case True
  then have "ks_bits s = []" using length_ks_bits [OF assms(1)] by simp
  with True show ?thesis by (simp add: sp_deserialize_def sp_serialize_def)
next
  case False
  let ?n = "ks_length s"
  let ?data = "pre @ sp_serialize s [] @ rest"
  obtain t where t: "from_encoded (ks_encode s) ?n = Some t" "ks_ok t" "ks_bits t = ks_bits s"
    using from_encoded_ks_encode [OF assms(1)] by blast
  have data: "?data = pre @ serialize_length ?n [] @ (ks_encode s @ rest)"
    using False by (simp add: sp_serialize_def)
  have len: "length (serialize_length ?n []) = length_prefix_size ?n"
    using False by (simp add: length_serialize_length)
  have hdr: "sp_header ?data (length pre) = Some (?n, length_prefix_size ?n)"
    unfolding data using False assms by (intro sp_header_serialize) auto
  have body: "slice_of (length pre + length_prefix_size ?n)
      (length pre + length_prefix_size ?n + encoded_len ?n) ?data = ks_encode s"
    unfolding data using assms len by (simp add: slice_of_def)
  have "\<not> length ?data < length pre + length_prefix_size ?n + encoded_len ?n"
    unfolding data using assms len by simp
  then show ?thesis
    using False t hdr body length_sp_serialize [OF assms(1), of "[]"]
    by (auto simp: sp_deserialize_def Let_def serialized_length_def)
qed

text \<open>A shared path reads back: after any prefix and before any suffix, deserializing at its position
  gives a slice with the same bits and the number of bytes that \<open>serialized_length\<close> announces.
\<close>

theorem shared_path_round_trip:
  assumes "ks_ok s" "ks_length s < 2 ^ 64"
  shows "\<exists>t. sp_deserialize (sp_serialize s pre @ rest) (length pre) (\<not> ks_is_empty s)
      = Some (t, serialized_length (ks_length s)) \<and> ks_ok t \<and> ks_bits t = ks_bits s"
  using sp_deserialize_serialize [OF assms, of pre rest] length_sp_serialize [OF assms(1), of "[]"]
  by (simp add: sp_serialize_append [of s pre] ks_is_empty_def)

theorem shared_path_round_trip_witness:
  "\<exists>t. sp_deserialize (sp_serialize (from_key (replicate 5 9)) [1, 2] @ [3]) (length [1, 2 :: u8]) True
      = Some (t, serialized_length 40) \<and> ks_bits t = key_bits (replicate 5 9)"
proof -
  have e: "ks_is_empty (from_key (replicate 5 9)) = False" by (simp add: ks_is_empty_def)
  show ?thesis
    using shared_path_round_trip [of "from_key (replicate 5 9)" "[1, 2]" "[3]"]
    unfolding e by (auto simp: ks_bits_from_key)
qed

end
