(* ===== verification/Trie_Store.thy ===== *)
theory Trie_Store
  imports Prelude "HOL-Library.Mapping"
begin

text \<open>
  The persistence layer of the trie (\<open>crates/trie/src/store.rs\<close>): the \<open>TrieStore\<close> trait as a
  locale, its in-memory implementation, and the overlay that keeps a replay's writes away
  from the store beneath it. The database-backed stores live behind the same trait; the trie
  only ever sees the laws of \<open>trie_store\<close>.
\<close>

subsection \<open>The trait\<close>

text \<open>The default bodies of the trait's batch operations, over an implementation's own ones.\<close>

definition put_many :: "('s \<Rightarrow> bytes \<Rightarrow> bytes \<Rightarrow> 's) \<Rightarrow> 's \<Rightarrow> (bytes \<times> bytes) list \<Rightarrow> 's" where
  "put_many put s entries = fold (\<lambda>(key, val) s. put s key val) entries s"

definition get_many :: "('s \<Rightarrow> bytes \<Rightarrow> bytes option) \<Rightarrow> 's \<Rightarrow> bytes list \<Rightarrow> bytes option list" where
  "get_many get s keys = map (get s) keys"

definition get_many_sorted :: "('s \<Rightarrow> bytes \<Rightarrow> bytes option) \<Rightarrow> 's \<Rightarrow> bytes list \<Rightarrow> bytes option list" where
  "get_many_sorted get s keys = map (get s) keys"

locale trie_store =
  fixes get :: "'s \<Rightarrow> bytes \<Rightarrow> bytes option"
    and put :: "'s \<Rightarrow> bytes \<Rightarrow> bytes \<Rightarrow> 's"
  assumes get_put: "get (put s k v) = (get s)(k \<mapsto> v)"
begin

lemma get_put_many: "get (put_many put s entries) = get s ++ map_of (rev entries)"
proof (induction entries arbitrary: s)
  case Nil
  then show ?case by (simp add: put_many_def)
next
  case (Cons e entries)
  obtain k v where e: "e = (k, v)" by fastforce
  have "get (put_many put s (e # entries)) = get (put s k v) ++ map_of (rev entries)"
    using Cons by (simp add: put_many_def e)
  then show ?case by (simp add: e get_put)
qed

text \<open>
  A content-addressed store, in which every entry sits under its own hash, stays one when a
  batch of entries under their hashes is written, and no entry it held is lost as long as
  the hash has no collision among the entries.
\<close>

definition addressed :: "(bytes \<Rightarrow> bytes) \<Rightarrow> 's \<Rightarrow> bool" where
  "addressed kec s \<longleftrightarrow> (\<forall>h d. get s h = Some d \<longrightarrow> h = kec d)"

lemma addressed_put_many:
  assumes "addressed kec s" "\<forall>(h, d) \<in> set batch. h = kec d"
  shows "addressed kec (put_many put s batch)"
proof (unfold addressed_def, intro allI impI)
  fix h d assume "get (put_many put s batch) h = Some d"
  then consider "map_of (rev batch) h = Some d" | "get s h = Some d"
    by (auto simp: get_put_many)
  then show "h = kec d"
  proof cases
    case 1
    then have "(h, d) \<in> set batch" using map_of_SomeD [of "rev batch" h d] by simp
    then show ?thesis using assms(2) by blast
  next
    case 2
    then show ?thesis using assms(1) by (simp add: addressed_def)
  qed
qed

lemma put_many_keeps:
  assumes "addressed kec s" "\<forall>(h, d) \<in> set batch. h = kec d"
    and "inj_on kec (ran (get s) \<union> snd ` set batch)"
  shows "get s \<subseteq>\<^sub>m get (put_many put s batch)"
proof (unfold map_le_def, intro ballI)
  fix h assume "h \<in> dom (get s)"
  then obtain d where d: "get s h = Some d" by blast
  show "get s h = get (put_many put s batch) h"
  proof (cases "map_of (rev batch) h")
    case None
    then show ?thesis by (simp add: get_put_many map_add_def)
  next
    case (Some e)
    then have e: "(h, e) \<in> set batch" using map_of_SomeD [of "rev batch" h e] by simp
    have "kec d = kec e" using assms(1,2) d e by (auto simp: addressed_def)
    moreover have "d \<in> ran (get s)" using d by (auto simp: ran_def)
    moreover have "e \<in> snd ` set batch" using e by force
    ultimately have "d = e" using assms(3) by (auto dest: inj_onD)
    with Some d show ?thesis by (simp add: get_put_many map_add_def)
  qed
qed

lemma put_many_gets:
  assumes "\<forall>(h, d) \<in> set batch. h = kec d" "inj_on kec (snd ` set batch)" "(h, d) \<in> set batch"
  shows "get (put_many put s batch) h = Some d"
proof -
  have "h \<in> fst ` set (rev batch)" using assms(3) by force
  then obtain e where e: "map_of (rev batch) h = Some e"
    by (metis domD dom_map_of_conv_image_fst)
  then have he: "(h, e) \<in> set batch" using map_of_SomeD [of "rev batch" h e] by simp
  have "h = kec e" "h = kec d" using assms(1,3) he by blast+
  moreover have "e \<in> snd ` set batch" "d \<in> snd ` set batch" using he assms(3) by force+
  ultimately have "d = e" using assms(2) by (metis inj_onD)
  with e show ?thesis by (simp add: get_put_many map_add_def)
qed

end

subsection \<open>The in-memory store\<close>

record mem_store =
  mem_data :: "(bytes, bytes) mapping"

definition mem_new :: mem_store where
  "mem_new = \<lparr> mem_data = Mapping.empty \<rparr>"

definition mem_len :: "mem_store \<Rightarrow> nat" where
  "mem_len s = Mapping.size (mem_data s)"

definition mem_is_empty :: "mem_store \<Rightarrow> bool" where
  "mem_is_empty s = (mem_len s = 0)"

definition mem_get :: "mem_store \<Rightarrow> bytes \<Rightarrow> bytes option" where
  "mem_get s key = Mapping.lookup (mem_data s) key"

definition mem_put :: "mem_store \<Rightarrow> bytes \<Rightarrow> bytes \<Rightarrow> mem_store" where
  "mem_put s key val = \<lparr> mem_data = Mapping.update key val (mem_data s) \<rparr>"

definition mem_remove :: "mem_store \<Rightarrow> bytes \<Rightarrow> mem_store \<times> bool" where
  "mem_remove s key =
     (\<lparr> mem_data = Mapping.delete key (mem_data s) \<rparr>, mem_get s key \<noteq> None)"

interpretation mem: trie_store mem_get mem_put
  by unfold_locales (auto simp: mem_get_def mem_put_def lookup_update')

lemma mem_get_new [simp]: "mem_get mem_new = Map.empty"
  by (auto simp: mem_get_def mem_new_def lookup_empty)

lemma mem_get_remove: "mem_get (fst (mem_remove s k)) = (mem_get s)(k := None)"
  by (auto simp: mem_get_def mem_remove_def Mapping.lookup_delete Mapping.lookup_delete_neq)

subsection \<open>The overlay\<close>

text \<open>
  The base and the spill store are trait objects: the overlay's operations take the base's
  \<open>get\<close> and the spill's \<open>get\<close> and \<open>put\<close>.
\<close>

record ('b, 's) overlay_store =
  ov_base :: 'b
  ov_overlay :: "(bytes, bytes) mapping"
  ov_spill :: "'s option"
  ov_written :: nat

definition ov_new :: "'b \<Rightarrow> ('b, 's) overlay_store" where
  "ov_new base = \<lparr> ov_base = base, ov_overlay = Mapping.empty, ov_spill = None, ov_written = 0 \<rparr>"

definition ov_with_spill :: "'b \<Rightarrow> 's \<Rightarrow> ('b, 's) overlay_store" where
  "ov_with_spill base spill =
     \<lparr> ov_base = base, ov_overlay = Mapping.empty, ov_spill = Some spill, ov_written = 0 \<rparr>"

definition written :: "('b, 's) overlay_store \<Rightarrow> nat" where
  "written s = (case ov_spill s of Some _ \<Rightarrow> ov_written s | None \<Rightarrow> Mapping.size (ov_overlay s))"

definition ov_get ::
  "('b \<Rightarrow> bytes \<Rightarrow> bytes option) \<Rightarrow> ('s \<Rightarrow> bytes \<Rightarrow> bytes option)
   \<Rightarrow> ('b, 's) overlay_store \<Rightarrow> bytes \<Rightarrow> bytes option" where
  "ov_get base_get spill_get s key =
     (case ov_spill s of
        Some sp \<Rightarrow> (case spill_get sp key of Some v \<Rightarrow> Some v | None \<Rightarrow> base_get (ov_base s) key)
      | None \<Rightarrow> (case Mapping.lookup (ov_overlay s) key of
                   Some v \<Rightarrow> Some v
                 | None \<Rightarrow> base_get (ov_base s) key))"

definition ov_put ::
  "('s \<Rightarrow> bytes \<Rightarrow> bytes \<Rightarrow> 's) \<Rightarrow> ('b, 's) overlay_store \<Rightarrow> bytes \<Rightarrow> bytes \<Rightarrow> ('b, 's) overlay_store" where
  "ov_put spill_put s key val =
     (case ov_spill s of
        Some sp \<Rightarrow> s\<lparr> ov_spill := Some (spill_put sp key val), ov_written := ov_written s + 1 \<rparr>
      | None \<Rightarrow> s\<lparr> ov_overlay := Mapping.update key val (ov_overlay s) \<rparr>)"

context trie_store
begin

lemma overlay_get_put:
  "ov_get base_get get (ov_put put s k v) = (ov_get base_get get s)(k \<mapsto> v)"
  by (auto simp: ov_get_def ov_put_def get_put lookup_update' split: option.splits)

end

interpretation ov: trie_store "ov_get mem_get mem_get" "ov_put mem_put"
  by unfold_locales (rule mem.overlay_get_put)

lemma ov_base_put_many: "ov_base (put_many (ov_put sp) s entries) = ov_base s"
proof (induction entries arbitrary: s)
  case (Cons e entries)
  then show ?case
    by (cases e) (auto simp: put_many_def ov_put_def split: option.splits)
qed (simp add: put_many_def)

text \<open>
  An overlay isolates what is beneath it: a batch of writes leaves the base as it was; a read sees
  the last write of its key, and the base (through the spill store, if there is one) for every key
  that was not written.
\<close>

theorem overlay_isolates_base:
  "ov_base (put_many (ov_put mem_put) s entries) = ov_base s
   \<and> ov_get mem_get mem_get (put_many (ov_put mem_put) s entries) k =
     (case map_of (rev entries) k of Some v \<Rightarrow> Some v | None \<Rightarrow> ov_get mem_get mem_get s k)"
  using ov.get_put_many [of s entries] by (simp add: ov_base_put_many map_add_def split: option.splits)

end
