(* ===== verification/Trie_Node.thy ===== *)
theory Trie_Node
  imports Shared_Path Trie_Store "HOL-Library.Monad_Syntax"
begin

text \<open>
  The node of the binary trie (\<open>crates/trie/src/node.rs\<close>): the node and its child references,
  its measures, its RSKIP107 message and the bounds-checked parser of that message.

  Keccak-256 is the parameter \<open>kec\<close>. The methods of the code take a store everywhere; here it
  is a parameter only where it is consulted, as the function \<open>store\<close> from keys to contents.
  The field \<open>hash_cache\<close> memoises \<open>compute_hash\<close> of an immutable node and is not modelled.
  A hash is the list of its 32 bytes.
\<close>

subsection \<open>Data\<close>

datatype node_ref = Empty | Hash b256 | Node trie_node
  and trie_node = TrieNode
    (shared_path: key_slice)
    (node_value: "bytes option")
    (value_hash: "b256 option")
    (long_value_len: "u32 option")
    (left: node_ref)
    (right: node_ref)
    (children_size: u64)
    (saved: bool)

definition MAX_EMBEDDED_NODE_SIZE :: nat where
  "MAX_EMBEDDED_NODE_SIZE = 44"

definition MAX_SHARED_PATH_BITS :: nat where
  "MAX_SHARED_PATH_BITS = 1024"

definition empty_trie_hash :: "(bytes \<Rightarrow> b256) \<Rightarrow> b256" where
  "empty_trie_hash kec = kec [0x80]"

definition tn_empty :: trie_node where
  "tn_empty = TrieNode ks_empty None None None Empty Empty 0 False"

definition from_parts :: "key_slice \<Rightarrow> bytes option \<Rightarrow> b256 option \<Rightarrow> node_ref \<Rightarrow> node_ref \<Rightarrow> trie_node" where
  "from_parts sp v vh l r = TrieNode sp v vh None l r 0 False"

definition new_leaf :: "(bytes \<Rightarrow> b256) \<Rightarrow> key_slice \<Rightarrow> bytes \<Rightarrow> trie_node" where
  "new_leaf kec sp v = TrieNode sp (Some v) (Some (kec v)) None Empty Empty 0 False"

fun ref_is_empty :: "node_ref \<Rightarrow> bool" where
  "ref_is_empty Empty = True"
| "ref_is_empty _ = False"

definition is_empty_trie :: "trie_node \<Rightarrow> bool" where
  "is_empty_trie n = (node_value n = None \<and> long_value_len n = None
     \<and> ref_is_empty (left n) \<and> ref_is_empty (right n))"

definition is_terminal :: "trie_node \<Rightarrow> bool" where
  "is_terminal n = (ref_is_empty (left n) \<and> ref_is_empty (right n))"

definition value_length :: "trie_node \<Rightarrow> nat" where
  "value_length n =
     (case node_value n of
        Some v \<Rightarrow> length v
      | None \<Rightarrow> (case long_value_len n of Some w \<Rightarrow> unat w | None \<Rightarrow> 0))"

definition has_long_value :: "trie_node \<Rightarrow> bool" where
  "has_long_value n = (32 < value_length n)"

definition get_value_hash :: "(bytes \<Rightarrow> b256) \<Rightarrow> trie_node \<Rightarrow> b256" where
  "get_value_hash kec n =
     (case value_hash n of
        Some h \<Rightarrow> h
      | None \<Rightarrow> (case node_value n of None \<Rightarrow> replicate 32 0 | Some v \<Rightarrow> kec v))"

subsection \<open>Measures\<close>

text \<open>
  \<open>is_embeddable\<close> asks for \<open>message_length\<close>, which asks the children for their serialized
  length, which asks whether they are embeddable.
\<close>

function ref_is_embeddable :: "node_ref \<Rightarrow> bool"
  and ref_serialized_length :: "node_ref \<Rightarrow> nat"
  and is_embeddable :: "trie_node \<Rightarrow> bool"
  and message_length :: "trie_node \<Rightarrow> nat" where
  "ref_is_embeddable r = (case r of Node n \<Rightarrow> is_embeddable n | _ \<Rightarrow> False)"
| "ref_serialized_length r =
     (if ref_is_empty r then 0
      else case r of
             Node n \<Rightarrow> (if ref_is_embeddable r then 1 + message_length n else 32)
           | _ \<Rightarrow> 32)"
| "is_embeddable n = (is_terminal n \<and> message_length n \<le> MAX_EMBEDDED_NODE_SIZE)"
| "message_length n =
     1 + serialized_length (ks_length (shared_path n))
       + ref_serialized_length (left n)
       + ref_serialized_length (right n)
       + (if is_terminal n then 0 else varint_size (children_size n))
       + (if has_long_value n then 32 + 3 else value_length n)"
  by pat_completeness auto
termination
  apply (relation "measure (\<lambda>x. case x of
      Inl (Inl r) \<Rightarrow> 4 * size r + 2
    | Inl (Inr r) \<Rightarrow> 4 * size r + 3
    | Inr (Inl n) \<Rightarrow> 4 * size n + 1
    | Inr (Inr n) \<Rightarrow> 4 * size n)")
         apply simp_all
   apply (case_tac n; simp)+
  done

declare ref_is_embeddable.simps [simp del] ref_serialized_length.simps [simp del]
  is_embeddable.simps [simp del] message_length.simps [simp del]

text \<open>The size of a subtree: the node's message, its children and its value outside the node.\<close>

definition external_value_length :: "trie_node \<Rightarrow> u64" where
  "external_value_length n = (if has_long_value n then of_nat (value_length n) else 0)"

subsection \<open>The message\<close>

definition flags_of :: "trie_node \<Rightarrow> u8" where
  "flags_of n =
     0b01000000
     OR (if has_long_value n then 0b00100000 else 0)
     OR (if \<not> ks_is_empty (shared_path n) then 0b00010000 else 0)
     OR (if \<not> ref_is_empty (left n) then 0b00001000 else 0)
     OR (if \<not> ref_is_empty (right n) then 0b00000100 else 0)
     OR (if ref_is_embeddable (left n) then 0b00000010 else 0)
     OR (if ref_is_embeddable (right n) then 0b00000001 else 0)"

definition value_bytes :: "(bytes \<Rightarrow> b256) \<Rightarrow> trie_node \<Rightarrow> bytes" where
  "value_bytes kec n =
     (if has_long_value n then
        (let vlen = of_nat (value_length n) :: u32
         in get_value_hash kec n @ [ucast (drop_bit 16 vlen), ucast (drop_bit 8 vlen), ucast vlen])
      else case node_value n of Some v \<Rightarrow> v | None \<Rightarrow> [])"

function to_message :: "(bytes \<Rightarrow> b256) \<Rightarrow> trie_node \<Rightarrow> bytes"
  and serialize_into :: "(bytes \<Rightarrow> b256) \<Rightarrow> node_ref \<Rightarrow> bytes"
  and ref_get_hash :: "(bytes \<Rightarrow> b256) \<Rightarrow> node_ref \<Rightarrow> b256 option"
  and compute_hash :: "(bytes \<Rightarrow> b256) \<Rightarrow> trie_node \<Rightarrow> b256" where
  "to_message kec n =
     sp_serialize (shared_path n) [flags_of n]
     @ serialize_into kec (left n)
     @ serialize_into kec (right n)
     @ (if \<not> is_terminal n then encode_varint (children_size n) else [])
     @ value_bytes kec n"
| "serialize_into kec r =
     (case r of
        Empty \<Rightarrow> []
      | Node n \<Rightarrow>
          (if is_embeddable n then (let msg = to_message kec n in of_nat (length msg) # msg)
           else (case ref_get_hash kec r of Some h \<Rightarrow> h | None \<Rightarrow> []))
      | Hash _ \<Rightarrow> (case ref_get_hash kec r of Some h \<Rightarrow> h | None \<Rightarrow> []))"
| "ref_get_hash kec r =
     (case r of Empty \<Rightarrow> None | Hash h \<Rightarrow> Some h | Node n \<Rightarrow> Some (compute_hash kec n))"
| "compute_hash kec n =
     (if is_empty_trie n then empty_trie_hash kec else kec (to_message kec n))"
  by pat_completeness auto
termination
  apply (relation "measure (\<lambda>x. case x of
      Inl (Inl (kec, n)) \<Rightarrow> 4 * size n
    | Inl (Inr (kec, r)) \<Rightarrow> 4 * size r + 3
    | Inr (Inl (kec, r)) \<Rightarrow> 4 * size r + 2
    | Inr (Inr (kec, n)) \<Rightarrow> 4 * size n + 1)")
        apply simp_all
   apply (case_tac n; simp)+
  done

declare to_message.simps [simp del] serialize_into.simps [simp del]
  ref_get_hash.simps [simp del] compute_hash.simps [simp del]

subsection \<open>The bounds-checked reader\<close>

record reader =
  rd_data :: bytes
  rd_pos :: nat

definition rd_byte :: "reader \<Rightarrow> (u8 \<times> reader) option" where
  "rd_byte r =
     (if rd_pos r < length (rd_data r)
      then Some (rd_data r ! rd_pos r, r\<lparr> rd_pos := rd_pos r + 1 \<rparr>) else None)"

definition rd_take :: "reader \<Rightarrow> nat \<Rightarrow> (bytes \<times> reader) option" where
  "rd_take r n = do {
     end \<leftarrow> usize_checked_add (rd_pos r) n;
     if end \<le> length (rd_data r)
     then Some (slice_of (rd_pos r) end (rd_data r), r\<lparr> rd_pos := end \<rparr>) else None }"

definition rd_varint :: "reader \<Rightarrow> (u64 \<times> reader) option" where
  "rd_varint r =
     (if rd_pos r < length (rd_data r) then
        let first = rd_data r ! rd_pos r;
            width = (if first \<le> 252 then 1 else if first = 253 then 3 else if first = 254 then 5 else 9)
        in do {
          (bs, r') \<leftarrow> rd_take r width;
          Some (if width = 1 then ucast first else of_nat (from_le (slice_of 1 width bs)), r') }
      else None)"

text \<open>
  The parts of \<open>try_from_message\<close> in the order it reads them. \<open>from_encoded\<close> is given exactly
  the bytes of the path, so it does not panic.
\<close>

definition read_lshared :: "reader \<Rightarrow> (nat \<times> reader) option" where
  "read_lshared r = do {
     (b, r1) \<leftarrow> rd_byte r;
     if unat b \<le> 31 then Some (unat b + 1, r1)
     else if unat b \<le> 254 then Some (unat b + 128, r1)
     else do { (v, r2) \<leftarrow> rd_varint r1; Some (unat v, r2) } }"

definition read_shared_path :: "bool \<Rightarrow> reader \<Rightarrow> (key_slice \<times> reader) option" where
  "read_shared_path present r =
     (if present then do {
        (lshared, r2) \<leftarrow> read_lshared r;
        if MAX_SHARED_PATH_BITS < lshared then None
        else do {
          (encoded, r3) \<leftarrow> rd_take r2 (encoded_len lshared);
          sp \<leftarrow> from_encoded encoded lshared;
          Some (sp, r3) } }
      else Some (ks_empty, r))"

definition read_child ::
  "(bytes \<Rightarrow> trie_node option) \<Rightarrow> bool \<Rightarrow> bool \<Rightarrow> reader \<Rightarrow> (node_ref \<times> reader) option" where
  "read_child parse present embedded r =
     (if \<not> present then Some (Empty, r)
      else if embedded then do {
        (len, r1) \<leftarrow> rd_byte r;
        (body, r2) \<leftarrow> rd_take r1 (unat len);
        n \<leftarrow> parse body;
        Some (Node n, r2) }
      else do {
        (h, r1) \<leftarrow> rd_take r 32;
        Some (Hash h, r1) })"

text \<open>The three-byte length of a long value, and the value, its hash and that length.\<close>

definition long_value_length :: "bytes \<Rightarrow> u32" where
  "long_value_length len =
     push_bit 16 (ucast (len ! 0)) OR push_bit 8 (ucast (len ! 1)) OR ucast (len ! 2)"

definition read_value ::
  "(bytes \<Rightarrow> b256) \<Rightarrow> (bytes \<Rightarrow> bytes option) \<Rightarrow> bool \<Rightarrow> reader
   \<Rightarrow> (bytes option \<times> b256 option \<times> u32 option) option" where
  "read_value kec store has_long_val r =
     (if has_long_val then do {
        (vh, r1) \<leftarrow> rd_take r 32;
        (len, r2) \<leftarrow> rd_take r1 3;
        (let vlen = long_value_length len; val = store vh
         in if (case val of Some v \<Rightarrow> length v \<noteq> unat vlen | None \<Rightarrow> False) then None
            else Some (val, Some vh, Some vlen)) }
      else if rd_pos r < length (rd_data r) then
        (let v = drop (rd_pos r) (rd_data r) in Some (Some v, Some (kec v), None))
      else Some (None, None, None))"

lemma rd_byte_data: "rd_byte r = Some (b, r') \<Longrightarrow> rd_data r' = rd_data r"
  by (auto simp: rd_byte_def split: if_splits)

lemma rd_take_data: "rd_take r n = Some (bs, r') \<Longrightarrow> rd_data r' = rd_data r"
  by (auto simp: rd_take_def bind_eq_Some_conv split: if_splits)

lemma rd_varint_data: "rd_varint r = Some (v, r') \<Longrightarrow> rd_data r' = rd_data r"
  by (auto simp: rd_varint_def bind_eq_Some_conv Let_def rd_take_data split: if_splits)

lemma read_lshared_data: "read_lshared r = Some (n, r') \<Longrightarrow> rd_data r' = rd_data r"
  by (auto simp: read_lshared_def bind_eq_Some_conv dest!: rd_byte_data rd_varint_data split: if_splits)

lemma read_shared_path_data: "read_shared_path p r = Some (sp, r') \<Longrightarrow> rd_data r' = rd_data r"
  by (auto simp: read_shared_path_def bind_eq_Some_conv dest!: rd_take_data read_lshared_data
      split: if_splits)

lemma read_child_data: "read_child f p e r = Some (c, r') \<Longrightarrow> rd_data r' = rd_data r"
  by (auto simp: read_child_def bind_eq_Some_conv dest!: rd_byte_data rd_take_data split: if_splits)

lemma embedded_body_shorter:
  assumes "rd_byte r = Some (len, r1)" "rd_take r1 n = Some (body, r2)"
  shows "length body < length (rd_data r)"
  using assms
  by (auto simp: rd_byte_def rd_take_def bind_eq_Some_conv usize_checked_add_def slice_of_def
      split: if_splits)

lemma read_child_cong [fundef_cong]:
  assumes "p = p'" "e = e'" "r = r'"
    and "\<And>body. length body < length (rd_data r') \<Longrightarrow> f body = g body"
  shows "read_child f p e r = read_child g p' e' r'"
proof -
  have "\<And>len r1 body r2. rd_byte r' = Some (len, r1) \<Longrightarrow> rd_take r1 (unat len) = Some (body, r2) \<Longrightarrow>
      f body = g body"
    using assms(4) embedded_body_shorter by blast
  then show ?thesis
    unfolding assms(1-3) by (auto simp: read_child_def intro!: Option.bind_cong)
qed

subsection \<open>The parser\<close>

function try_from_message ::
  "(bytes \<Rightarrow> b256) \<Rightarrow> (bytes \<Rightarrow> bytes option) \<Rightarrow> bytes \<Rightarrow> trie_node option" where
  "try_from_message kec store data =
     (case rd_byte \<lparr> rd_data = data, rd_pos = 0 \<rparr> of
        None \<Rightarrow> None
      | Some (flags, r1) \<Rightarrow>
          let has_long_val = flags AND 0b00100000 \<noteq> 0;
              shared_prefix_present = flags AND 0b00010000 \<noteq> 0;
              left_present = flags AND 0b00001000 \<noteq> 0;
              right_present = flags AND 0b00000100 \<noteq> 0;
              left_embedded = flags AND 0b00000010 \<noteq> 0;
              right_embedded = flags AND 0b00000001 \<noteq> 0
          in (case read_shared_path shared_prefix_present r1 of
                None \<Rightarrow> None
              | Some (sp, r2) \<Rightarrow>
          (case read_child (try_from_message kec store) left_present left_embedded r2 of
             None \<Rightarrow> None
           | Some (l, r3) \<Rightarrow>
          (case read_child (try_from_message kec store) right_present right_embedded r3 of
             None \<Rightarrow> None
           | Some (r, r4) \<Rightarrow>
          (case (if left_present \<or> right_present then rd_varint r4 else Some (0, r4)) of
             None \<Rightarrow> None
           | Some (cs, r5) \<Rightarrow>
          (case read_value kec store has_long_val r5 of
             None \<Rightarrow> None
           | Some (v, vh, lvl) \<Rightarrow> Some (TrieNode sp v vh lvl l r cs False)))))))"
  by pat_completeness auto
termination
  by (relation "measure (\<lambda>(kec, store, data). length data)")
    (auto dest!: rd_byte_data read_shared_path_data read_child_data)

declare try_from_message.simps [simp del]

end
