(* ===== verification/Trie_Codec.thy ===== *)
theory Trie_Codec
  imports Trie_Node
begin

text \<open>
  The wire format of a node: the announced length of a message is its length, and parsing a
  message gives back the node it was made from, up to the representation that the parser
  chooses (\<open>wire\<close>): children that are not embedded become hashes, the shared path is
  repacked and the node is marked unsaved.
\<close>

subsection \<open>Reading what was written\<close>

definition rd_at :: "bytes \<Rightarrow> bytes \<Rightarrow> reader" where
  "rd_at pre rest = \<lparr> rd_data = pre @ rest, rd_pos = length pre \<rparr>"

lemma rd_byte_at: "rd_byte (rd_at pre (b # rest)) = Some (b, rd_at (pre @ [b]) rest)"
  by (simp add: rd_byte_def rd_at_def)

lemma rd_take_at:
  assumes "length xs = n" "length pre + n < 2 ^ 64"
  shows "rd_take (rd_at pre (xs @ rest)) n = Some (xs, rd_at (pre @ xs) rest)"
  using assms by (simp add: rd_take_def rd_at_def usize_checked_add_def slice_of_def)

lemma rd_varint_at:
  assumes "length pre + 9 < 2 ^ 64"
  shows "rd_varint (rd_at pre (encode_varint v @ rest)) = Some (v, rd_at (pre @ encode_varint v) rest)"
proof (cases rule: encode_varint_cases [of v])
  case one
  then have "(ucast v :: u8) \<le> 252"
    using ucast_u8_less [of v] by (simp add: word_le_nat_alt word_less_nat_alt)
  then show ?thesis
    using one assms rd_take_at [of "[ucast v]" 1 pre rest]
    by (simp add: rd_varint_def Let_def ucast_u8_u64 rd_at_def)
next
  case three
  then show ?thesis
    using assms rd_take_at [of "encode_varint v" 3 pre rest]
    by (simp add: rd_varint_def Let_def slice_of_def from_le_to_le rd_at_def)
next
  case five
  then show ?thesis
    using assms rd_take_at [of "encode_varint v" 5 pre rest]
    by (simp add: rd_varint_def Let_def slice_of_def from_le_to_le rd_at_def)
next
  case nine
  then show ?thesis
    using assms rd_take_at [of "encode_varint v" 9 pre rest]
    by (simp add: rd_varint_def Let_def slice_of_def from_le_to_le rd_at_def)
qed

interpretation reader_varint: varint_codec encode_varint
  "\<lambda>data. map_option (\<lambda>(v, r). (v, rd_pos r)) (rd_varint \<lparr> rd_data = data, rd_pos = 0 \<rparr>)"
proof
  fix v rest
  have "rd_varint (rd_at [] (encode_varint v @ rest)) = Some (v, rd_at ([] @ encode_varint v) rest)"
    by (rule rd_varint_at) simp
  then show "map_option (\<lambda>(v, r). (v, rd_pos r))
      (rd_varint \<lparr> rd_data = encode_varint v @ rest, rd_pos = 0 \<rparr>) = Some (v, length (encode_varint v))"
    by (simp add: rd_at_def)
qed

subsection \<open>The fields of a message\<close>

lemma flags_of_bits:
  "flags_of n AND 0b00100000 \<noteq> 0 \<longleftrightarrow> has_long_value n"
  "flags_of n AND 0b00010000 \<noteq> 0 \<longleftrightarrow> \<not> ks_is_empty (shared_path n)"
  "flags_of n AND 0b00001000 \<noteq> 0 \<longleftrightarrow> \<not> ref_is_empty (left n)"
  "flags_of n AND 0b00000100 \<noteq> 0 \<longleftrightarrow> \<not> ref_is_empty (right n)"
  "flags_of n AND 0b00000010 \<noteq> 0 \<longleftrightarrow> ref_is_embeddable (left n)"
  "flags_of n AND 0b00000001 \<noteq> 0 \<longleftrightarrow> ref_is_embeddable (right n)"
  by (simp_all add: flags_of_def)

lemma long_value_length_bytes:
  assumes "unat w < 2 ^ 24"
  shows "long_value_length [ucast (drop_bit 16 w), ucast (drop_bit 8 w), ucast w] = w"
proof -
  have small: "\<not> bit w k" if "24 \<le> k" "k < 32" for k
  proof -
    have "(2::nat) ^ 24 \<le> 2 ^ k" using that(1) by (rule power_increasing) simp
    with assms have "unat w < 2 ^ k" by linarith
    then have "\<not> bit (unat w) k" by (simp add: bit_iff_odd)
    then show ?thesis using that(2) by (simp add: bit_unsigned_iff)
  qed
  show ?thesis
  proof (rule bit_eqI)
    fix k assume "possible_bit TYPE(u32) k"
    then have k: "k < 32" by simp
    consider "k < 8" | "8 \<le> k" "k < 16" | "16 \<le> k" "k < 24" | "24 \<le> k" by linarith
    then show "bit (long_value_length [ucast (drop_bit 16 w), ucast (drop_bit 8 w), ucast w]) k = bit w k"
      using k small [of k]
      by cases (simp_all add: long_value_length_def bit_or_iff bit_push_bit_iff bit_ucast_iff
          bit_drop_bit_eq, auto)
  qed
qed

subsection \<open>Well-formed nodes and their wire representation\<close>

definition ks_norm :: "key_slice \<Rightarrow> key_slice" where
  "ks_norm s = \<lparr> expanded = ks_expand s, offset = 0, limit = ks_length s \<rparr>"

text \<open>
  What a node must satisfy to survive a round trip through its message: a path the parser
  accepts, 32-byte hashes, and a long value that the store holds under the hash the node
  names (or does not hold at all, when the node does not have it either).
\<close>

fun ref_codec_ok :: "(bytes \<Rightarrow> b256) \<Rightarrow> (bytes \<Rightarrow> bytes option) \<Rightarrow> node_ref \<Rightarrow> bool"
  and codec_ok :: "(bytes \<Rightarrow> b256) \<Rightarrow> (bytes \<Rightarrow> bytes option) \<Rightarrow> trie_node \<Rightarrow> bool" where
  "ref_codec_ok kec store Empty = True"
| "ref_codec_ok kec store (Hash h) = (length h = 32)"
| "ref_codec_ok kec store (Node n) = (is_embeddable n \<longrightarrow> codec_ok kec store n)"
| "codec_ok kec store (TrieNode sp v vh lvl l r cs sv) =
     (ks_ok sp \<and> ks_length sp \<le> MAX_SHARED_PATH_BITS
      \<and> ref_codec_ok kec store l \<and> ref_codec_ok kec store r
      \<and> (let n = TrieNode sp v vh lvl l r cs sv
          in if has_long_value n
             then value_length n < 2 ^ 24 \<and> length (get_value_hash kec n) = 32
                  \<and> store (get_value_hash kec n) = v
             else v = None \<longrightarrow> value_length n = 0))"

fun wire_ref :: "(bytes \<Rightarrow> b256) \<Rightarrow> node_ref \<Rightarrow> node_ref"
  and wire :: "(bytes \<Rightarrow> b256) \<Rightarrow> trie_node \<Rightarrow> trie_node" where
  "wire_ref kec Empty = Empty"
| "wire_ref kec (Hash h) = Hash h"
| "wire_ref kec (Node n) = (if is_embeddable n then Node (wire kec n) else Hash (compute_hash kec n))"
| "wire kec (TrieNode sp v vh lvl l r cs sv) =
     (let n = TrieNode sp v vh lvl l r cs sv;
          cs' = (if is_terminal n then 0 else cs)
      in if has_long_value n
         then TrieNode (ks_norm sp) v (Some (get_value_hash kec n)) (Some (of_nat (value_length n)))
                (wire_ref kec l) (wire_ref kec r) cs' False
         else if v = None \<or> v = Some []
         then TrieNode (ks_norm sp) None None None (wire_ref kec l) (wire_ref kec r) cs' False
         else TrieNode (ks_norm sp) v (map_option kec v) None (wire_ref kec l) (wire_ref kec r) cs' False)"

subsection \<open>Lengths\<close>

lemma length_compute_hash:
  assumes "\<And>d. length (kec d) = 32"
  shows "length (compute_hash kec n) = 32"
  by (simp add: compute_hash.simps empty_trie_hash_def assms)

lemma length_to_message:
  assumes kec: "\<And>d. length (kec d) = 32"
  shows "ref_codec_ok kec store r \<Longrightarrow> length (serialize_into kec r) = ref_serialized_length r"
    and "codec_ok kec store n \<Longrightarrow> length (to_message kec n) = message_length n"
proof (induction r and n)
  case Empty
  then show ?case by (simp add: serialize_into.simps ref_serialized_length.simps)
next
  case (Hash h)
  then show ?case
    by (simp add: serialize_into.simps ref_serialized_length.simps ref_get_hash.simps)
next
  case (Node n)
  then show ?case
    by (simp add: serialize_into.simps ref_serialized_length.simps ref_get_hash.simps
        ref_is_embeddable.simps length_compute_hash kec Let_def)
next
  case (TrieNode sp v vh lvl l r cs sv)
  then show ?case
    by (auto simp: to_message.simps message_length.simps length_sp_serialize value_bytes_def
        length_encode_varint Let_def value_length_def split: option.splits if_splits)
qed

lemma length_prefix_size_le: "length_prefix_size n \<le> 10"
  using varint_size_le [of "of_nat n"] by (simp add: length_prefix_size_def)

lemma ref_serialized_length_le: "ref_serialized_length r \<le> 45"
  by (auto simp: ref_serialized_length.simps ref_is_embeddable.simps is_embeddable.simps
      MAX_EMBEDDED_NODE_SIZE_def split: node_ref.splits)

lemma message_length_le: "ks_length (shared_path n) \<le> MAX_SHARED_PATH_BITS \<Longrightarrow> message_length n \<le> 300"
proof -
  assume "ks_length (shared_path n) \<le> MAX_SHARED_PATH_BITS"
  then have "encoded_len (ks_length (shared_path n)) \<le> 128"
    by (simp add: MAX_SHARED_PATH_BITS_def encoded_len_def)
  then have "serialized_length (ks_length (shared_path n)) \<le> 138"
    using length_prefix_size_le [of "ks_length (shared_path n)"] by (simp add: serialized_length_def)
  moreover have "(if has_long_value n then 32 + 3 else value_length n) \<le> 35"
    by (simp add: has_long_value_def)
  moreover have "(if is_terminal n then 0 else varint_size (children_size n)) \<le> 9"
    using varint_size_le by simp
  ultimately show ?thesis
    using ref_serialized_length_le [of "left n"] ref_serialized_length_le [of "right n"]
    by (subst message_length.simps) linarith
qed

subsection \<open>Each part reads back\<close>

lemma from_encoded_norm:
  "ks_ok s \<Longrightarrow> from_encoded (ks_encode s) (ks_length s) = Some (ks_norm s)"
  using path_decode_encode [of "ks_expand s"] ks_ok_expand [of s]
  by (simp add: from_encoded_def ks_norm_def ks_encode_def ks_expand_def [symmetric])

lemma read_shared_path_at:
  assumes "ks_ok s" "ks_length s \<le> MAX_SHARED_PATH_BITS" "length pre + 200 < 2 ^ 64"
  shows "read_shared_path (\<not> ks_is_empty s) (rd_at pre (sp_serialize s [] @ rest)) =
    Some (ks_norm s, rd_at (pre @ sp_serialize s []) rest)"
proof (cases "ks_length s = 0")
  case True
  then have "ks_expand s = []" using length_ks_expand [OF assms(1)] by simp
  with True show ?thesis
    by (simp add: read_shared_path_def ks_is_empty_def sp_serialize_def ks_norm_def ks_empty_def)
next
  case False
  let ?n = "ks_length s"
  have n: "?n \<le> 1024" using assms(2) by (simp add: MAX_SHARED_PATH_BITS_def)
  have len: "length (ks_encode s) = encoded_len ?n" "encoded_len ?n \<le> 128"
    using assms(1) n by (auto simp: encoded_len_def)
  have body: "rd_take (rd_at p (ks_encode s @ rest)) (encoded_len ?n) =
      Some (ks_encode s, rd_at (p @ ks_encode s) rest)" if "length p \<le> length pre + 10" for p
    using that len assms(3) by (intro rd_take_at) auto
  consider (small) "?n \<le> 32" | (mid) "160 \<le> ?n" "?n \<le> 382" | (big) "32 < ?n" "?n < 160 \<or> 382 < ?n"
    by linarith
  then show ?thesis
  proof cases
    case small
    have "unat (of_nat (?n - 1) :: u8) = ?n - 1"
      using small by (simp add: unat_of_nat del: of_nat_diff)
    moreover have "?n - 1 \<le> 31" using small by simp
    ultimately show ?thesis
      using False small n assms(1) body [of "pre @ [of_nat (?n - 1)]"]
      by (simp add: read_shared_path_def read_lshared_def ks_is_empty_def sp_serialize_def serialize_length_def
          rd_byte_at MAX_SHARED_PATH_BITS_def from_encoded_norm del: of_nat_diff)
  next
    case mid
    have "unat (of_nat (?n - 128) :: u8) = ?n - 128"
      using mid by (simp add: unat_of_nat del: of_nat_diff)
    moreover have "\<not> ?n - 128 \<le> 31" "?n - 128 \<le> 254" using mid by auto
    ultimately show ?thesis
      using False mid n assms(1) body [of "pre @ [of_nat (?n - 128)]"]
      by (simp add: read_shared_path_def read_lshared_def ks_is_empty_def sp_serialize_def serialize_length_def
          rd_byte_at MAX_SHARED_PATH_BITS_def from_encoded_norm del: of_nat_diff)
  next
    case big
    let ?v = "encode_varint (of_nat ?n)"
    have "unat (of_nat ?n :: u64) = ?n" using n by (simp add: unat_of_nat)
    moreover have "length ?v \<le> 9" by (simp add: length_encode_varint varint_size_le)
    ultimately show ?thesis
      using False big n assms(1,3) body [of "pre @ 0xFF # ?v"]
        rd_varint_at [of "pre @ [0xFF]" "of_nat ?n" "ks_encode s @ rest"]
      by (auto simp: read_shared_path_def read_lshared_def ks_is_empty_def sp_serialize_def serialize_length_def
          rd_byte_at MAX_SHARED_PATH_BITS_def from_encoded_norm)
  qed
qed

lemma ref_is_embeddable_Node [simp]: "ref_is_embeddable (Node n) = is_embeddable n"
  and ref_is_embeddable_other [simp]: "\<not> ref_is_embeddable Empty" "\<not> ref_is_embeddable (Hash h)"
  by (simp_all add: ref_is_embeddable.simps)

lemma read_child_at:
  assumes kec: "\<And>d. length (kec d) = 32"
    and ok: "ref_codec_ok kec store r"
    and parse: "\<And>n. r = Node n \<Longrightarrow> is_embeddable n \<Longrightarrow> parse (to_message kec n) = Some (wire kec n)"
    and pre: "length pre + 100 < 2 ^ 64"
  shows "read_child parse (\<not> ref_is_empty r) (ref_is_embeddable r) (rd_at pre (serialize_into kec r @ rest)) =
    Some (wire_ref kec r, rd_at (pre @ serialize_into kec r) rest)"
proof (cases r)
  case Empty
  then show ?thesis by (simp add: read_child_def serialize_into.simps)
next
  case (Hash h)
  then show ?thesis
    using ok pre rd_take_at [of h 32 pre rest]
    by (simp add: read_child_def serialize_into.simps ref_get_hash.simps)
next
  case (Node n)
  show ?thesis
  proof (cases "is_embeddable n")
    case True
    let ?m = "to_message kec n"
    have len: "length ?m \<le> 44"
      using length_to_message(2) [OF kec] True ok Node
      by (simp add: is_embeddable.simps MAX_EMBEDDED_NODE_SIZE_def)
    have "unat (of_nat (length ?m) :: u8) = length ?m"
      using len by (simp add: unat_of_nat)
    then show ?thesis
      using Node True parse len pre rd_take_at [of ?m "length ?m" "pre @ [of_nat (length ?m)]" rest]
      by (simp add: read_child_def serialize_into.simps Let_def rd_byte_at)
  next
    case False
    then show ?thesis
      using Node pre rd_take_at [of "compute_hash kec n" 32 pre rest]
      by (simp add: read_child_def serialize_into.simps ref_get_hash.simps length_compute_hash kec)
  qed
qed

definition wire_value :: "(bytes \<Rightarrow> b256) \<Rightarrow> trie_node \<Rightarrow> bytes option \<times> b256 option \<times> u32 option" where
  "wire_value kec n =
     (if has_long_value n
      then (node_value n, Some (get_value_hash kec n), Some (of_nat (value_length n)))
      else if node_value n = None \<or> node_value n = Some [] then (None, None, None)
      else (node_value n, map_option kec (node_value n), None))"

lemma wire_eq:
  "wire kec n = (case wire_value kec n of (v, vh, lvl) \<Rightarrow>
     TrieNode (ks_norm (shared_path n)) v vh lvl (wire_ref kec (left n)) (wire_ref kec (right n))
       (if is_terminal n then 0 else children_size n) False)"
  by (cases n) (simp add: wire_value_def Let_def)

lemma has_long_value_node_value:
  "has_long_value n \<Longrightarrow> node_value n = Some v \<Longrightarrow> value_length n = length v"
  by (simp add: value_length_def)

lemma read_value_at:
  assumes "codec_ok kec store n" "length pre + 100 < 2 ^ 64"
  shows "read_value kec store (has_long_value n) (rd_at pre (value_bytes kec n)) = Some (wire_value kec n)"
proof (cases "has_long_value n")
  case True
  let ?h = "get_value_hash kec n"
  let ?w = "of_nat (value_length n) :: u32"
  let ?len = "[ucast (drop_bit 16 ?w), ucast (drop_bit 8 ?w), ucast ?w] :: bytes"
  have ok: "value_length n < 2 ^ 24" "length ?h = 32" "store ?h = node_value n"
    using assms(1) True by (cases n; simp add: Let_def)+
  have w: "unat ?w = value_length n" using ok(1) by (simp add: unat_of_nat)
  have lvl: "long_value_length ?len = ?w"
    by (rule long_value_length_bytes) (use w ok(1) in simp)
  have "rd_take (rd_at pre (?h @ ?len)) 32 = Some (?h, rd_at (pre @ ?h) ?len)"
    using ok assms(2) by (intro rd_take_at) auto
  moreover have "rd_take (rd_at (pre @ ?h) (?len @ [])) 3 = Some (?len, rd_at ((pre @ ?h) @ ?len) [])"
    using ok assms(2) by (intro rd_take_at) auto
  ultimately show ?thesis
    using True ok lvl w has_long_value_node_value [OF True]
    by (auto simp: read_value_def value_bytes_def wire_value_def Let_def split: option.splits)
next
  case False
  then show ?thesis
    by (cases "node_value n")
      (auto simp: read_value_def value_bytes_def wire_value_def rd_at_def Let_def)
qed

subsection \<open>The round trip\<close>

lemma to_message_parts:
  "to_message kec n = [flags_of n] @ sp_serialize (shared_path n) []
     @ serialize_into kec (left n) @ serialize_into kec (right n)
     @ (if is_terminal n then [] else encode_varint (children_size n)) @ value_bytes kec n"
  by (simp add: to_message.simps [of kec n] sp_serialize_append [of _ "[_]"])

lemma try_from_message_node:
  assumes kec: "\<And>d. length (kec d) = 32"
    and ok: "codec_ok kec store n"
    and l: "\<And>m. left n = Node m \<Longrightarrow> is_embeddable m \<Longrightarrow>
      try_from_message kec store (to_message kec m) = Some (wire kec m)"
    and r: "\<And>m. right n = Node m \<Longrightarrow> is_embeddable m \<Longrightarrow>
      try_from_message kec store (to_message kec m) = Some (wire kec m)"
  shows "try_from_message kec store (to_message kec n) = Some (wire kec n)"
proof -
  let ?p = "sp_serialize (shared_path n) []"
  let ?l = "serialize_into kec (left n)" and ?r = "serialize_into kec (right n)"
  let ?c = "if is_terminal n then [] else encode_varint (children_size n)"
  let ?v = "value_bytes kec n"
  have parts: "ks_ok (shared_path n)" "ks_length (shared_path n) \<le> MAX_SHARED_PATH_BITS"
    "ref_codec_ok kec store (left n)" "ref_codec_ok kec store (right n)"
    using ok by (cases n; simp)+
  have msg: "to_message kec n = flags_of n # ?p @ ?l @ ?r @ ?c @ ?v"
    by (simp add: to_message_parts)
  have "length (to_message kec n) \<le> 300"
    using length_to_message(2) [OF kec ok] message_length_le parts(2) by simp
  then have len: "length ?p + length ?l + length ?r + length ?c + length ?v < 300"
    unfolding msg by simp
  have rb: "rd_byte \<lparr> rd_data = to_message kec n, rd_pos = 0 \<rparr> =
      Some (flags_of n, rd_at [flags_of n] (?p @ ?l @ ?r @ ?c @ ?v))"
    by (simp add: msg rd_byte_def rd_at_def)
  have rp: "read_shared_path (\<not> ks_is_empty (shared_path n)) (rd_at [flags_of n] (?p @ ?l @ ?r @ ?c @ ?v)) =
      Some (ks_norm (shared_path n), rd_at ([flags_of n] @ ?p) (?l @ ?r @ ?c @ ?v))"
    by (rule read_shared_path_at [OF parts(1,2)]) simp
  have rl: "read_child (try_from_message kec store) (\<not> ref_is_empty (left n)) (ref_is_embeddable (left n))
      (rd_at ([flags_of n] @ ?p) (?l @ ?r @ ?c @ ?v)) =
      Some (wire_ref kec (left n), rd_at (([flags_of n] @ ?p) @ ?l) (?r @ ?c @ ?v))"
    by (rule read_child_at [OF kec parts(3) l]) (use len in simp_all)
  have rr: "read_child (try_from_message kec store) (\<not> ref_is_empty (right n)) (ref_is_embeddable (right n))
      (rd_at (([flags_of n] @ ?p) @ ?l) (?r @ ?c @ ?v)) =
      Some (wire_ref kec (right n), rd_at ((([flags_of n] @ ?p) @ ?l) @ ?r) (?c @ ?v))"
    by (rule read_child_at [OF kec parts(4) r]) (use len in simp_all)
  let ?pre = "(([flags_of n] @ ?p) @ ?l) @ ?r"
  have rc: "(if \<not> ref_is_empty (left n) \<or> \<not> ref_is_empty (right n) then rd_varint (rd_at ?pre (?c @ ?v))
      else Some (0, rd_at ?pre (?c @ ?v))) =
      Some (if is_terminal n then 0 else children_size n, rd_at (?pre @ ?c) ?v)"
    using rd_varint_at [of ?pre "children_size n" ?v] len by (auto simp: is_terminal_def)
  have rv: "read_value kec store (has_long_value n) (rd_at (?pre @ ?c) ?v) = Some (wire_value kec n)"
    by (rule read_value_at [OF ok]) (use len in simp)
  show ?thesis
    unfolding try_from_message.simps [of kec store "to_message kec n"] rb option.case prod.case Let_def
      flags_of_bits rp rl rr rc rv
    by (simp add: wire_eq split: prod.splits)
qed

lemma try_from_message_to_message:
  assumes kec: "\<And>d. length (kec d) = 32"
  shows "r = Node n \<Longrightarrow> is_embeddable n \<Longrightarrow> ref_codec_ok kec store r \<Longrightarrow>
      try_from_message kec store (to_message kec n) = Some (wire kec n)"
    and "codec_ok kec store m \<Longrightarrow> try_from_message kec store (to_message kec m) = Some (wire kec m)"
proof (induction r and m arbitrary: n)
  case (TrieNode sp v vh lvl l r cs sv)
  have ok: "ref_codec_ok kec store l" "ref_codec_ok kec store r" using TrieNode.prems by simp_all
  show ?case
    by (rule try_from_message_node [OF kec TrieNode.prems])
      (use TrieNode.IH ok in simp_all)
qed auto

text \<open>
  C13. A node survives its message. For a node with a path of at most 1024 bits, 32-byte hashes and a
  long value that the store holds under the hash the node names, the message has the announced
  length and parsing it gives back the node, its unembedded children as hashes.
\<close>

theorem message_round_trip:
  assumes kec: "\<And>d. length (kec d) = 32" and ok: "codec_ok kec store n"
  shows "try_from_message kec store (to_message kec n) = Some (wire kec n)
    \<and> length (to_message kec n) = message_length n"
  using try_from_message_to_message(2) [OF kec ok] length_to_message(2) [OF kec ok] by simp

theorem message_round_trip_witness:
  "let kec = (\<lambda>d. take 32 (d @ replicate 32 0));
       leaf = TrieNode (ks_new [1, 0, 1] 0 3) (Some [7]) (Some (kec [7])) None Empty Empty 0 False;
       n = TrieNode (ks_new [1, 1] 0 2) None None None (Node leaf) (Hash (replicate 32 9)) 50 True
   in try_from_message kec Map.empty (to_message kec n) =
      Some (TrieNode (ks_new [1, 1] 0 2) None None None (Node leaf) (Hash (replicate 32 9)) 50 False)"
proof -
  define kec :: "bytes \<Rightarrow> bytes" where "kec = (\<lambda>d. take 32 (d @ replicate 32 0))"
  let ?leaf = "TrieNode (ks_new [1, 0, 1] 0 3) (Some [7]) (Some (kec [7])) None Empty Empty 0 False"
  let ?n = "TrieNode (ks_new [1, 1] 0 2) None None None (Node ?leaf) (Hash (replicate 32 9)) 50 True"
  have emb: "is_embeddable ?leaf"
    by (simp add: is_embeddable.simps message_length.simps ref_serialized_length.simps is_terminal_def
        has_long_value_def value_length_def serialized_length_def length_prefix_size_def encoded_len_def
        ks_new_def ks_length_def MAX_EMBEDDED_NODE_SIZE_def)
  have ok: "codec_ok kec Map.empty ?n"
    by (simp add: emb [unfolded ks_new_def] ks_new_def ks_ok_def ks_length_def MAX_SHARED_PATH_BITS_def has_long_value_def
        value_length_def Let_def)
  have w: "wire kec ?n = TrieNode (ks_new [1, 1] 0 2) None None None (Node ?leaf) (Hash (replicate 32 9)) 50 False"
    by (simp add: emb [unfolded ks_new_def] is_terminal_def has_long_value_def value_length_def Let_def ks_norm_def
        ks_new_def ks_length_def ks_expand_def slice_of_def)
  have "\<And>d. length (kec d) = 32" by (simp add: kec_def)
  from message_round_trip [OF this ok] show ?thesis
    unfolding w by (simp add: Let_def kec_def)
qed

subsection \<open>Untrusted messages\<close>

text \<open>What the parser guarantees of a node, whatever the bytes were.\<close>

fun ref_safe :: "node_ref \<Rightarrow> bool" and node_safe :: "trie_node \<Rightarrow> bool" where
  "ref_safe Empty = True"
| "ref_safe (Hash h) = (length h = 32)"
| "ref_safe (Node n) = node_safe n"
| "node_safe (TrieNode sp v vh lvl l r cs sv) =
     (ks_ok sp \<and> ks_length sp \<le> MAX_SHARED_PATH_BITS \<and> ref_safe l \<and> ref_safe r
      \<and> (case lvl of
           Some w \<Rightarrow> unat w < 2 ^ 24 \<and> (case vh of Some h \<Rightarrow> length h = 32 | None \<Rightarrow> False)
             \<and> (case v of Some x \<Rightarrow> length x = unat w | None \<Rightarrow> True)
         | None \<Rightarrow> v \<noteq> Some [])
      \<and> \<not> sv)"

lemma rd_take_length: "rd_take r n = Some (bs, r') \<Longrightarrow> length bs = n"
  by (auto simp: rd_take_def bind_eq_Some_conv usize_checked_add_def split: if_splits)

lemma from_encoded_total:
  "length e = encoded_len n \<Longrightarrow> \<exists>s. from_encoded e n = Some s \<and> ks_ok s \<and> ks_length s = n"
  by (simp add: from_encoded_def path_decode_def ks_ok_def ks_length_def)

lemma from_encoded_safe:
  "rd_take r2 (encoded_len n) = Some (e, r3) \<Longrightarrow> from_encoded e n = Some s \<Longrightarrow> ks_ok s \<and> ks_length s = n"
  using from_encoded_total [of e n] rd_take_length [of r2 "encoded_len n" e r3] by simp

lemma read_shared_path_safe:
  assumes "read_shared_path p r = Some (sp, r')"
  shows "ks_ok sp \<and> ks_length sp \<le> MAX_SHARED_PATH_BITS"
proof (cases p)
  case True
  then show ?thesis
    using assms from_encoded_safe by (auto simp: read_shared_path_def bind_eq_Some_conv split: if_splits)
next
  case False
  then have "sp = ks_empty" using assms by (simp add: read_shared_path_def)
  then show ?thesis by (simp add: ks_empty_def ks_ok_def ks_length_def)
qed

lemma read_child_safe:
  assumes "read_child parse p e r = Some (c, r')"
    and "\<And>body n. length body < length (rd_data r) \<Longrightarrow> parse body = Some n \<Longrightarrow> node_safe n"
  shows "ref_safe c"
  using assms embedded_body_shorter
  by (fastforce simp: read_child_def bind_eq_Some_conv dest: rd_take_length split: if_splits)

lemma long_value_length_less: "unat (long_value_length len) < 2 ^ 24"
proof -
  have "take_bit 24 (long_value_length len) = long_value_length len"
    by (rule bit_eqI) (auto simp: bit_take_bit_iff long_value_length_def bit_or_iff bit_push_bit_iff bit_ucast_iff
        dest: bit_imp_le_length)
  then show ?thesis
    by (metis take_bit_nat_less_exp unsigned_take_bit_eq)
qed

lemma read_value_safe:
  assumes "read_value kec store b r = Some (v, vh, lvl)"
  shows "case lvl of
      Some w \<Rightarrow> unat w < 2 ^ 24 \<and> (case vh of Some h \<Rightarrow> length h = 32 | None \<Rightarrow> False)
        \<and> (case v of Some x \<Rightarrow> length x = unat w | None \<Rightarrow> True)
    | None \<Rightarrow> v \<noteq> Some []"
  using assms long_value_length_less
  by (auto simp: read_value_def bind_eq_Some_conv Let_def dest: rd_take_length
      split: if_splits option.splits)

lemma try_from_message_safe: "try_from_message kec store data = Some n \<Longrightarrow> node_safe n"
proof (induction "length data" arbitrary: data n rule: less_induct)
  case less
  obtain flags r1 sp r2 l r3 r r4 cs r5 v vh lvl le re lp rp hl where parts:
      "rd_byte \<lparr> rd_data = data, rd_pos = 0 \<rparr> = Some (flags, r1)"
      "read_shared_path (flags AND 0b00010000 \<noteq> 0) r1 = Some (sp, r2)"
      "read_child (try_from_message kec store) lp le r2 = Some (l, r3)"
      "read_child (try_from_message kec store) rp re r3 = Some (r, r4)"
      "read_value kec store hl r5 = Some (v, vh, lvl)"
      "n = TrieNode sp v vh lvl l r cs False"
    using less.prems unfolding try_from_message.simps [of kec store data] Let_def
    by (auto split: option.splits prod.splits)
  have data: "rd_data r2 = data" "rd_data r3 = data"
    using parts(1-4) rd_byte_data read_shared_path_data read_child_data by fastforce+
  show ?case
    using parts(6) read_shared_path_safe [OF parts(2)] read_child_safe [OF parts(3)]
      read_child_safe [OF parts(4)] read_value_safe [OF parts(5)] less.hyps data by simp
qed

text \<open>
  C14. The parser is safe on any bytes. Whatever a peer sends, \<open>try_from_message\<close> returns (it is
  total) and, if it accepts, the node and every node embedded in it have a well-formed path of at
  most 1024 bits, 32-byte child hashes, a declared value length below 16 MiB, and a value of exactly
  that length if the store had one.
\<close>

theorem parsed_node_safe:
  assumes "try_from_message kec store data = Some n"
  shows "node_safe n"
  using assms by (rule try_from_message_safe)

theorem parsed_node_safe_witness:
  "\<exists>n. try_from_message id Map.empty [0x50, 0x02, 0xA0, 0x07] = Some n \<and> node_safe n"
proof -
  have "try_from_message id Map.empty [0x50, 0x02, 0xA0, 0x07] =
      Some (TrieNode (ks_new [1, 0, 1] 0 3) (Some [7]) (Some [7]) None Empty Empty 0 False)"
    by code_simp
  with parsed_node_safe show ?thesis by blast
qed

end
