(* ===== verification/Trie_Ops.thy ===== *)
theory Trie_Ops
  imports Trie_Node
begin

text \<open>
  The operations of the trie (\<open>crates/trie/src/node.rs\<close>): resolving a child reference
  through the store, lookups, insertion, deletion with coalescing, and saving.
\<close>

subsection \<open>Resolving references\<close>

datatype resolution = Found trie_node | Absent | Missing b256

definition try_resolve ::
  "(bytes \<Rightarrow> b256) \<Rightarrow> (bytes \<Rightarrow> bytes option) \<Rightarrow> node_ref \<Rightarrow> resolution" where
  "try_resolve kec store r =
     (case r of
        Empty \<Rightarrow> Absent
      | Node n \<Rightarrow> Found n
      | Hash h \<Rightarrow> (case store h of
                    Some data \<Rightarrow> (case try_from_message kec store data of
                                   Some n \<Rightarrow> Found n
                                 | None \<Rightarrow> Missing h)
                  | None \<Rightarrow> Missing h))"

definition resolve ::
  "(bytes \<Rightarrow> b256) \<Rightarrow> (bytes \<Rightarrow> bytes option) \<Rightarrow> node_ref \<Rightarrow> trie_node option" where
  "resolve kec store r =
     (case r of
        Empty \<Rightarrow> None
      | Node n \<Rightarrow> Some n
      | Hash h \<Rightarrow> do { data \<leftarrow> store h; try_from_message kec store data })"

definition into_owned ::
  "(bytes \<Rightarrow> b256) \<Rightarrow> (bytes \<Rightarrow> bytes option) \<Rightarrow> node_ref \<Rightarrow> trie_node option" where
  "into_owned kec store r =
     (case r of
        Empty \<Rightarrow> None
      | Node n \<Rightarrow> Some n
      | Hash h \<Rightarrow> do { data \<leftarrow> store h; try_from_message kec store data })"

definition reference_size ::
  "(bytes \<Rightarrow> b256) \<Rightarrow> (bytes \<Rightarrow> bytes option) \<Rightarrow> node_ref \<Rightarrow> u64" where
  "reference_size kec store r =
     (case r of
        Empty \<Rightarrow> 0
      | Node n \<Rightarrow> children_size n + external_value_length n + of_nat (message_length n)
      | Hash h \<Rightarrow> (case store h of
                    Some data \<Rightarrow>
                      (case try_from_message kec store data of
                         None \<Rightarrow> 0
                       | Some n \<Rightarrow> children_size n + external_value_length n + of_nat (length data))
                  | None \<Rightarrow> 0))"

subsection \<open>Lookups\<close>

function find ::
  "(bytes \<Rightarrow> b256) \<Rightarrow> (bytes \<Rightarrow> bytes option) \<Rightarrow> trie_node \<Rightarrow> key_slice \<Rightarrow> trie_node option" where
  "find kec store n key =
     (if ks_length key < ks_length (shared_path n) then None
      else
        let common = common_path key (shared_path n)
        in if ks_length common < ks_length (shared_path n) then None
           else if ks_length common = ks_length key then Some n
           else
             let b = ks_get key (ks_length common);
                 child_ref = (if b = 0 then left n else right n)
             in case resolve kec store child_ref of
                  None \<Rightarrow> None
                | Some child \<Rightarrow>
                    find kec store child (ks_slice key (ks_length common + 1) (ks_length key)))"
  by pat_completeness auto

text \<open>The common path is never longer than the key, so a step to a child shortens the key.\<close>

lemma ks_length_common_from: "i \<le> n \<Longrightarrow> ks_length (common_from s t i n) \<le> n"
proof (induction "n - i" arbitrary: i)
  case 0
  then show ?case by (simp add: common_from.simps)
next
  case (Suc d)
  then show ?case by (simp add: common_from.simps [of s t i n])
qed

lemma ks_length_common_path_le:
  "ks_length (common_path s t) \<le> ks_length s" "ks_length (common_path s t) \<le> ks_length t"
  using ks_length_common_from [of 0 "min (ks_length s) (ks_length t)" s t]
  by (simp_all add: common_path_def)

lemma sub_key_shorter:
  "ks_length (common_path key sp) \<noteq> ks_length key \<Longrightarrow>
   ks_length key - (ks_length (common_path key sp) + 1) < ks_length key"
  using ks_length_common_path_le(1) [of key sp] by linarith

termination find
  by (relation "measure (\<lambda>(kec, store, n, key). ks_length key)")
    (auto simp: Let_def dest: sub_key_shorter)

declare find.simps [simp del]

definition get :: "(bytes \<Rightarrow> b256) \<Rightarrow> (bytes \<Rightarrow> bytes option) \<Rightarrow> trie_node \<Rightarrow> key_slice \<Rightarrow> bytes option" where
  "get kec store n key = do { m \<leftarrow> find kec store n key; node_value m }"

text \<open>The strict lookups: \<open>Inl\<close> names the node that the store could not produce.\<close>

function try_find ::
  "(bytes \<Rightarrow> b256) \<Rightarrow> (bytes \<Rightarrow> bytes option) \<Rightarrow> trie_node \<Rightarrow> key_slice \<Rightarrow> b256 + trie_node option" where
  "try_find kec store n key =
     (if ks_length key < ks_length (shared_path n) then Inr None
      else
        let common = common_path key (shared_path n)
        in if ks_length common < ks_length (shared_path n) then Inr None
           else if ks_length common = ks_length key then Inr (Some n)
           else
             let b = ks_get key (ks_length common);
                 child_ref = (if b = 0 then left n else right n)
             in case try_resolve kec store child_ref of
                  Absent \<Rightarrow> Inr None
                | Missing h \<Rightarrow> Inl h
                | Found child \<Rightarrow>
                    try_find kec store child (ks_slice key (ks_length common + 1) (ks_length key)))"
  by pat_completeness auto
termination
  by (relation "measure (\<lambda>(kec, store, n, key). ks_length key)")
    (auto simp: Let_def dest: sub_key_shorter)

declare try_find.simps [simp del]

definition try_get ::
  "(bytes \<Rightarrow> b256) \<Rightarrow> (bytes \<Rightarrow> bytes option) \<Rightarrow> trie_node \<Rightarrow> key_slice \<Rightarrow> b256 + bytes option" where
  "try_get kec store n key =
     (case try_find kec store n key of
        Inl h \<Rightarrow> Inl h
      | Inr m \<Rightarrow> Inr (do { m \<leftarrow> m; node_value m }))"

function nodes_on_path ::
  "(bytes \<Rightarrow> b256) \<Rightarrow> (bytes \<Rightarrow> bytes option) \<Rightarrow> trie_node \<Rightarrow> key_slice \<Rightarrow> trie_node list option" where
  "nodes_on_path kec store n key =
     (if ks_length key < ks_length (shared_path n) then None
      else
        let common = common_path key (shared_path n)
        in if ks_length common < ks_length (shared_path n) then None
           else if ks_length common = ks_length key then Some [n]
           else
             let b = ks_get key (ks_length common);
                 child_ref = (if b = 0 then left n else right n)
             in case resolve kec store child_ref of
                  None \<Rightarrow> None
                | Some child \<Rightarrow>
                    (case nodes_on_path kec store child
                            (ks_slice key (ks_length common + 1) (ks_length key)) of
                       None \<Rightarrow> None
                     | Some subnodes \<Rightarrow> Some (subnodes @ [n])))"
  by pat_completeness auto
termination
  by (relation "measure (\<lambda>(kec, store, n, key). ks_length key)")
    (auto simp: Let_def dest: sub_key_shorter)

declare nodes_on_path.simps [simp del]

subsection \<open>Insertion and deletion\<close>

definition is_empty_trie_params :: "bytes option \<Rightarrow> node_ref \<Rightarrow> node_ref \<Rightarrow> bool" where
  "is_empty_trie_params v l r = (v = None \<and> ref_is_empty l \<and> ref_is_empty r)"

definition split ::
  "(bytes \<Rightarrow> b256) \<Rightarrow> (bytes \<Rightarrow> bytes option) \<Rightarrow> trie_node \<Rightarrow> key_slice \<Rightarrow> trie_node" where
  "split kec store n common =
     (let common_len = ks_length common;
          new_child_path = ks_slice (shared_path n) (common_len + 1) (ks_length (shared_path n));
          new_child = TrieNode new_child_path (node_value n) (value_hash n) None
                        (left n) (right n) (children_size n) False;
          child_ref = Node new_child;
          b = ks_get (shared_path n) common_len;
          cs = reference_size kec store child_ref
      in if b = 0 then TrieNode common None None None child_ref Empty cs False
         else TrieNode common None None None Empty child_ref cs False)"

text \<open>The result of \<open>internal_put\<close> once the new child is known.\<close>

definition relink ::
  "(bytes \<Rightarrow> b256) \<Rightarrow> (bytes \<Rightarrow> bytes option) \<Rightarrow> trie_node \<Rightarrow> u8 \<Rightarrow> trie_node option \<Rightarrow> trie_node option" where
  "relink kec store n b new_child_opt =
     (let child_ref = (if b = 0 then left n else right n);
          new_ref = (case new_child_opt of Some c \<Rightarrow> Node c | None \<Rightarrow> Empty);
          new_cs = saturating_sub (children_size n) (reference_size kec store child_ref)
                   + reference_size kec store new_ref;
          new_left = (if b = 0 then new_ref else left n);
          new_right = (if b = 0 then right n else new_ref)
      in if is_empty_trie_params (node_value n) new_left new_right then None
         else Some (TrieNode (shared_path n) (node_value n) (value_hash n) None
                      new_left new_right new_cs False))"

text \<open>The coalescing step of \<open>put_impl\<close> on a result that is not absent.\<close>

definition coalesce ::
  "(bytes \<Rightarrow> b256) \<Rightarrow> (bytes \<Rightarrow> bytes option) \<Rightarrow> bytes option \<Rightarrow> trie_node \<Rightarrow> trie_node option" where
  "coalesce kec store v trie =
     (if v \<noteq> None then Some trie
      else if is_empty_trie trie then None
      else if node_value trie \<noteq> None then Some trie
      else if ref_is_empty (left trie) = ref_is_empty (right trie) then Some trie
      else do {
        (child, implicit_bit) \<leftarrow>
          (if \<not> ref_is_empty (left trie)
           then do { c \<leftarrow> into_owned kec store (left trie); Some (c, 0) }
           else do { c \<leftarrow> into_owned kec store (right trie); Some (c, 1) });
        Some (TrieNode (rebuild_shared_path (shared_path trie) implicit_bit (shared_path child))
                (node_value child) (value_hash child) None (left child) (right child)
                (children_size child) False) })"

text \<open>The node that replaces the target of a put, when the key ends at \<open>n\<close>.\<close>

definition put_here ::
  "(bytes \<Rightarrow> b256) \<Rightarrow> trie_node \<Rightarrow> bytes option \<Rightarrow> bool \<Rightarrow> trie_node option" where
  "put_here kec n v is_recursive_delete =
     (if node_value n = v then Some n
      else if is_recursive_delete then Some (TrieNode (shared_path n) None None None Empty Empty 0 False)
      else if is_empty_trie_params v (left n) (right n) then None
      else Some (TrieNode (shared_path n) v (map_option kec v) None (left n) (right n)
                   (children_size n) False))"

function put_impl ::
  "(bytes \<Rightarrow> b256) \<Rightarrow> (bytes \<Rightarrow> bytes option) \<Rightarrow> trie_node \<Rightarrow> key_slice \<Rightarrow> bytes option \<Rightarrow> bool
   \<Rightarrow> trie_node option"
  and internal_put ::
  "(bytes \<Rightarrow> b256) \<Rightarrow> (bytes \<Rightarrow> bytes option) \<Rightarrow> trie_node \<Rightarrow> key_slice \<Rightarrow> bytes option \<Rightarrow> bool
   \<Rightarrow> trie_node option" where
  "put_impl kec store n key v rd =
     (case internal_put kec store n key v rd of
        None \<Rightarrow> None
      | Some trie \<Rightarrow> coalesce kec store v trie)"
| "internal_put kec store n key v0 rd =
     (let v = (if v0 = Some [] then None else v0);
          common = common_path key (shared_path n)
      in if ks_length common < ks_length (shared_path n) then
           (if v = None then Some n
            else put_impl kec store (split kec store n common) key v rd)
         else if ks_length key \<le> ks_length (shared_path n) then put_here kec n v rd
         else if is_empty_trie n then
           Some (TrieNode key v (map_option kec v) None Empty Empty 0 False)
         else
           let b = ks_get key (ks_length (shared_path n));
               child_ref = (if b = 0 then left n else right n);
               child = (case resolve kec store child_ref of Some c \<Rightarrow> c | None \<Rightarrow> tn_empty);
               sub_key = ks_slice key (ks_length (shared_path n) + 1) (ks_length key)
           in relink kec store n b (put_impl kec store child sub_key v rd))"
  by pat_completeness auto

text \<open>
  A split makes the common path the node's own, so that the second attempt does not diverge:
  the recursion ends because the key shortens, or it stays and the divergence disappears.
\<close>

lemma common_from_prefix:
  "j \<le> i \<Longrightarrow> i \<le> n \<Longrightarrow> common_from s (ks_slice s 0 m) j i = ks_slice s 0 i"
proof (induction "i - j" arbitrary: j)
  case 0
  then show ?case by (simp add: common_from.simps)
next
  case (Suc d)
  have "ks_get s j = ks_get (ks_slice s 0 m) j"
    by (simp add: ks_get_def ks_slice_def)
  with Suc show ?case by (simp add: common_from.simps [of s "ks_slice s 0 m" j i])
qed

lemma common_from_is_slice:
  assumes "i \<le> n"
  shows "\<exists>m \<le> n. common_from s t i n = ks_slice s 0 m"
  using assms
proof (induction "n - i" arbitrary: i)
  case 0
  then show ?case by (auto simp: common_from.simps)
next
  case (Suc d)
  then have "i < n" by simp
  with Suc show ?case
    by (cases "ks_get s i = ks_get t i") (auto simp: common_from.simps [of s t i n] intro: exI [of _ i])
qed

lemma common_path_common:
  "ks_length (common_path key (common_path key sp)) = ks_length (common_path key sp)"
proof -
  obtain m where m: "m \<le> min (ks_length key) (ks_length sp)" "common_path key sp = ks_slice key 0 m"
    using common_from_is_slice [of 0 "min (ks_length key) (ks_length sp)" key sp]
    by (auto simp: common_path_def)
  then have "common_path key (ks_slice key 0 m) = ks_slice key 0 m"
    using common_from_prefix [of 0 m m key m] by (simp add: common_path_def)
  then show ?thesis by (simp add: m)
qed

lemma shared_path_split [simp]: "shared_path (split kec store n common) = common"
  by (simp add: split_def Let_def)

termination put_impl
  by (relation "inv_image (less_than <*lex*> less_than <*lex*> less_than)
      (\<lambda>x. case x of
         Inl (kec, store, n, key, v, rd) \<Rightarrow>
           (ks_length key,
            if ks_length (common_path key (shared_path n)) < ks_length (shared_path n) then 1 else 0 :: nat,
            1 :: nat)
       | Inr (kec, store, n, key, v, rd) \<Rightarrow>
           (ks_length key,
            if ks_length (common_path key (shared_path n)) < ks_length (shared_path n) then 1 else 0,
            0))")
    (auto simp: common_path_common)

declare put_impl.simps [simp del] internal_put.simps [simp del]

definition put ::
  "(bytes \<Rightarrow> b256) \<Rightarrow> (bytes \<Rightarrow> bytes option) \<Rightarrow> trie_node \<Rightarrow> key_slice \<Rightarrow> bytes \<Rightarrow> trie_node" where
  "put kec store n key v =
     (case internal_put kec store n key (Some v) False of Some m \<Rightarrow> m | None \<Rightarrow> tn_empty)"

definition delete ::
  "(bytes \<Rightarrow> b256) \<Rightarrow> (bytes \<Rightarrow> bytes option) \<Rightarrow> trie_node \<Rightarrow> key_slice \<Rightarrow> trie_node" where
  "delete kec store n key =
     (case put_impl kec store n key None False of Some m \<Rightarrow> m | None \<Rightarrow> tn_empty)"

definition delete_recursive ::
  "(bytes \<Rightarrow> b256) \<Rightarrow> (bytes \<Rightarrow> bytes option) \<Rightarrow> trie_node \<Rightarrow> key_slice \<Rightarrow> trie_node" where
  "delete_recursive kec store n key =
     (case put_impl kec store n key None True of Some m \<Rightarrow> m | None \<Rightarrow> tn_empty)"

subsection \<open>Saving\<close>

text \<open>
  \<open>collect_for_save\<close> marks nodes as it goes; the marked node is returned beside the batch.
\<close>

fun set_saved :: "trie_node \<Rightarrow> trie_node" where
  "set_saved (TrieNode sp v vh lvl l r cs sv) = TrieNode sp v vh lvl l r cs True"

fun collect_ref ::
  "(bytes \<Rightarrow> b256) \<Rightarrow> node_ref \<Rightarrow> (bytes \<times> bytes) list \<Rightarrow> node_ref \<times> (bytes \<times> bytes) list"
  and collect_for_save ::
  "(bytes \<Rightarrow> b256) \<Rightarrow> trie_node \<Rightarrow> bool \<Rightarrow> (bytes \<times> bytes) list \<Rightarrow> trie_node \<times> (bytes \<times> bytes) list" where
  "collect_ref kec (Node child) batch =
     (let (child', batch') = collect_for_save kec child False batch in (Node child', batch'))"
| "collect_ref kec r batch = (r, batch)"
| "collect_for_save kec (TrieNode sp v vh lvl l r cs sv) is_root batch =
     (if sv then (TrieNode sp v vh lvl l r cs sv, batch)
      else
        let (l', batch1) = collect_ref kec l batch;
            (r', batch2) = collect_ref kec r batch1;
            n = TrieNode sp v vh lvl l' r' cs sv;
            batch3 = (if has_long_value n
                      then (case v of Some w \<Rightarrow> batch2 @ [(get_value_hash kec n, w)] | None \<Rightarrow> batch2)
                      else batch2)
        in if is_embeddable n \<and> \<not> is_root then (set_saved n, batch3)
           else (let msg = to_message kec n in (set_saved n, batch3 @ [(kec msg, msg)])))"

text \<open>
  \<open>save\<close> returns the marked node and the batch it hands to \<open>put_many\<close>, which is not called
  on an empty batch.
\<close>

definition save ::
  "(bytes \<Rightarrow> b256) \<Rightarrow> ('s \<Rightarrow> bytes \<Rightarrow> bytes \<Rightarrow> 's) \<Rightarrow> 's \<Rightarrow> trie_node \<Rightarrow> bool \<Rightarrow> trie_node \<times> 's" where
  "save kec store_put s n is_root =
     (let (n', batch) = collect_for_save kec n is_root []
      in (n', if batch \<noteq> [] then put_many store_put s batch else s))"

end
