(* ===== verification/Trie_Spec.thy ===== *)
theory Trie_Spec
  imports Path
begin

text \<open>
  What the trie promises, without references, hashes or stores: a path-compressed binary
  trie \<open>ptrie\<close> with its lookup, insertion and deletion. The lookup of an updated trie is the
  updated map, both updates keep the trie canonical, and a canonical trie is determined by
  the map it stands for. The last fact is what makes a state root a commitment to the state
  and not to the order in which it was written.
\<close>

datatype ptrie = PE | PN "bool list" "bytes option" ptrie ptrie

subsection \<open>Operations\<close>

fun aget :: "ptrie \<Rightarrow> bool list \<Rightarrow> bytes option" where
  "aget PE k = None"
| "aget (PN p v l r) k =
     (if take (length p) k = p then
        (case drop (length p) k of
           [] \<Rightarrow> v
         | b # k' \<Rightarrow> if b then aget r k' else aget l k')
      else None)"

fun aleaf :: "bool list \<Rightarrow> bytes \<Rightarrow> ptrie" where
  "aleaf k v = PN k (Some v) PE PE"

text \<open>A node whose path diverges from the key after \<open>c\<close>, with the new value in place.\<close>

definition asplit :: "bool list \<Rightarrow> bool list \<Rightarrow> bytes option \<Rightarrow> ptrie \<Rightarrow> ptrie \<Rightarrow> bool list \<Rightarrow> bytes \<Rightarrow> ptrie" where
  "asplit c p w l r k v =
     (let child = PN (drop (length c + 1) p) w l r;
          fresh = aleaf (drop (length c + 1) k) v
      in if length k \<le> length c then
           (if p ! length c then PN c (Some v) PE child else PN c (Some v) child PE)
         else (if p ! length c then PN c None fresh child else PN c None child fresh))"

function aput :: "ptrie \<Rightarrow> bool list \<Rightarrow> bytes \<Rightarrow> ptrie" where
  "aput PE k v = aleaf k v"
| "aput (PN p w l r) k v =
     (let c = lcp k p
      in if length c < length p then asplit c p w l r k v
         else if length k \<le> length p then PN p (Some v) l r
         else if k ! length p then PN p w l (aput r (drop (length p + 1) k) v)
         else PN p w (aput l (drop (length p + 1) k) v) r)"
  by pat_completeness auto
termination by (relation "measure (\<lambda>(t, k, v). length k)") (auto simp: Let_def)

text \<open>A node without a value and with fewer than two children does not stand.\<close>

fun ajoin :: "bool list \<Rightarrow> bytes option \<Rightarrow> ptrie \<Rightarrow> ptrie \<Rightarrow> ptrie" where
  "ajoin p None PE PE = PE"
| "ajoin p None (PN q w l r) PE = PN (p @ False # q) w l r"
| "ajoin p None PE (PN q w l r) = PN (p @ True # q) w l r"
| "ajoin p v l r = PN p v l r"

text \<open>
  Deletion; with \<open>rd\<close> the subtree below the key goes with the value, if there is a value.
\<close>

function adel :: "bool \<Rightarrow> ptrie \<Rightarrow> bool list \<Rightarrow> ptrie" where
  "adel rd PE k = PE"
| "adel rd (PN p v l r) k =
     (if length (lcp k p) < length p then PN p v l r
      else if length k \<le> length p then
        (if v = None then PN p v l r else if rd then PE else ajoin p None l r)
      else if k ! length p then ajoin p v l (adel rd r (drop (length p + 1) k))
      else ajoin p v (adel rd l (drop (length p + 1) k)) r)"
  by pat_completeness auto
termination by (relation "measure (\<lambda>(rd, t, k). length k)") auto

subsection \<open>Canonical tries\<close>

fun canonical :: "ptrie \<Rightarrow> bool" where
  "canonical PE = True"
| "canonical (PN p v l r) =
     (canonical l \<and> canonical r \<and> v \<noteq> Some [] \<and> (v = None \<longrightarrow> l \<noteq> PE \<and> r \<noteq> PE))"

declare aput.simps [simp del] adel.simps [simp del]

lemma canonical_nonempty: "canonical t \<Longrightarrow> t \<noteq> PE \<Longrightarrow> \<exists>k. aget t k \<noteq> None"
proof (induction t)
  case (PN p v l r)
  show ?case
  proof (cases v)
    case None
    with PN obtain k where "aget l k \<noteq> None" by auto
    then have "aget (PN p v l r) (p @ False # k) \<noteq> None" by simp
    then show ?thesis by blast
  next
    case (Some w)
    then have "aget (PN p v l r) p \<noteq> None" by simp
    then show ?thesis by blast
  qed
qed simp

lemma aget_node_prefix: "aget (PN p v l r) k \<noteq> None \<Longrightarrow> prefix p k"
  by (metis aget.simps(2) take_is_prefix)

lemma prefix_two_ways:
  assumes "prefix q (p @ False # k)" "prefix q (p @ True # k')"
  shows "prefix q p"
proof (cases "length q \<le> length p")
  case True
  then show ?thesis using prefix_length_prefix [OF assms(1), of p] by simp
next
  case False
  then have n: "length p < length q" by simp
  have "(p @ False # k) ! length p = q ! length p" "(p @ True # k') ! length p = q ! length p"
    using assms n by (metis nth_append prefixE)+
  then show ?thesis by simp
qed

lemma canonical_path_greatest:
  assumes "canonical (PN p v l r)" "\<forall>k. aget (PN p v l r) k \<noteq> None \<longrightarrow> prefix q k"
  shows "prefix q p"
proof (cases v)
  case None
  with assms(1) have "canonical l" "canonical r" "l \<noteq> PE" "r \<noteq> PE" by auto
  then obtain k k' where "aget l k \<noteq> None" "aget r k' \<noteq> None"
    using canonical_nonempty by metis
  then have "aget (PN p v l r) (p @ False # k) \<noteq> None" "aget (PN p v l r) (p @ True # k') \<noteq> None"
    by auto
  with assms(2) show ?thesis using prefix_two_ways by blast
next
  case (Some w)
  then have "aget (PN p v l r) p \<noteq> None" by simp
  with assms(2) show ?thesis by blast
qed

lemma canonical_unique:
  "canonical t \<Longrightarrow> canonical u \<Longrightarrow> aget t = aget u \<Longrightarrow> t = u"
proof (induction t arbitrary: u)
  case PE
  then show ?case using canonical_nonempty [of u] by (metis aget.simps(1))
next
  case (PN p v l r)
  show ?case
  proof (cases u)
    case PE
    then show ?thesis using PN.prems canonical_nonempty [of "PN p v l r"] by (metis aget.simps(1) ptrie.distinct(1))
  next
    case (PN q w l' r')
    have "prefix q p"
      using canonical_path_greatest [of p v l r q] aget_node_prefix [of q w l' r'] PN.prems PN
      by (metis PN)
    moreover have "prefix p q"
      using canonical_path_greatest [of q w l' r' p] aget_node_prefix [of p v l r] PN.prems PN
      by (metis PN)
    ultimately have pq: "p = q" by simp
    have at: "aget (PN p v l r) k = aget (PN p w l' r') k" for k
      using fun_cong [OF PN.prems(3), of k] unfolding PN pq .
    have "v = w" using at [of p] by simp
    moreover have "aget l = aget l'" using at [of "p @ False # _"] by (auto simp: fun_eq_iff)
    moreover have "aget r = aget r'" using at [of "p @ True # _"] by (auto simp: fun_eq_iff)
    ultimately show ?thesis using PN.IH PN.prems PN pq by simp
  qed
qed

subsection \<open>A key against a path\<close>

lemma lcp_append_left: "lcp (c @ xs) (c @ ys) = c @ lcp xs ys"
  by (induction c) auto

lemma lcp_self_append [simp]: "lcp (p @ xs) p = p" "lcp p (p @ xs) = p" "lcp p p = p"
  using lcp_append_left [of p xs "[]"] lcp_append_left [of p "[]" xs] lcp_append_left [of p "[]" "[]"]
  by (auto simp: lcp.simps(2,3) elim: lcp.elims)

lemma lcp_diverge [simp]: "lcp (c @ (\<not> b) # xs) (c @ b # ys) = c"
  using lcp_append_left [of c "(\<not> b) # xs" "b # ys"] by simp

lemma path_cases:
  obtains (here) "k = p"
  | (below) b k' where "k = p @ b # k'"
  | (above) b p' where "p = k @ b # p'"
  | (off) c b k' p' where "k = c @ (\<not> b) # k'" "p = c @ b # p'"
proof -
  define c where "c = lcp k p"
  obtain ks where ks: "k = c @ ks" using lcp_take_drop(1) [of k p] unfolding c_def by (metis append_take_drop_id)
  obtain ps where ps: "p = c @ ps" using lcp_take_drop(2) [of k p] unfolding c_def by (metis append_take_drop_id)
  have diff: "ks ! 0 \<noteq> ps ! 0" if "ks \<noteq> []" "ps \<noteq> []"
  proof -
    have "length c < length k" "length c < length p" using that by (simp_all add: ks ps)
    then have "k ! length c \<noteq> p ! length c"
      using lcp_next_differs [of k p] by (simp add: c_def)
    then show ?thesis by (simp add: ks ps nth_append)
  qed
  show thesis
  proof (cases ks)
    case Nil
    then show thesis using ks ps here above by (cases ps) auto
  next
    case (Cons x k')
    show thesis
    proof (cases ps)
      case Nil
      then show thesis using ks ps Cons below by auto
    next
      case (Cons y p')
      then have "x = (\<not> y)" using diff \<open>ks = x # k'\<close> by simp
      then show thesis using off [of c y k' p'] ks ps Cons \<open>ks = x # k'\<close> by simp
    qed
  qed
qed

lemma aget_path [simp]:
  "aget (PN [] v l r) [] = v"
  "aget (PN [] v l r) (b # k) = (if b then aget r k else aget l k)"
  "aget (PN (x # p) v l r) [] = None"
  "aget (PN (x # p) v l r) (y # k) = (if x = y then aget (PN p v l r) k else None)"
  by simp_all

declare aget.simps(2) [simp del]

lemma aget_here [simp]: "aget (PN p v l r) p = v"
  by (induction p) auto

lemma aget_below [simp]: "aget (PN p v l r) (p @ b # k) = (if b then aget r k else aget l k)"
  by (induction p) auto

lemma aget_above [simp]: "aget (PN (k @ b # p) v l r) k = None"
  by (induction k) auto

lemma aget_off [simp]: "aget (PN (c @ b # p) v l r) (c @ (\<not> b) # k) = None"
  by (induction c) auto

text \<open>Cutting a path in two with an empty node in between changes no lookup.\<close>

lemma aget_cut:
  "aget (PN (c @ b # p) v l r) k =
   aget (if b then PN c None PE (PN p v l r) else PN c None (PN p v l r) PE) k"
proof (induction c arbitrary: k)
  case Nil
  then show ?case by (cases k) auto
next
  case (Cons x c)
  then show ?case by (cases k) (auto split: if_splits)
qed

subsection \<open>Insertion\<close>

lemma aput_PE [simp]: "aput PE k v = PN k (Some v) PE PE"
  by (simp add: aput.simps)

lemma aput_here [simp]: "aput (PN p w l r) p v = PN p (Some v) l r"
  by (simp add: aput.simps)

lemma aput_below [simp]:
  "aput (PN p w l r) (p @ b # k) v = (if b then PN p w l (aput r k v) else PN p w (aput l k v) r)"
  by (simp add: aput.simps(2))

lemma aput_above [simp]:
  "aput (PN (k @ b # p) w l r) k v =
   (if b then PN k (Some v) PE (PN p w l r) else PN k (Some v) (PN p w l r) PE)"
  by (simp add: aput.simps asplit_def)

lemma aput_off [simp]:
  "aput (PN (c @ b # p) w l r) (c @ (\<not> b) # k) v =
   (if b then PN c None (PN k (Some v) PE PE) (PN p w l r)
    else PN c None (PN p w l r) (PN k (Some v) PE PE))"
  by (simp add: aput.simps asplit_def)

lemma canonical_aput: "canonical t \<Longrightarrow> v \<noteq> [] \<Longrightarrow> canonical (aput t k v) \<and> aput t k v \<noteq> PE"
proof (induction t arbitrary: k)
  case (PN p w l r)
  then show ?case by (cases rule: path_cases [of k p]) auto
qed auto

lemma aget_leaf: "aget (PN k (Some v) PE PE) = [k \<mapsto> v]"
proof
  fix k2 show "aget (PN k (Some v) PE PE) k2 = [k \<mapsto> v] k2"
    by (cases rule: path_cases [of k2 k]) auto
qed

lemma aget_put_value: "aget (PN p (Some v) l r) = (aget (PN p w l r))(p \<mapsto> v)"
proof
  fix k show "aget (PN p (Some v) l r) k = ((aget (PN p w l r))(p \<mapsto> v)) k"
    by (cases rule: path_cases [of k p]) auto
qed

lemma aget_put_right:
  "aget (PN p w l r) = (aget (PN p w l r0))(p @ True # k := v) \<longleftrightarrow> aget r = (aget r0)(k := v)"
proof
  assume eq: "aget (PN p w l r) = (aget (PN p w l r0))(p @ True # k := v)"
  show "aget r = (aget r0)(k := v)"
  proof
    fix x show "aget r x = ((aget r0)(k := v)) x"
      using fun_cong [OF eq, of "p @ True # x"] by auto
  qed
next
  assume eq: "aget r = (aget r0)(k := v)"
  show "aget (PN p w l r) = (aget (PN p w l r0))(p @ True # k := v)"
  proof
    fix x show "aget (PN p w l r) x = ((aget (PN p w l r0))(p @ True # k := v)) x"
      by (cases rule: path_cases [of x p]) (auto simp: eq)
  qed
qed

lemma aget_put_left:
  "aget (PN p w l r) = (aget (PN p w l0 r))(p @ False # k := v) \<longleftrightarrow> aget l = (aget l0)(k := v)"
proof
  assume eq: "aget (PN p w l r) = (aget (PN p w l0 r))(p @ False # k := v)"
  show "aget l = (aget l0)(k := v)"
  proof
    fix x show "aget l x = ((aget l0)(k := v)) x"
      using fun_cong [OF eq, of "p @ False # x"] by auto
  qed
next
  assume eq: "aget l = (aget l0)(k := v)"
  show "aget (PN p w l r) = (aget (PN p w l0 r))(p @ False # k := v)"
  proof
    fix x show "aget (PN p w l r) x = ((aget (PN p w l0 r))(p @ False # k := v)) x"
      by (cases rule: path_cases [of x p]) (auto simp: eq)
  qed
qed

lemma aget_aput: "aget (aput t k v) = (aget t)(k \<mapsto> v)"
proof (induction t arbitrary: k)
  case PE
  then show ?case by (simp add: aget_leaf fun_eq_iff)
next
  case (PN p w l r)
  show ?case
  proof (cases rule: path_cases [of k p])
    case here
    then show ?thesis using aget_put_value [of p v l r w] by simp
  next
    case (below b k')
    then show ?thesis
      using PN.IH by (cases b) (simp_all only: aput_below if_True if_False aget_put_right aget_put_left)
  next
    case (above b p')
    have cut: "aget (PN p w l r) = aget (if b then PN k None PE (PN p' w l r) else PN k None (PN p' w l r) PE)"
      using above aget_cut [of k b p' w l r] by blast
    show ?thesis unfolding cut using above by (simp add: aget_put_value [where w = None])
  next
    case (off c b k' p')
    have cut: "aget (PN p w l r) = aget (if b then PN c None PE (PN p' w l r) else PN c None (PN p' w l r) PE)"
      using off aget_cut [of c b p' w l r] by blast
    have put: "aput (PN p w l r) k v =
        (if b then PN c None (PN k' (Some v) PE PE) (PN p' w l r)
         else PN c None (PN p' w l r) (PN k' (Some v) PE PE))"
      unfolding off by (rule aput_off)
    have "aget (PN k' (Some v) PE PE) = (aget PE)(k' \<mapsto> v)"
      by (simp add: aget_leaf fun_eq_iff)
    then show ?thesis unfolding cut put unfolding off(1)
      by (cases b) (simp_all only: if_True if_False not_True_eq_False not_False_eq_True
          aget_put_left aget_put_right)
  qed
qed

subsection \<open>Deletion\<close>

text \<open>The map left by a deletion.\<close>

definition del_map :: "bool \<Rightarrow> (bool list \<Rightarrow> bytes option) \<Rightarrow> bool list \<Rightarrow> bool list \<Rightarrow> bytes option" where
  "del_map rd m k = (\<lambda>x. if (if rd \<and> m k \<noteq> None then prefix k x else x = k) then None else m x)"

lemma del_map_absent [simp]: "m k = None \<Longrightarrow> del_map rd m k = m"
  by (auto simp: del_map_def)

lemma adel_PE [simp]: "adel rd PE k = PE"
  by (simp add: adel.simps)

lemma adel_here [simp]:
  "adel rd (PN p v l r) p = (if v = None then PN p v l r else if rd then PE else ajoin p None l r)"
  by (simp add: adel.simps)

lemma adel_below [simp]:
  "adel rd (PN p v l r) (p @ b # k) =
   (if b then ajoin p v l (adel rd r k) else ajoin p v (adel rd l k) r)"
  by (simp add: adel.simps(2))

lemma adel_above [simp]: "adel rd (PN (k @ b # p) v l r) k = PN (k @ b # p) v l r"
  by (simp add: adel.simps)

lemma adel_off [simp]: "adel rd (PN (c @ b # p) v l r) (c @ (\<not> b) # k) = PN (c @ b # p) v l r"
  by (simp add: adel.simps)

lemma aget_bare: "aget (PN p None PE PE) k = None"
  by (cases rule: path_cases [of k p]) auto

lemma aget_ajoin: "aget (ajoin p v l r) k = aget (PN p v l r) k"
  by (cases "(p, v, l, r)" rule: ajoin.cases) (simp_all add: aget_bare aget_cut)

lemma canonical_ajoin:
  "canonical l \<Longrightarrow> canonical r \<Longrightarrow> v \<noteq> Some [] \<Longrightarrow> canonical (ajoin p v l r)"
  by (cases "(p, v, l, r)" rule: ajoin.cases) auto

lemma ajoin_canonical: "canonical (PN p v l r) \<Longrightarrow> ajoin p v l r = PN p v l r"
  by (cases "(p, v, l, r)" rule: ajoin.cases) auto

lemma canonical_adel: "canonical t \<Longrightarrow> canonical (adel rd t k)"
proof (induction t arbitrary: k)
  case (PN p v l r)
  then show ?case by (cases rule: path_cases [of k p]) (auto intro!: canonical_ajoin)
qed simp

lemma aget_adel: "aget (adel rd t k) x = del_map rd (aget t) k x"
proof (induction t arbitrary: k x)
  case PE
  then show ?case by (simp add: del_map_def)
next
  case (PN p v l r)
  show ?case
  proof (cases rule: path_cases [of k p])
    case here
    then show ?thesis
      using aget_node_prefix [of p v l r x]
      by (cases rule: path_cases [of x p]) (auto simp: del_map_def aget_ajoin)
  next
    case (below b k')
    have "aget (adel rd (PN p v l r) k) x =
        (if b then aget (PN p v l (adel rd r k')) x else aget (PN p v (adel rd l k') r) x)"
      by (simp add: below aget_ajoin)
    then show ?thesis
      using PN.IH below by (cases rule: path_cases [of x p]) (auto simp: del_map_def)
  qed auto
qed

end
