(* ===== verification/Trie_Rep.thy ===== *)
theory Trie_Rep
  imports Trie_Codec Trie_Ops Trie_Spec
begin

text \<open>
  How nodes, references and a store represent an abstract trie. \<open>mem\<close> is the trie held in
  memory without any reference by hash; it fixes the message and the hash of every subtree.
  \<open>rep_node\<close> and \<open>rep_ref\<close> allow every mixture of in-memory children and children that
  are only hashes, as long as the store can produce the latter.
\<close>

subsection \<open>The trie in memory\<close>

definition ks_of :: "bool list \<Rightarrow> key_slice" where
  "ks_of p = \<lparr> expanded = bit_bytes p, offset = 0, limit = length p \<rparr>"

lemma ks_ok_of [simp]: "ks_ok (ks_of p)"
  and ks_length_of [simp]: "ks_length (ks_of p) = length p"
  and ks_bits_of [simp]: "ks_bits (ks_of p) = p"
  by (simp_all add: ks_of_def ks_ok_def ks_length_def ks_bits_whole)

definition node_size :: "trie_node \<Rightarrow> u64" where
  "node_size n = children_size n + external_value_length n + of_nat (message_length n)"

definition ref_size :: "node_ref \<Rightarrow> u64" where
  "ref_size r = (case r of Node n \<Rightarrow> node_size n | _ \<Rightarrow> 0)"

fun mem :: "(bytes \<Rightarrow> b256) \<Rightarrow> ptrie \<Rightarrow> node_ref" where
  "mem kec PE = Empty"
| "mem kec (PN p v l r) =
     Node (TrieNode (ks_of p) v (map_option kec v) None (mem kec l) (mem kec r)
             (ref_size (mem kec l) + ref_size (mem kec r)) False)"

definition pn :: "(bytes \<Rightarrow> b256) \<Rightarrow> ptrie \<Rightarrow> trie_node" where
  "pn kec t = (case mem kec t of Node n \<Rightarrow> n | _ \<Rightarrow> tn_empty)"

definition pmsg :: "(bytes \<Rightarrow> b256) \<Rightarrow> ptrie \<Rightarrow> bytes" where
  "pmsg kec t = to_message kec (pn kec t)"

definition phash :: "(bytes \<Rightarrow> b256) \<Rightarrow> ptrie \<Rightarrow> b256" where
  "phash kec t = compute_hash kec (pn kec t)"

definition pemb :: "(bytes \<Rightarrow> b256) \<Rightarrow> ptrie \<Rightarrow> bool" where
  "pemb kec t = ref_is_embeddable (mem kec t)"

text \<open>The size of a trie, as a number.\<close>

fun psize :: "(bytes \<Rightarrow> b256) \<Rightarrow> ptrie \<Rightarrow> nat" where
  "psize kec PE = 0"
| "psize kec (PN p v l r) = psize kec l + psize kec r
     + (case v of Some w \<Rightarrow> if 32 < length w then length w else 0 | None \<Rightarrow> 0)
     + message_length (pn kec (PN p v l r))"

lemma pn_node:
  "pn kec (PN p v l r) = TrieNode (ks_of p) v (map_option kec v) None (mem kec l) (mem kec r)
     (ref_size (mem kec l) + ref_size (mem kec r)) False"
  by (simp add: pn_def)

lemma mem_PN: "mem kec (PN p v l r) = Node (pn kec (PN p v l r))"
  by (simp add: pn_def)

lemma mem_empty_iff [simp]: "ref_is_empty (mem kec t) \<longleftrightarrow> t = PE"
  by (cases t) auto

declare mem.simps(2) [simp del] mem_PN [simp]

lemma mem_node: "t \<noteq> PE \<Longrightarrow> mem kec t = Node (pn kec t)"
  by (cases t) simp_all

lemma external_value_length_Some:
  "node_value n = v \<Longrightarrow> (v = None \<Longrightarrow> long_value_len n = None) \<Longrightarrow>
   external_value_length n =
     of_nat (case v of Some w \<Rightarrow> if 32 < length w then length w else 0 | None \<Rightarrow> 0)"
  by (auto simp: external_value_length_def has_long_value_def value_length_def split: option.splits)

lemma ref_size_mem: "ref_size (mem kec t) = of_nat (psize kec t)"
proof (induction t)
  case PE
  then show ?case by (simp add: ref_size_def)
next
  case (PN p v l r)
  then show ?case
    by (simp add: ref_size_def node_size_def pn_node
        external_value_length_Some [where v = v] split: option.splits)
qed

subsection \<open>Stored tries\<close>

text \<open>The store holds a subtree under its hash unless the parent embeds it.\<close>

definition held :: "(bytes \<Rightarrow> b256) \<Rightarrow> (bytes \<Rightarrow> bytes option) \<Rightarrow> ptrie \<Rightarrow> bool" where
  "held kec S t = (t \<noteq> PE \<and> \<not> pemb kec t \<longrightarrow> S (phash kec t) = Some (pmsg kec t))"

definition value_held :: "(bytes \<Rightarrow> b256) \<Rightarrow> (bytes \<Rightarrow> bytes option) \<Rightarrow> bytes option \<Rightarrow> bool" where
  "value_held kec S v =
     (case v of Some w \<Rightarrow> 32 < length w \<longrightarrow> S (kec w) = Some w | None \<Rightarrow> True)"

fun stored :: "(bytes \<Rightarrow> b256) \<Rightarrow> (bytes \<Rightarrow> bytes option) \<Rightarrow> ptrie \<Rightarrow> bool" where
  "stored kec S PE = True"
| "stored kec S (PN p v l r) =
     (value_held kec S v \<and> stored kec S l \<and> stored kec S r \<and> held kec S l \<and> held kec S r)"

text \<open>The limits of the wire format: short paths, values of less than 16 MiB, none empty.\<close>

fun wire_limits :: "ptrie \<Rightarrow> bool" where
  "wire_limits PE = True"
| "wire_limits (PN p v l r) =
     (length p \<le> MAX_SHARED_PATH_BITS \<and> v \<noteq> Some []
      \<and> (case v of Some w \<Rightarrow> length w < 2 ^ 24 | None \<Rightarrow> True)
      \<and> wire_limits l \<and> wire_limits r)"

lemma held_mono: "held kec S t \<Longrightarrow> S \<subseteq>\<^sub>m S' \<Longrightarrow> held kec S' t"
  by (auto simp: held_def map_le_def dom_def)

lemma value_held_mono: "value_held kec S v \<Longrightarrow> S \<subseteq>\<^sub>m S' \<Longrightarrow> value_held kec S' v"
  by (auto simp: value_held_def map_le_def dom_def split: option.splits)

lemma stored_mono: "stored kec S t \<Longrightarrow> S \<subseteq>\<^sub>m S' \<Longrightarrow> stored kec S' t"
  by (induction t) (auto intro: held_mono value_held_mono)

subsection \<open>Representation\<close>

fun rep_ref :: "(bytes \<Rightarrow> b256) \<Rightarrow> (bytes \<Rightarrow> bytes option) \<Rightarrow> node_ref \<Rightarrow> ptrie \<Rightarrow> bool"
  and rep_node :: "(bytes \<Rightarrow> b256) \<Rightarrow> (bytes \<Rightarrow> bytes option) \<Rightarrow> trie_node \<Rightarrow> ptrie \<Rightarrow> bool" where
  "rep_ref kec S Empty t = (t = PE)"
| "rep_ref kec S (Hash h) t =
     (t \<noteq> PE \<and> \<not> pemb kec t \<and> h = phash kec t \<and> S h = Some (pmsg kec t)
      \<and> stored kec S t \<and> wire_limits t)"
| "rep_ref kec S (Node n) t = rep_node kec S n t"
| "rep_node kec S (TrieNode sp v vh lvl l r cs sv) t =
     (case t of
        PE \<Rightarrow> False
      | PN p w tl1 tr1 \<Rightarrow>
          ks_ok sp \<and> ks_bits sp = p \<and> v = w \<and> vh = map_option kec w \<and> (w = None \<longrightarrow> lvl = None)
          \<and> cs = of_nat (psize kec tl1 + psize kec tr1)
          \<and> rep_ref kec S l tl1 \<and> rep_ref kec S r tr1
          \<and> (sv \<longrightarrow> stored kec S t \<and> held kec S t))"

lemma rep_nodeD:
  assumes "rep_node kec S n (PN p w tl1 tr1)"
  shows "ks_ok (shared_path n)" "ks_bits (shared_path n) = p" "node_value n = w"
    "value_hash n = map_option kec w" "w = None \<Longrightarrow> long_value_len n = None"
    "children_size n = of_nat (psize kec tl1 + psize kec tr1)"
    "rep_ref kec S (left n) tl1" "rep_ref kec S (right n) tr1"
  using assms by (cases n; simp)+

lemma rep_node_not_PE [simp]: "\<not> rep_node kec S n PE"
  by (cases n) simp

lemma rep_nodeE:
  assumes "rep_node kec S n t"
  obtains p w tl1 tr1 where "t = PN p w tl1 tr1"
  using assms by (cases t) auto

lemma rep_ref_empty_iff: "rep_ref kec S r t \<Longrightarrow> ref_is_empty r \<longleftrightarrow> t = PE"
  by (cases r) auto

lemma ks_length_bits: "ks_ok s \<Longrightarrow> ks_bits s = p \<Longrightarrow> ks_length s = length p"
  using length_ks_bits by metis

lemma sp_serialize_bits: "ks_ok s \<Longrightarrow> ks_bits s = p \<Longrightarrow> sp_serialize s out = sp_serialize (ks_of p) out"
  by (simp add: sp_serialize_def ks_length_bits ks_encode_bits)

text \<open>The fields of a node apart from its children.\<close>

definition rep_fields ::
  "(bytes \<Rightarrow> b256) \<Rightarrow> trie_node \<Rightarrow> bool list \<Rightarrow> bytes option \<Rightarrow> ptrie \<Rightarrow> ptrie \<Rightarrow> bool" where
  "rep_fields kec n p w tl1 tr1 \<longleftrightarrow> ks_ok (shared_path n) \<and> ks_bits (shared_path n) = p
     \<and> node_value n = w \<and> value_hash n = map_option kec w \<and> (w = None \<longrightarrow> long_value_len n = None)
     \<and> children_size n = of_nat (psize kec tl1 + psize kec tr1)"

lemma rep_node_fields: "rep_node kec S n (PN p w tl1 tr1) \<Longrightarrow> rep_fields kec n p w tl1 tr1"
  by (auto simp: rep_fields_def dest: rep_nodeD)

lemma rep_fieldsD:
  assumes "rep_fields kec n p w tl1 tr1"
  shows "ks_ok (shared_path n)" "ks_bits (shared_path n) = p" "node_value n = w"
    "value_hash n = map_option kec w" "w = None \<Longrightarrow> long_value_len n = None"
    "children_size n = of_nat (psize kec tl1 + psize kec tr1)"
  using assms by (simp_all add: rep_fields_def)

lemma rep_value_length:
  "rep_fields kec n p w tl1 tr1 \<Longrightarrow> value_length n = (case w of Some v \<Rightarrow> length v | None \<Rightarrow> 0)"
  by (auto simp: value_length_def rep_fields_def split: option.splits)

text \<open>A representation shows the outside what the trie in memory would show.\<close>

definition looks_like :: "(bytes \<Rightarrow> b256) \<Rightarrow> node_ref \<Rightarrow> ptrie \<Rightarrow> bool" where
  "looks_like kec r t \<longleftrightarrow> ref_is_empty r = (t = PE) \<and> ref_is_embeddable r = pemb kec t
     \<and> ref_serialized_length r = ref_serialized_length (mem kec t)
     \<and> serialize_into kec r = serialize_into kec (mem kec t)"

lemma node_looks_like:
  assumes "rep_fields kec n p w tl1 tr1"
    and "looks_like kec (left n) tl1" "looks_like kec (right n) tr1"
  shows "message_length n = message_length (pn kec (PN p w tl1 tr1))"
    and "to_message kec n = pmsg kec (PN p w tl1 tr1)"
    and "is_embeddable n = is_embeddable (pn kec (PN p w tl1 tr1))"
    and "compute_hash kec n = phash kec (PN p w tl1 tr1)"
    and "is_empty_trie n \<longleftrightarrow> w = None \<and> tl1 = PE \<and> tr1 = PE"
proof -
  let ?m = "pn kec (PN p w tl1 tr1)"
  note R = rep_fieldsD [OF assms(1)]
  have vl: "value_length n = value_length ?m"
    using rep_value_length [OF assms(1)] by (simp add: pn_node value_length_def split: option.splits)
  then have long: "has_long_value n = has_long_value ?m" by (simp add: has_long_value_def)
  have tm: "is_terminal n = is_terminal ?m"
    using assms(2,3) by (simp add: is_terminal_def pn_node looks_like_def)
  have len: "ks_length (shared_path n) = ks_length (shared_path ?m)"
    using R(1,2) by (simp add: pn_node ks_length_bits)
  have cs: "children_size n = children_size ?m"
    using R(6) by (simp add: pn_node ref_size_mem)
  show ml: "message_length n = message_length ?m"
    unfolding message_length.simps [of n] message_length.simps [of ?m] vl long tm len cs
    using assms(2,3) by (simp add: pn_node looks_like_def)
  show "is_embeddable n = is_embeddable ?m"
    by (simp add: is_embeddable.simps tm ml)
  have flags: "flags_of n = flags_of ?m"
    using assms(2,3) R(1,2)
    by (simp add: flags_of_def long pn_node looks_like_def pemb_def)
  have vb: "value_bytes kec n = value_bytes kec ?m"
    using R(3,4) vl long by (cases w) (simp_all add: value_bytes_def pn_node get_value_hash_def)
  have sp: "sp_serialize (shared_path n) [flags_of n] = sp_serialize (shared_path ?m) [flags_of ?m]"
    unfolding flags sp_serialize_bits [OF R(1,2)] by (simp add: pn_node)
  show msg: "to_message kec n = pmsg kec (PN p w tl1 tr1)"
    unfolding pmsg_def to_message.simps [of kec n] to_message.simps [of kec ?m] tm cs vb sp
    using assms(2,3) by (simp add: pn_node looks_like_def)
  show e: "is_empty_trie n \<longleftrightarrow> w = None \<and> tl1 = PE \<and> tr1 = PE"
    using R(3,5) assms(2,3) by (auto simp: is_empty_trie_def looks_like_def)
  have "is_empty_trie ?m \<longleftrightarrow> w = None \<and> tl1 = PE \<and> tr1 = PE"
    by (auto simp: is_empty_trie_def pn_node)
  then show "compute_hash kec n = phash kec (PN p w tl1 tr1)"
    using e msg by (simp add: phash_def compute_hash.simps pmsg_def)
qed

lemma fields_looks_like:
  assumes "rep_fields kec n p w tl1 tr1"
    and "looks_like kec (left n) tl1" "looks_like kec (right n) tr1"
  shows "looks_like kec (Node n) (PN p w tl1 tr1)"
  using node_looks_like [OF assms]
  by (simp add: looks_like_def pemb_def ref_serialized_length.simps
      serialize_into.simps ref_get_hash.simps phash_def pmsg_def)

lemma rep_looks_like:
  "rep_ref kec S r t \<Longrightarrow> looks_like kec r t"
  "rep_node kec S n t \<Longrightarrow> looks_like kec (Node n) t"
proof (induction r and n arbitrary: t and t)
  case Empty
  then show ?case by (simp add: looks_like_def pemb_def)
next
  case (Hash h)
  then show ?case
    by (auto simp: looks_like_def pemb_def phash_def mem_node ref_serialized_length.simps
        serialize_into.simps ref_get_hash.simps)
next
  case (Node n)
  then show ?case by simp
next
  case (TrieNode sp v vh lvl l r cs sv)
  let ?n = "TrieNode sp v vh lvl l r cs sv"
  obtain p w tl1 tr1 where t: "t = PN p w tl1 tr1" using TrieNode.prems by (rule rep_nodeE)
  note R = rep_nodeD [OF TrieNode.prems [unfolded t]]
  have lr: "looks_like kec (left ?n) tl1" "looks_like kec (right ?n) tr1"
    using TrieNode.IH R(7,8) by simp_all
  show ?case
    unfolding t by (rule fields_looks_like [OF rep_node_fields [OF TrieNode.prems [unfolded t]] lr])
qed

lemma rep_node_shows:
  assumes "rep_node kec S n t"
  shows "message_length n = message_length (pn kec t)" "to_message kec n = pmsg kec t"
    "is_embeddable n = pemb kec t" "compute_hash kec n = phash kec t"
    "is_empty_trie n \<longleftrightarrow> (\<exists>p. t = PN p None PE PE)"
proof -
  obtain p w tl1 tr1 where t: "t = PN p w tl1 tr1" using assms by (rule rep_nodeE)
  note R = rep_nodeD [OF assms [unfolded t]]
  note L = node_looks_like [OF rep_node_fields [OF assms [unfolded t]] rep_looks_like(1) [OF R(7)] rep_looks_like(1) [OF R(8)]]
  show "message_length n = message_length (pn kec t)" "to_message kec n = pmsg kec t"
    "is_embeddable n = pemb kec t" "compute_hash kec n = phash kec t"
    "is_empty_trie n \<longleftrightarrow> (\<exists>p. t = PN p None PE PE)"
    using L by (simp_all add: t pemb_def mem_node)
qed

subsection \<open>Reading a stored trie back\<close>

lemma pn_value:
  "value_length (pn kec (PN p v l r)) = (case v of Some w \<Rightarrow> length w | None \<Rightarrow> 0)"
  "has_long_value (pn kec (PN p v l r)) \<longleftrightarrow> (\<exists>w. v = Some w \<and> 32 < length w)"
  "v = Some w \<Longrightarrow> get_value_hash kec (pn kec (PN p v l r)) = kec w"
  by (auto simp: pn_node value_length_def has_long_value_def get_value_hash_def split: option.splits)

lemma is_terminal_pn: "is_terminal (pn kec (PN p v l r)) \<longleftrightarrow> l = PE \<and> r = PE"
  by (simp add: is_terminal_def pn_node)

lemmas node_measures = value_length_def has_long_value_def get_value_hash_def is_terminal_def

lemma ks_norm_of [simp]: "ks_norm (ks_of p) = ks_of p"
  by (simp add: ks_norm_def ks_expand_eq) (simp add: ks_of_def)

lemma pn_codec_ok:
  assumes kec: "\<And>d. length (kec d) = 32"
  shows "stored kec S t \<Longrightarrow> wire_limits t \<Longrightarrow> t \<noteq> PE \<Longrightarrow> codec_ok kec S (pn kec t)"
proof (induction t)
  case (PN p v l r)
  have c: "ref_codec_ok kec S (mem kec c)" if "c = l \<or> c = r" for c
    using that PN by (cases c) auto
  show ?case
    using PN.prems c [of l] c [of r]
    by (cases v) (simp_all add: pn_node node_measures Let_def kec value_held_def)
qed simp

lemma rep_wire:
  assumes kec: "\<And>d. length (kec d) = 32"
  shows "stored kec S t \<Longrightarrow> wire_limits t \<Longrightarrow> t \<noteq> PE \<Longrightarrow> rep_node kec S (wire kec (pn kec t)) t"
proof (induction t)
  case (PN p v l r)
  have c: "rep_ref kec S (wire_ref kec (mem kec c)) c" if "c = l \<or> c = r" for c
  proof (cases "c = PE")
    case False
    then show ?thesis using that PN by (auto simp: mem_node pemb_def held_def phash_def)
  qed simp
  have cs: "(if l = PE \<and> r = PE then 0 else ref_size (mem kec l) + ref_size (mem kec r)) =
      of_nat (psize kec l + psize kec r)"
    by (simp add: ref_size_mem)
  show ?case
    using PN.prems c [of l] c [of r] cs
    by (cases v) (simp_all add: pn_node node_measures Let_def ref_size_mem)
qed simp

lemma parse_pmsg:
  assumes kec: "\<And>d. length (kec d) = 32"
    and "stored kec S t" "wire_limits t" "t \<noteq> PE"
  shows "try_from_message kec S (pmsg kec t) = Some (wire kec (pn kec t))"
  unfolding pmsg_def by (rule try_from_message_to_message(2) [OF kec pn_codec_ok [OF kec assms(2-4)]])

lemma resolve_rep:
  assumes kec: "\<And>d. length (kec d) = 32" and "rep_ref kec S r t"
  shows "t = PE \<Longrightarrow> resolve kec S r = None"
    and "t \<noteq> PE \<Longrightarrow> \<exists>n. resolve kec S r = Some n \<and> rep_node kec S n t"
  using assms(2) parse_pmsg [OF kec, where S = S and t = t] rep_wire [OF kec, where S = S and t = t]
  by (cases r; auto simp: resolve_def)+

lemma into_owned_resolve: "into_owned kec S r = resolve kec S r"
  by (simp add: into_owned_def resolve_def)

lemma try_resolve_rep:
  assumes kec: "\<And>d. length (kec d) = 32" and "rep_ref kec S r t"
  shows "try_resolve kec S r = (case resolve kec S r of Some n \<Rightarrow> Found n | None \<Rightarrow> Absent)"
  using assms(2) parse_pmsg [OF kec, where S = S and t = t]
  by (cases r) (auto simp: resolve_def try_resolve_def)

lemma node_size_rep: "rep_node kec S n t \<Longrightarrow> node_size n = of_nat (psize kec t)"
proof -
  assume rep: "rep_node kec S n t"
  then obtain p w a b where t: "t = PN p w a b" by (rule rep_nodeE)
  note R = rep_nodeD [OF rep [unfolded t]]
  show ?thesis
    using R(6) rep_node_shows(1) [OF rep] external_value_length_Some [OF R(3) R(5)]
    by (simp add: t node_size_def algebra_simps)
qed

lemma reference_size_rep:
  assumes kec: "\<And>d. length (kec d) = 32" and "rep_ref kec S r t"
  shows "reference_size kec S r = of_nat (psize kec t)"
proof (cases r)
  case Empty
  then show ?thesis using assms by (simp add: reference_size_def)
next
  case (Node n)
  then show ?thesis using assms node_size_rep by (simp add: reference_size_def node_size_def)
next
  case (Hash h)
  let ?n = "wire kec (pn kec t)"
  have t: "S h = Some (pmsg kec t)" "stored kec S t" "wire_limits t" "t \<noteq> PE"
    using assms(2) Hash by auto
  have "length (pmsg kec t) = message_length (pn kec t)"
    unfolding pmsg_def by (rule length_to_message(2) [OF kec pn_codec_ok [OF kec t(2-4)]])
  also have "\<dots> = message_length ?n"
    using rep_node_shows(1) [OF rep_wire [OF kec t(2-4)]] by simp
  finally have "reference_size kec S r = node_size ?n"
    using t parse_pmsg [OF kec t(2-4)] by (simp add: reference_size_def Hash node_size_def)
  then show ?thesis using node_size_rep [OF rep_wire [OF kec t(2-4)]] by simp
qed

text \<open>A store that only grows keeps every representation.\<close>

lemma rep_mono:
  "rep_ref kec S r t \<Longrightarrow> S \<subseteq>\<^sub>m S' \<Longrightarrow> rep_ref kec S' r t"
  "rep_node kec S n t \<Longrightarrow> S \<subseteq>\<^sub>m S' \<Longrightarrow> rep_node kec S' n t"
proof (induction r and n arbitrary: t and t)
  case (Hash h)
  then show ?case by (auto intro: stored_mono simp: map_le_def dom_def)
next
  case (TrieNode sp v vh lvl l r cs sv)
  then obtain p w a b where t: "t = PN p w a b" by (blast elim: rep_nodeE)
  show ?case
    using TrieNode stored_mono [of kec S t S'] held_mono [of kec S t S']
    by (auto simp: t simp del: stored.simps)
qed auto

lemma rep_pn: "t \<noteq> PE \<Longrightarrow> rep_node kec S (pn kec t) t"
proof (induction t)
  case (PN p v l r)
  have "rep_ref kec S (mem kec c) c" if "c = l \<or> c = r" for c
    using that PN.IH by (cases "c = PE") (auto simp: mem_node)
  then show ?case by (simp add: pn_node ref_size_mem)
qed simp

end
