(* ===== verification/Trie_Refine.thy ===== *)
theory Trie_Refine
  imports Trie_Rep
begin

text \<open>
  The operations of the code refine the operations of the abstract trie: on nodes and
  references that represent a trie, with any part of it in the store, lookups return what
  the abstract lookup returns, and \<open>put\<close>, \<open>delete\<close> and \<open>delete_recursive\<close> produce nodes
  that represent the abstractly updated trie.
\<close>

subsection \<open>A key slice against a node's path\<close>

lemma sub_key_facts:
  assumes "ks_ok key" "ks_bits key = p @ b # k"
  shows "ks_length key = Suc (length p + length k)"
    and "ks_get key (length p) = (if b then 1 else 0)"
    and "ks_ok (ks_slice key (Suc (length p)) (ks_length key))"
    and "ks_bits (ks_slice key (Suc (length p)) (ks_length key)) = k"
proof -
  show len: "ks_length key = Suc (length p + length k)"
    using ks_length_bits [OF assms] by simp
  show "ks_get key (length p) = (if b then 1 else 0)"
    using ks_get_bit [OF assms(1), of "length p"] len assms(2) by simp
  show "ks_ok (ks_slice key (Suc (length p)) (ks_length key))"
    using assms(1) len by auto
  show "ks_bits (ks_slice key (Suc (length p)) (ks_length key)) = k"
    using ks_bits_slice_from [OF assms(1), of "Suc (length p)"] len assms(2) by simp
qed

lemma common_length:
  "ks_ok key \<Longrightarrow> ks_ok sp \<Longrightarrow> ks_length (common_path key sp) = length (lcp (ks_bits key) (ks_bits sp))"
  by (rule ks_length_common_path)

lemma lcp_lengths:
  "length (lcp (p @ b # k) p) = length p"
  "length (lcp k (k @ b # p)) = length k"
  "length (lcp (c @ (\<not> b) # k) (c @ b # p)) = length c"
  by simp_all

subsection \<open>Lookups\<close>

text \<open>One step of the walk of \<open>find\<close>, \<open>try_find\<close> and \<open>nodes_on_path\<close>.\<close>

lemma find_step:
  assumes "rep_node kec S n (PN p w a b)" "ks_ok key" "ks_bits key = k"
  shows "k = p \<Longrightarrow> find kec S n key = Some n"
    and "k = p @ d # k' \<Longrightarrow> find kec S n key =
      (case resolve kec S (if d then right n else left n) of
         None \<Rightarrow> None
       | Some c \<Rightarrow> find kec S c (ks_slice key (Suc (length p)) (ks_length key)))"
    and "\<not> prefix p k \<Longrightarrow> find kec S n key = None"
proof -
  note R = rep_nodeD(1,2) [OF assms(1)]
  have sp: "ks_length (shared_path n) = length p" using ks_length_bits [OF R] .
  have key: "ks_length key = length k" using ks_length_bits [OF assms(2,3)] .
  have com: "ks_length (common_path key (shared_path n)) = length (lcp k p)"
    using common_length [OF assms(2) R(1)] R(2) assms(3) by simp
  show "find kec S n key = Some n" if "k = p"
    using that sp key com by (simp add: find.simps)
  show "find kec S n key = (case resolve kec S (if d then right n else left n) of
         None \<Rightarrow> None
       | Some c \<Rightarrow> find kec S c (ks_slice key (Suc (length p)) (ks_length key)))" if k: "k = p @ d # k'"
    using k sp key com sub_key_facts(2) [OF assms(2), of p d k'] assms(3)
    by (simp add: find.simps [of kec S n key] cong: option.case_cong)
  show "find kec S n key = None" if np: "\<not> prefix p k"
  proof (cases rule: path_cases [of k p])
    case (above d p')
    then show ?thesis using sp key by (simp add: find.simps)
  next
    case (off c d k' p')
    then have "length (lcp k p) < length p" by simp
    then show ?thesis using sp key com by (simp add: find.simps)
  qed (use np in auto)
qed

lemma find_rep:
  assumes kec: "\<And>d. length (kec d) = 32"
  shows "rep_node kec S n t \<Longrightarrow> ks_ok key \<Longrightarrow> ks_bits key = k \<Longrightarrow>
    (case find kec S n key of None \<Rightarrow> None | Some m \<Rightarrow> node_value m) = aget t k"
proof (induction t arbitrary: n key k)
  case (PN p w a b)
  show ?case
  proof (cases rule: path_cases [of k p])
    case here
    then show ?thesis using find_step(1) [OF PN.prems] rep_nodeD(3) [OF PN.prems(1)] by simp
  next
    case (below d k')
    let ?c = "if d then right n else left n" and ?t = "if d then b else a"
    have rc: "rep_ref kec S ?c ?t" using rep_nodeD(7,8) [OF PN.prems(1)] by simp
    have sub: "ks_ok (ks_slice key (Suc (length p)) (ks_length key))"
      "ks_bits (ks_slice key (Suc (length p)) (ks_length key)) = k'"
      using sub_key_facts(3,4) [OF PN.prems(2)] PN.prems(3) below by auto
    show ?thesis
    proof (cases "?t = PE")
      case True
      then have "resolve kec S ?c = None" using resolve_rep(1) [OF kec rc] by simp
      then show ?thesis using True find_step(2) [OF PN.prems below] below by (cases d) simp_all
    next
      case False
      then obtain m where m: "resolve kec S ?c = Some m" "rep_node kec S m ?t"
        using resolve_rep(2) [OF kec rc] by blast
      have "(case find kec S m (ks_slice key (Suc (length p)) (ks_length key)) of
          None \<Rightarrow> None | Some m \<Rightarrow> node_value m) = aget ?t k'"
        using PN.IH m(2) sub by (cases d) simp_all
      then show ?thesis using m(1) find_step(2) [OF PN.prems below] below by simp
    qed
  next
    case (above d p')
    then show ?thesis using find_step(3) [OF PN.prems] by simp
  next
    case (off c d k' p')
    then have "\<not> prefix p k" by simp
    then show ?thesis using find_step(3) [OF PN.prems] off by simp
  qed
qed simp

lemma get_rep:
  assumes kec: "\<And>d. length (kec d) = 32"
    and "rep_node kec S n t" "ks_ok key"
  shows "get kec S n key = aget t (ks_bits key)"
  using find_rep [OF kec assms(2,3) refl] by (simp add: get_def split: option.splits)

lemma try_find_step:
  "try_find kec S n key =
     (if ks_length key < ks_length (shared_path n) \<or>
         ks_length (common_path key (shared_path n)) < ks_length (shared_path n) then Inr None
      else if ks_length (common_path key (shared_path n)) = ks_length key then Inr (Some n)
      else case try_resolve kec S
                  (if ks_get key (ks_length (common_path key (shared_path n))) = 0 then left n else right n) of
             Absent \<Rightarrow> Inr None
           | Missing h \<Rightarrow> Inl h
           | Found c \<Rightarrow> try_find kec S c
               (ks_slice key (ks_length (common_path key (shared_path n)) + 1) (ks_length key)))"
  by (simp add: try_find.simps [of kec S n key] Let_def)

text \<open>
  A strict lookup that returns agrees with the lenient one, whatever the store holds; the
  lenient one only ever answers \<open>None\<close> where the strict one reports a missing node.
\<close>

lemma try_resolve_resolve:
  "try_resolve kec S r = Found c \<Longrightarrow> resolve kec S r = Some c"
  "try_resolve kec S r = Absent \<Longrightarrow> resolve kec S r = None"
  "try_resolve kec S r = Missing h \<Longrightarrow> resolve kec S r = None"
  by (auto simp: try_resolve_def resolve_def split: node_ref.splits option.splits)

lemma try_find_find:
  "try_find kec S n key = Inr m \<Longrightarrow> find kec S n key = m"
  "try_find kec S n key = Inl h \<Longrightarrow> find kec S n key = None"
proof (induction kec S n key rule: try_find.induct)
  case (1 kec S n key)
  {
    case 1
    with "1.IH"(1) show ?case
      by (auto simp: try_find_step [of kec S n key] find.simps [of kec S n key] Let_def
          try_resolve_resolve split: if_splits resolution.splits)
  next
    case 2
    with "1.IH"(2) show ?case
      by (auto simp: try_find_step [of kec S n key] find.simps [of kec S n key] Let_def
          try_resolve_resolve split: if_splits resolution.splits)
  }
qed

lemma try_find_complete:
  assumes kec: "\<And>d. length (kec d) = 32"
  shows "rep_node kec S n t \<Longrightarrow> ks_ok key \<Longrightarrow> try_find kec S n key = Inr (find kec S n key)"
proof (induction t arbitrary: n key)
  case (PN p w a b)
  note R = rep_nodeD [OF PN.prems(1)]
  let ?i = "ks_length (common_path key (shared_path n))"
  let ?sub = "ks_slice key (?i + 1) (ks_length key)"
  have sub: "ks_ok ?sub" if "?i \<noteq> ks_length key"
    using that PN.prems(2) ks_length_common_path_le(1) [of key "shared_path n"] by (intro ks_ok_slice) auto
  have child: "(case try_resolve kec S r of Absent \<Rightarrow> Inr None | Missing h \<Rightarrow> Inl h
        | Found c \<Rightarrow> try_find kec S c ?sub) =
      Inr (case resolve kec S r of None \<Rightarrow> None | Some c \<Rightarrow> find kec S c ?sub)"
    if "?i \<noteq> ks_length key" and r: "(r, u) = (left n, a) \<or> (r, u) = (right n, b)" for r u
  proof (cases "u = PE")
    case True
    then show ?thesis
      using r R(7,8) resolve_rep(1) [OF kec] try_resolve_rep [OF kec] by auto
  next
    case False
    have ru: "rep_ref kec S r u" using r R(7,8) by auto
    then obtain c where c: "resolve kec S r = Some c" "rep_node kec S c u"
      using resolve_rep(2) [OF kec ru False] by blast
    then show ?thesis
      using r PN.IH(1) [OF _ sub [OF that(1)]] PN.IH(2) [OF _ sub [OF that(1)]]
        try_resolve_rep [OF kec ru] by auto
  qed
  show ?case
    unfolding try_find_step [of kec S n key] find.simps [of kec S n key] Let_def
    using child [of "left n" a] child [of "right n" b] by auto
qed simp

lemma nodes_on_path_find:
  "(case nodes_on_path kec S n key of
      None \<Rightarrow> find kec S n key = None
    | Some ns \<Rightarrow> ns \<noteq> [] \<and> last ns = n \<and> find kec S n key = Some (hd ns))"
proof (induction kec S n key rule: nodes_on_path.induct)
  case (1 kec S n key)
  note IH = "1.IH" [OF _ refl _ _ refl refl]
  let ?i = "ks_length (common_path key (shared_path n))"
  let ?r = "if ks_get key ?i = 0 then left n else right n"
  show ?case
  proof (cases "ks_length key < ks_length (shared_path n) \<or> ?i < ks_length (shared_path n) \<or> ?i = ks_length key")
    case True
    then show ?thesis
      by (auto simp: nodes_on_path.simps [of kec S n key] find.simps [of kec S n key])
  next
    case False
    then have g: "\<not> ks_length key < ks_length (shared_path n)" "\<not> ?i < ks_length (shared_path n)"
      "?i \<noteq> ks_length key" by auto
    show ?thesis
    proof (cases "resolve kec S ?r")
      case None
      then show ?thesis
        using g by (simp add: nodes_on_path.simps [of kec S n key] find.simps [of kec S n key] Let_def)
    next
      case (Some c)
      show ?thesis
        using IH [OF g Some]
        unfolding nodes_on_path.simps [of kec S n key] find.simps [of kec S n key] Let_def Some
        using g by (simp split: option.splits)
    qed
  qed
qed

subsection \<open>Parts of an update\<close>

definition opt_rep :: "(bytes \<Rightarrow> b256) \<Rightarrow> (bytes \<Rightarrow> bytes option) \<Rightarrow> trie_node option \<Rightarrow> ptrie \<Rightarrow> bool" where
  "opt_rep kec S o1 t = (case o1 of None \<Rightarrow> t = PE | Some n \<Rightarrow> rep_node kec S n t)"

lemma opt_rep_simps [simp]:
  "opt_rep kec S None t = (t = PE)"
  "opt_rep kec S (Some n) t = rep_node kec S n t"
  by (simp_all add: opt_rep_def)

lemma rep_nodeI:
  assumes "ks_ok sp" "ks_bits sp = p" "rep_ref kec S l a" "rep_ref kec S r b"
    "cs = of_nat (psize kec a + psize kec b)"
  shows "rep_node kec S (TrieNode sp w (map_option kec w) None l r cs False) (PN p w a b)"
  using assms by simp

lemma saturating_sub_of_nat:
  assumes "y = 0 \<or> x + y < 2 ^ 64"
  shows "saturating_sub (of_nat (x + y)) (of_nat y) = (of_nat x :: u64)"
proof (cases "y = 0")
  case True
  then show ?thesis by (simp add: saturating_sub_def)
next
  case False
  with assms have lt: "x + y < 2 ^ 64" by simp
  then have "unat (of_nat (x + y) :: u64) = x + y" "unat (of_nat y :: u64) = y"
    by (simp_all add: unat_of_nat del: of_nat_add)
  then have "\<not> (of_nat (x + y) :: u64) < of_nat y" by (simp add: word_less_nat_alt del: of_nat_add)
  then show ?thesis by (simp add: saturating_sub_def)
qed

lemma relink_rep:
  assumes kec: "\<And>d. length (kec d) = 32"
    and rep: "rep_node kec S n (PN p w a b)"
    and new: "opt_rep kec S new t"
    and fit: "(if d then b else a) = PE \<or> psize kec (PN p w a b) < 2 ^ 64"
  shows "let u = (if d then PN p w a t else PN p w t b)
    in if u = PN p None PE PE then relink kec S n (if d then 1 else 0) new = None
       else \<exists>m. relink kec S n (if d then 1 else 0) new = Some m \<and> rep_node kec S m u"
proof -
  note R = rep_nodeD [OF rep]
  let ?new = "case new of Some c \<Rightarrow> Node c | None \<Rightarrow> Empty"
  have rn: "rep_ref kec S ?new t" using new by (cases new) auto
  have sz: "reference_size kec S ?new = of_nat (psize kec t)"
    "reference_size kec S (left n) = of_nat (psize kec a)"
    "reference_size kec S (right n) = of_nat (psize kec b)"
    using reference_size_rep [OF kec] rn R(7,8) by auto
  have sum: "psize kec a + psize kec b < 2 ^ 64" if "psize kec (PN p w a b) < 2 ^ 64"
    using that by simp
  have cs: "saturating_sub (children_size n) (of_nat (psize kec (if d then b else a)))
      = of_nat (psize kec (if d then a else b))"
  proof (cases d)
    case True
    then show ?thesis using fit sum saturating_sub_of_nat [of "psize kec b" "psize kec a"] R(6) by auto
  next
    case False
    then show ?thesis
      using fit sum saturating_sub_of_nat [of "psize kec a" "psize kec b"] R(6) by (auto simp: add.commute)
  qed
  have emp: "ref_is_empty ?new \<longleftrightarrow> t = PE" "ref_is_empty (left n) \<longleftrightarrow> a = PE" "ref_is_empty (right n) \<longleftrightarrow> b = PE"
    using rn R(7,8) rep_ref_empty_iff by blast+
  show ?thesis
  proof (cases d)
    case True
    have "rep_node kec S (TrieNode (shared_path n) w (map_option kec w) None (left n) ?new
        (saturating_sub (children_size n) (reference_size kec S (right n)) + reference_size kec S ?new) False)
        (PN p w a t)"
      using R rn cs True sz by (intro rep_nodeI) simp_all
    then show ?thesis
      using True R(3,4) emp by (simp add: relink_def is_empty_trie_params_def Let_def)
  next
    case False
    have "rep_node kec S (TrieNode (shared_path n) w (map_option kec w) None ?new (right n)
        (saturating_sub (children_size n) (reference_size kec S (left n)) + reference_size kec S ?new) False)
        (PN p w t b)"
      using R rn cs False sz by (intro rep_nodeI) (simp_all add: add.commute)
    then show ?thesis
      using False R(3,4) emp by (simp add: relink_def is_empty_trie_params_def Let_def)
  qed
qed

lemma split_rep:
  assumes kec: "\<And>d. length (kec d) = 32"
    and rep: "rep_node kec S n (PN (c @ d # p) w a b)"
    and com: "ks_ok common" "ks_bits common = c"
  shows "rep_node kec S (split kec S n common)
    (if d then PN c None PE (PN p w a b) else PN c None (PN p w a b) PE)"
proof -
  note R = rep_nodeD [OF rep]
  note sub = sub_key_facts [OF R(1,2)]
  have len: "ks_length common = length c" using ks_length_bits [OF com] .
  let ?child = "TrieNode (ks_slice (shared_path n) (Suc (length c)) (ks_length (shared_path n)))
    (node_value n) (value_hash n) None (left n) (right n) (children_size n) False"
  have child: "rep_node kec S ?child (PN p w a b)"
    using R sub(3,4) by simp
  then have "reference_size kec S (Node ?child) = of_nat (psize kec (PN p w a b))"
    by (intro reference_size_rep [OF kec]) simp
  then show ?thesis
    using child com sub(2) by (cases d) (simp_all add: split_def Let_def len del: psize.simps(2))
qed

lemma coalesce_rep:
  assumes kec: "\<And>d. length (kec d) = 32"
    and rep: "rep_node kec S m (PN p w a b)"
  shows "opt_rep kec S (coalesce kec S None m) (ajoin p w a b)"
proof -
  note R = rep_nodeD [OF rep]
  have emp: "ref_is_empty (left m) \<longleftrightarrow> a = PE" "ref_is_empty (right m) \<longleftrightarrow> b = PE"
    using R(7,8) rep_ref_empty_iff by blast+
  have et: "is_empty_trie m \<longleftrightarrow> w = None \<and> a = PE \<and> b = PE"
    using rep_node_shows(5) [OF rep] by auto
  have merge: "rep_node kec S (TrieNode (rebuild_shared_path (shared_path m) (if d then 1 else 0) (shared_path c))
      (node_value c) (value_hash c) None (left c) (right c) (children_size c) False) (PN (p @ d # q) x f g)"
    if "rep_node kec S c (PN q x f g)" for c d q x f g
  proof -
    note C = rep_nodeD [OF that]
    show ?thesis using R(1,2) C by (cases d) (auto simp: ks_bits_rebuild)
  qed
  consider "w \<noteq> None" | "w = None" "a = PE" "b = PE" | "w = None" "a \<noteq> PE" "b \<noteq> PE"
    | "w = None" "a \<noteq> PE" "b = PE" | "w = None" "a = PE" "b \<noteq> PE" by blast
  then show ?thesis
  proof cases
    case 1
    then show ?thesis using rep R(3) et by (auto simp: coalesce_def)
  next
    case 2
    then show ?thesis using et by (simp add: coalesce_def)
  next
    case 3
    then have "ajoin p w a b = PN p w a b" by (cases a; cases b) auto
    then show ?thesis using 3 rep R(3) et emp by (simp add: coalesce_def)
  next
    case 4
    then obtain c where c: "resolve kec S (left m) = Some c" "rep_node kec S c a"
      using resolve_rep(2) [OF kec R(7)] by blast
    obtain q x f g where a: "a = PN q x f g" using c(2) by (rule rep_nodeE)
    show ?thesis
      using 4 c(1) merge [of c q x f g False] c(2) R(3) et emp
      by (simp add: coalesce_def into_owned_resolve a)
  next
    case 5
    then obtain c where c: "resolve kec S (right m) = Some c" "rep_node kec S c b"
      using resolve_rep(2) [OF kec R(8)] by blast
    obtain q x f g where b: "b = PN q x f g" using c(2) by (rule rep_nodeE)
    show ?thesis
      using 5 c(1) merge [of c q x f g True] c(2) R(3) et emp
      by (simp add: coalesce_def into_owned_resolve b)
  qed
qed

subsection \<open>The steps of an update\<close>

lemma update_step:
  assumes rep: "rep_node kec S n (PN p w a b)" and key: "ks_ok key" "ks_bits key = k"
    and v: "v \<noteq> Some []"
  shows "k = p \<Longrightarrow> internal_put kec S n key v rd = put_here kec n v rd"
    and "k = p @ d # k' \<Longrightarrow> PN p w a b \<noteq> PN p None PE PE \<Longrightarrow> internal_put kec S n key v rd =
      relink kec S n (if d then 1 else 0)
        (put_impl kec S
          (case resolve kec S (if d then right n else left n) of Some c \<Rightarrow> c | None \<Rightarrow> tn_empty)
          (ks_slice key (Suc (length p)) (ks_length key)) v rd)"
    and "\<not> prefix p k \<Longrightarrow> internal_put kec S n key v rd =
      (if v = None then Some n
       else put_impl kec S (split kec S n (common_path key (shared_path n))) key v rd)"
proof -
  note R = rep_nodeD(1,2) [OF rep]
  have sp: "ks_length (shared_path n) = length p" using ks_length_bits [OF R] .
  have kl: "ks_length key = length k" using ks_length_bits [OF key] .
  have com: "ks_length (common_path key (shared_path n)) = length (lcp k p)"
    using common_length [OF key(1) R(1)] R(2) key(2) by simp
  have et: "is_empty_trie n \<longleftrightarrow> w = None \<and> a = PE \<and> b = PE"
    using rep_node_shows(5) [OF rep] by auto
  show "internal_put kec S n key v rd = put_here kec n v rd" if "k = p"
    using that sp kl com v by (simp add: internal_put.simps)
  show "internal_put kec S n key v rd = relink kec S n (if d then 1 else 0)
        (put_impl kec S
          (case resolve kec S (if d then right n else left n) of Some c \<Rightarrow> c | None \<Rightarrow> tn_empty)
          (ks_slice key (Suc (length p)) (ks_length key)) v rd)"
    if k: "k = p @ d # k'" and ne: "PN p w a b \<noteq> PN p None PE PE"
  proof -
    have "\<not> is_empty_trie n" using ne et by auto
    then show ?thesis
      using k sp kl com v sub_key_facts(2) [OF key(1), of p d k'] key(2)
      by (simp add: internal_put.simps [of kec S n key v rd] Let_def cong: option.case_cong)
  qed
  show "internal_put kec S n key v rd =
      (if v = None then Some n
       else put_impl kec S (split kec S n (common_path key (shared_path n))) key v rd)"
    if np: "\<not> prefix p k"
  proof -
    have "length (lcp k p) < length p"
      using np by (cases rule: path_cases [of k p]) auto
    then show ?thesis using sp com v by (simp add: internal_put.simps [of kec S n key v rd] Let_def)
  qed
qed

lemma put_impl_Some: "put_impl kec S n key (Some v) rd = internal_put kec S n key (Some v) rd"
  by (simp add: put_impl.simps coalesce_def split: option.splits)

lemma tn_empty_facts:
  "ks_length (shared_path tn_empty) = 0" "node_value tn_empty = None" "is_empty_trie tn_empty"
  "ref_is_empty (left tn_empty)" "ref_is_empty (right tn_empty)" "shared_path tn_empty = ks_empty"
  "left tn_empty = Empty" "right tn_empty = Empty" "children_size tn_empty = 0" "ks_length ks_empty = 0"
  "long_value_len tn_empty = None"
  by (simp_all add: tn_empty_def is_empty_trie_def ks_empty_def ks_length_def)

lemma put_empty:
  assumes "ks_ok key" "v \<noteq> []"
  shows "\<exists>m. internal_put kec S tn_empty key (Some v) rd = Some m
    \<and> (rd = False \<longrightarrow> rep_node kec S m (aput PE (ks_bits key) v))"
proof (cases "ks_length key = 0")
  case True
  then have "ks_bits key = []" using length_ks_bits [OF assms(1)] by simp
  then show ?thesis
    using assms True
    by (cases rd) (simp_all add: internal_put.simps tn_empty_facts put_here_def is_empty_trie_params_def Let_def)
next
  case False
  then show ?thesis
    using assms by (simp add: internal_put.simps tn_empty_facts Let_def)
qed

lemma delete_empty: "put_impl kec S tn_empty key None rd = None"
  by (cases "ks_length key = 0")
    (simp_all add: put_impl.simps [of kec S tn_empty key None rd]
      internal_put.simps [of kec S tn_empty key None rd] tn_empty_facts put_here_def Let_def
      coalesce_def is_empty_trie_def)

subsection \<open>Insertion\<close>

lemma internal_put_rep:
  assumes kec: "\<And>d. length (kec d) = 32" and v: "v \<noteq> []"
  shows "rep_node kec S n t \<Longrightarrow> canonical t \<Longrightarrow> psize kec t < 2 ^ 64 \<Longrightarrow> ks_ok key \<Longrightarrow> ks_bits key = k \<Longrightarrow>
    \<exists>m. internal_put kec S n key (Some v) False = Some m \<and> rep_node kec S m (aput t k v)"
proof (induction t arbitrary: n key k)
  case (PN p w a b)
  note R = rep_nodeD [OF PN.prems(1)]
  have sv: "Some v \<noteq> Some []" using v by simp
  note step = update_step [OF PN.prems(1,4,5) sv, where rd = False]
  show ?case
  proof (cases rule: path_cases [of k p])
    case here
    then show ?thesis
      using step(1) PN.prems(1) R rep_nodeI [OF R(1,2,7,8,6), of "Some v"]
      by (auto simp: put_here_def is_empty_trie_params_def)
  next
    case (below d k')
    let ?u = "if d then b else a"
    let ?c = "case resolve kec S (if d then right n else left n) of Some c \<Rightarrow> c | None \<Rightarrow> tn_empty"
    let ?sub = "ks_slice key (Suc (length p)) (ks_length key)"
    have sub: "ks_ok ?sub" "ks_bits ?sub = k'"
      using sub_key_facts(3,4) [OF PN.prems(4)] PN.prems(5) below by auto
    have ru: "rep_ref kec S (if d then right n else left n) ?u" using R(7,8) by simp
    have "\<exists>m. internal_put kec S ?c ?sub (Some v) False = Some m \<and> rep_node kec S m (aput ?u k' v)"
    proof (cases "?u = PE")
      case True
      then show ?thesis
        using resolve_rep(1) [OF kec ru] put_empty [OF sub(1) v, of kec S False] sub(2) by simp
    next
      case False
      then obtain c where c: "resolve kec S (if d then right n else left n) = Some c" "rep_node kec S c ?u"
        using resolve_rep(2) [OF kec ru] by blast
      have "canonical ?u" "psize kec ?u < 2 ^ 64" using PN.prems(2,3) by (cases d; simp)+
      then show ?thesis using c PN.IH sub by (cases d) simp_all
    qed
    then obtain m where m: "internal_put kec S ?c ?sub (Some v) False = Some m" "rep_node kec S m (aput ?u k' v)"
      by blast
    have ne: "PN p w a b \<noteq> PN p None PE PE" using PN.prems(2) by auto
    have "aput ?u k' v \<noteq> PE" using canonical_aput [of ?u v k'] PN.prems(2) v by (cases d) auto
    then show ?thesis
      using relink_rep [OF kec PN.prems(1), of "Some m" "aput ?u k' v" d] PN.prems(3) m
        step(2) [OF below ne] below
      by (cases d) (simp_all add: put_impl_Some Let_def)
  next
    case (above d p')
    let ?s = "split kec S n (common_path key (shared_path n))"
    have com: "ks_ok (common_path key (shared_path n))" "ks_bits (common_path key (shared_path n)) = k"
      using PN.prems(4,5) R(1,2) above by (auto simp: ks_bits_common_path)
    have rs: "rep_node kec S ?s (if d then PN k None PE (PN p' w a b) else PN k None (PN p' w a b) PE)"
      using split_rep [OF kec _ com] PN.prems(1) above by simp
    have "\<not> prefix p k" using above by simp
    then have eq: "internal_put kec S n key (Some v) False = internal_put kec S ?s key (Some v) False"
      using step(3) by (simp add: put_impl_Some)
    show ?thesis
    proof (cases d)
      case True
      have rs': "rep_node kec S ?s (PN k None PE (PN p' w a b))" using rs True by simp
      note Q = rep_nodeD [OF rs']
      show ?thesis
        unfolding eq using update_step(1) [OF rs' PN.prems(4,5) sv, where rd = False] Q
          rep_nodeI [OF Q(1,2,7,8,6), of "Some v"] True above
        by (simp add: put_here_def is_empty_trie_params_def)
    next
      case False
      have rs': "rep_node kec S ?s (PN k None (PN p' w a b) PE)" using rs False by simp
      note Q = rep_nodeD [OF rs']
      show ?thesis
        unfolding eq using update_step(1) [OF rs' PN.prems(4,5) sv, where rd = False] Q
          rep_nodeI [OF Q(1,2,7,8,6), of "Some v"] False above
        by (simp add: put_here_def is_empty_trie_params_def)
    qed
  next
    case (off c d k' p')
    let ?s = "split kec S n (common_path key (shared_path n))"
    let ?f = "PN p' w a b"
    have com: "ks_ok (common_path key (shared_path n))" "ks_bits (common_path key (shared_path n)) = c"
      using PN.prems(4,5) R(1,2) off by (auto simp: ks_bits_common_path)
    have rs: "rep_node kec S ?s (if d then PN c None PE ?f else PN c None ?f PE)"
      using split_rep [OF kec _ com] PN.prems(1) off by simp
    have "\<not> prefix p k" using off by simp
    then have eq: "internal_put kec S n key (Some v) False = internal_put kec S ?s key (Some v) False"
      using step(3) by (simp add: put_impl_Some)
    let ?sub = "ks_slice key (Suc (length c)) (ks_length key)"
    have sub: "ks_ok ?sub" "ks_bits ?sub = k'"
      using sub_key_facts(3,4) [OF PN.prems(4)] PN.prems(5) off by auto
    obtain m where m: "internal_put kec S tn_empty ?sub (Some v) False = Some m"
        "rep_node kec S m (PN k' (Some v) PE PE)"
      using put_empty [OF sub(1) v, of kec S False] sub(2) by auto
    have ap: "aput (PN p w a b) k v =
        (if d then PN c None (PN k' (Some v) PE PE) ?f else PN c None ?f (PN k' (Some v) PE PE))"
      unfolding off by (rule aput_off)
    show ?thesis
    proof (cases d)
      case True
      have rs': "rep_node kec S ?s (PN c None PE ?f)" using rs True by simp
      have "resolve kec S (left ?s) = None" using resolve_rep(1) [OF kec rep_nodeD(7) [OF rs']] by simp
      then show ?thesis
        unfolding eq
        using update_step(2) [OF rs' PN.prems(4,5) sv, where d = False and k' = k' and rd = False] off True m
          relink_rep [OF kec rs', of "Some m" "PN k' (Some v) PE PE" False] ap
        by (simp add: put_impl_Some Let_def)
    next
      case False
      have rs': "rep_node kec S ?s (PN c None ?f PE)" using rs False by simp
      have "resolve kec S (right ?s) = None" using resolve_rep(1) [OF kec rep_nodeD(8) [OF rs']] by simp
      then show ?thesis
        unfolding eq
        using update_step(2) [OF rs' PN.prems(4,5) sv, where d = True and k' = k' and rd = False] off False m
          relink_rep [OF kec rs', of "Some m" "PN k' (Some v) PE PE" True] ap
        by (simp add: put_impl_Some Let_def)
    qed
  qed
qed simp

subsection \<open>Deletion\<close>

lemma put_impl_None:
  "put_impl kec S n key None rd =
     (case internal_put kec S n key None rd of None \<Rightarrow> None | Some m \<Rightarrow> coalesce kec S None m)"
  by (simp add: put_impl.simps [of kec S n key None rd])

lemma delete_here_rep:
  assumes kec: "\<And>d. length (kec d) = 32"
    and rep: "rep_node kec S n (PN p w a b)" and can: "canonical (PN p w a b)"
    and here: "internal_put kec S n key None rd = put_here kec n None rd"
  shows "opt_rep kec S (put_impl kec S n key None rd) (adel rd (PN p w a b) p)"
proof (cases "w = None")
  case True
  then have "put_here kec n None rd = Some n" using rep_nodeD(3) [OF rep] by (simp add: put_here_def)
  then show ?thesis
    using coalesce_rep [OF kec rep] ajoin_canonical [OF can] here True by (simp add: put_impl_None)
next
  case False
  note R = rep_nodeD [OF rep]
  have emp: "ref_is_empty (left n) \<longleftrightarrow> a = PE" "ref_is_empty (right n) \<longleftrightarrow> b = PE"
    using R(7,8) rep_ref_empty_iff by blast+
  have bare: "rep_node kec S (TrieNode (shared_path n) None None None Empty Empty 0 False) (PN p None PE PE)"
    using R by simp
  have kept: "rep_node kec S (TrieNode (shared_path n) None None None (left n) (right n) (children_size n) False)
      (PN p None a b)"
    using rep_nodeI [OF R(1,2,7,8,6), of None] by simp
  show ?thesis
    using False R(3) here coalesce_rep [OF kec bare] coalesce_rep [OF kec kept] emp
    by (auto simp: put_impl_None put_here_def is_empty_trie_params_def)
qed

lemma delete_rep:
  assumes kec: "\<And>d. length (kec d) = 32"
  shows "rep_node kec S n t \<Longrightarrow> canonical t \<Longrightarrow> psize kec t < 2 ^ 64 \<Longrightarrow> ks_ok key \<Longrightarrow> ks_bits key = k \<Longrightarrow>
    opt_rep kec S (put_impl kec S n key None rd) (adel rd t k)"
proof (induction t arbitrary: n key k)
  case (PN p w a b)
  note R = rep_nodeD [OF PN.prems(1)]
  have sv: "None \<noteq> Some ([] :: bytes)" by simp
  note step = update_step [OF PN.prems(1,4,5) sv, where rd = rd]
  have miss: "opt_rep kec S (put_impl kec S n key None rd) (PN p w a b)" if "\<not> prefix p k"
    using step(3) [OF that] coalesce_rep [OF kec PN.prems(1)] ajoin_canonical [OF PN.prems(2)]
    by (simp add: put_impl_None)
  show ?case
  proof (cases rule: path_cases [of k p])
    case here
    then show ?thesis using delete_here_rep [OF kec PN.prems(1,2) step(1) [OF here]] by simp
  next
    case (below d k')
    let ?u = "if d then b else a"
    let ?c = "case resolve kec S (if d then right n else left n) of Some c \<Rightarrow> c | None \<Rightarrow> tn_empty"
    let ?sub = "ks_slice key (Suc (length p)) (ks_length key)"
    let ?t = "if d then PN p w a (adel rd ?u k') else PN p w (adel rd ?u k') b"
    have sub: "ks_ok ?sub" "ks_bits ?sub = k'"
      using sub_key_facts(3,4) [OF PN.prems(4)] PN.prems(5) below by auto
    have ru: "rep_ref kec S (if d then right n else left n) ?u" using R(7,8) by simp
    have new: "opt_rep kec S (put_impl kec S ?c ?sub None rd) (adel rd ?u k')"
    proof (cases "?u = PE")
      case True
      then show ?thesis using resolve_rep(1) [OF kec ru] delete_empty by simp
    next
      case False
      then obtain c where c: "resolve kec S (if d then right n else left n) = Some c" "rep_node kec S c ?u"
        using resolve_rep(2) [OF kec ru] by blast
      have "canonical ?u" "psize kec ?u < 2 ^ 64" using PN.prems(2,3) by (cases d; simp)+
      then show ?thesis using c PN.IH sub by (cases d) simp_all
    qed
    have ne: "PN p w a b \<noteq> PN p None PE PE" using PN.prems(2) by auto
    have lk: "let u = ?t in if u = PN p None PE PE
        then internal_put kec S n key None rd = None
        else \<exists>m. internal_put kec S n key None rd = Some m \<and> rep_node kec S m u"
      unfolding step(2) [OF below ne]
      using relink_rep [OF kec PN.prems(1) new, of d] PN.prems(3) by (cases d) simp_all
    have ad: "adel rd (PN p w a b) k = (if d then ajoin p w a (adel rd ?u k') else ajoin p w (adel rd ?u k') b)"
      using below by simp
    show ?thesis
    proof (cases "?t = PN p None PE PE")
      case True
      then have "internal_put kec S n key None rd = None" using lk by (simp only: Let_def if_True)
      then show ?thesis using True unfolding ad by (cases d) (auto simp: put_impl_None)
    next
      case False
      then obtain m where m: "internal_put kec S n key None rd = Some m" "rep_node kec S m ?t"
        using lk by (auto simp: Let_def)
      then show ?thesis
        unfolding ad using coalesce_rep [OF kec] by (cases d) (auto simp: put_impl_None)
    qed
  next
    case (above d p')
    then show ?thesis using miss by simp
  next
    case (off c d k' p')
    have "\<not> prefix p k" using off by simp
    moreover have "adel rd (PN p w a b) k = PN p w a b" unfolding off by (rule adel_off)
    ultimately show ?thesis using miss by simp
  qed
qed simp

end
