(* ===== verification/Trie_Root.thy ===== *)
theory Trie_Root
  imports Trie_Refine
begin

text \<open>
  The trie as its users see it: a root node, updated by a sequence of puts and deletes. After
  any sequence the root represents the canonical trie of the map that the sequence computes,
  so that lookups return that map and the root hash depends on nothing else.
\<close>

subsection \<open>Roots\<close>

definition root_rep :: "(bytes \<Rightarrow> b256) \<Rightarrow> (bytes \<Rightarrow> bytes option) \<Rightarrow> trie_node \<Rightarrow> ptrie \<Rightarrow> bool" where
  "root_rep kec S n t = (if t = PE then n = tn_empty else rep_node kec S n t \<and> canonical t)"

lemma root_rep_canonical: "root_rep kec S n t \<Longrightarrow> canonical t"
  by (auto simp: root_rep_def split: if_splits)

lemma root_rep_empty [simp]: "root_rep kec S tn_empty PE"
  by (simp add: root_rep_def)

lemma put_root:
  assumes kec: "\<And>d. length (kec d) = 32" and v: "v \<noteq> []"
    and root: "root_rep kec S n t" and fit: "psize kec t < 2 ^ 64" and key: "ks_ok key"
  shows "root_rep kec S (put kec S n key v) (aput t (ks_bits key) v)"
proof -
  have can: "canonical (aput t (ks_bits key) v)" "aput t (ks_bits key) v \<noteq> PE"
    using canonical_aput root_rep_canonical [OF root] v by blast+
  have "\<exists>m. internal_put kec S n key (Some v) False = Some m
      \<and> rep_node kec S m (aput t (ks_bits key) v)"
  proof (cases "t = PE")
    case True
    then show ?thesis using root put_empty [OF key v, of kec S False] by (simp add: root_rep_def)
  next
    case False
    then show ?thesis
      using root internal_put_rep [OF kec v _ _ fit key refl] by (auto simp: root_rep_def)
  qed
  then show ?thesis using can by (auto simp: put_def root_rep_def)
qed

lemma put_impl_None_root:
  assumes kec: "\<And>d. length (kec d) = 32"
    and root: "root_rep kec S n t" and fit: "psize kec t < 2 ^ 64" and key: "ks_ok key"
  shows "root_rep kec S (case put_impl kec S n key None rd of Some m \<Rightarrow> m | None \<Rightarrow> tn_empty)
    (adel rd t (ks_bits key))"
proof (cases "t = PE")
  case True
  then show ?thesis using root delete_empty by (simp add: root_rep_def)
next
  case False
  then have "opt_rep kec S (put_impl kec S n key None rd) (adel rd t (ks_bits key))"
    using root delete_rep [OF kec _ _ fit key refl] by (simp add: root_rep_def)
  then show ?thesis
    using canonical_adel [of t rd "ks_bits key"] root_rep_canonical [OF root]
    by (cases "put_impl kec S n key None rd") (auto simp: root_rep_def)
qed

lemma get_root:
  assumes kec: "\<And>d. length (kec d) = 32" and root: "root_rep kec S n t" and key: "ks_ok key"
  shows "get kec S n key = aget t (ks_bits key)"
proof (cases "t = PE")
  case True
  then have "n = tn_empty" using root by (simp add: root_rep_def)
  then show ?thesis
    using True by (simp add: get_def find.simps [of kec S tn_empty key] tn_empty_facts Let_def resolve_def)
next
  case False
  then show ?thesis using root get_rep [OF kec _ key] by (simp add: root_rep_def)
qed

lemma compute_hash_root:
  assumes "root_rep kec S n t"
  shows "compute_hash kec n = (if t = PE then empty_trie_hash kec else phash kec t)"
  using assms rep_node_shows(4) [of kec S n t]
  by (auto simp: root_rep_def compute_hash.simps tn_empty_facts)

lemma root_rep_same:
  assumes "root_rep kec S n t" "root_rep kec S' n' t"
  shows "compute_hash kec n = compute_hash kec n' \<and> to_message kec n = to_message kec n'"
  using compute_hash_root [OF assms(1)] compute_hash_root [OF assms(2)] assms
    rep_node_shows(2) [of kec S n t] rep_node_shows(2) [of kec S' n' t]
  by (auto simp: root_rep_def split: if_splits)

subsection \<open>Sequences of updates\<close>

datatype trie_op = OpPut bytes bytes | OpDelete bytes | OpDeleteRecursive bytes

fun apply_op :: "(bytes \<Rightarrow> b256) \<Rightarrow> (bytes \<Rightarrow> bytes option) \<Rightarrow> trie_op \<Rightarrow> trie_node \<Rightarrow> trie_node" where
  "apply_op kec S (OpPut key v) n = put kec S n (from_key key) v"
| "apply_op kec S (OpDelete key) n = delete kec S n (from_key key)"
| "apply_op kec S (OpDeleteRecursive key) n = delete_recursive kec S n (from_key key)"

fun spec_op :: "trie_op \<Rightarrow> ptrie \<Rightarrow> ptrie" where
  "spec_op (OpPut key v) t = aput t (key_bits key) v"
| "spec_op (OpDelete key) t = adel False t (key_bits key)"
| "spec_op (OpDeleteRecursive key) t = adel True t (key_bits key)"

fun map_op :: "trie_op \<Rightarrow> (bool list \<Rightarrow> bytes option) \<Rightarrow> (bool list \<Rightarrow> bytes option)" where
  "map_op (OpPut key v) m = m(key_bits key \<mapsto> v)"
| "map_op (OpDelete key) m = del_map False m (key_bits key)"
| "map_op (OpDeleteRecursive key) m = del_map True m (key_bits key)"

definition run_trie :: "(bytes \<Rightarrow> b256) \<Rightarrow> (bytes \<Rightarrow> bytes option) \<Rightarrow> trie_op list \<Rightarrow> trie_node" where
  "run_trie kec S ops = fold (apply_op kec S) ops tn_empty"

definition run_spec :: "trie_op list \<Rightarrow> ptrie" where
  "run_spec ops = fold spec_op ops PE"

definition run_map :: "trie_op list \<Rightarrow> bool list \<Rightarrow> bytes option" where
  "run_map ops = fold map_op ops Map.empty"

text \<open>
  No put of an empty value, and no trie on the way whose size leaves the 64 bits of
  \<open>children_size\<close>.
\<close>

fun op_ok :: "trie_op \<Rightarrow> bool" where
  "op_ok (OpPut key v) = (v \<noteq> [])"
| "op_ok _ = True"

fun ops_fit :: "(bytes \<Rightarrow> b256) \<Rightarrow> trie_op list \<Rightarrow> ptrie \<Rightarrow> bool" where
  "ops_fit kec [] t = True"
| "ops_fit kec (x # ops) t = (op_ok x \<and> psize kec t < 2 ^ 64 \<and> ops_fit kec ops (spec_op x t))"

lemma apply_op_root:
  assumes kec: "\<And>d. length (kec d) = 32"
    and "root_rep kec S n t" "psize kec t < 2 ^ 64" "op_ok x"
  shows "root_rep kec S (apply_op kec S x n) (spec_op x t)"
proof (cases x)
  case (OpPut key v)
  then show ?thesis
    using put_root [OF kec _ assms(2,3), of v "from_key key"] assms(4) by (simp add: ks_bits_from_key)
next
  case (OpDelete key)
  then show ?thesis
    using put_impl_None_root [OF kec assms(2,3), of "from_key key" False]
    by (simp add: ks_bits_from_key delete_def)
next
  case (OpDeleteRecursive key)
  then show ?thesis
    using put_impl_None_root [OF kec assms(2,3), of "from_key key" True]
    by (simp add: ks_bits_from_key delete_recursive_def)
qed

lemma fold_apply_op_root:
  assumes kec: "\<And>d. length (kec d) = 32"
  shows "root_rep kec S n t \<Longrightarrow> ops_fit kec ops t \<Longrightarrow>
    root_rep kec S (fold (apply_op kec S) ops n) (fold spec_op ops t)"
proof (induction ops arbitrary: n t)
  case (Cons x ops)
  then show ?case using apply_op_root [OF kec] by simp
qed simp

lemma run_trie_root:
  assumes kec: "\<And>d. length (kec d) = 32" and "ops_fit kec ops PE"
  shows "root_rep kec S (run_trie kec S ops) (run_spec ops)"
  unfolding run_trie_def run_spec_def by (rule fold_apply_op_root [OF kec root_rep_empty assms(2)])

lemma aget_spec_op: "aget (spec_op x t) = map_op x (aget t)"
  by (cases x) (auto simp: aget_aput aget_adel)

lemma aget_fold_spec: "aget (fold spec_op ops t) = fold map_op ops (aget t)"
  by (induction ops arbitrary: t) (simp_all add: aget_spec_op)

lemma aget_run_spec: "aget (run_spec ops) = run_map ops"
proof -
  have "aget PE = Map.empty" by auto
  then show ?thesis by (simp add: run_spec_def run_map_def aget_fold_spec)
qed

text \<open>
  C1. The state root is a function of the state. Two sequences of puts, deletes and recursive
  deletes that leave the same map of keys to values leave roots with the same hash and the same
  message, whatever their order and whatever the intermediate tries, provided no put writes an
  empty value and the sizes stay within \<open>children_size\<close>.
\<close>

theorem root_hash_history_independent:
  assumes kec: "\<And>d. length (kec d) = 32"
    and "ops_fit kec ops1 PE" "ops_fit kec ops2 PE"
    and same: "run_map ops1 = run_map ops2"
  shows "compute_hash kec (run_trie kec S1 ops1) = compute_hash kec (run_trie kec S2 ops2)
    \<and> to_message kec (run_trie kec S1 ops1) = to_message kec (run_trie kec S2 ops2)"
proof -
  note r1 = run_trie_root [OF kec assms(2), of S1] and r2 = run_trie_root [OF kec assms(3), of S2]
  have eq: "run_spec ops1 = run_spec ops2"
    using canonical_unique root_rep_canonical [OF r1] root_rep_canonical [OF r2] same
    by (simp add: aget_run_spec)
  show ?thesis using root_rep_same [OF r1 r2 [folded eq]] .
qed

text \<open>A stand-in for Keccak-256 with the same output length, for concrete inputs.\<close>

definition toy_kec :: "bytes \<Rightarrow> b256" where
  "toy_kec d = take 32 (d @ replicate 32 0)"

lemma length_toy_kec [simp]: "length (toy_kec d) = 32"
  by (simp add: toy_kec_def)

theorem root_hash_history_independent_witness:
  "let ops1 = [OpPut [0x12] [1], OpPut [0x13] [2], OpDelete [0x13]];
       ops2 = [OpPut [0x80] [5], OpPut [0x12] [1], OpDeleteRecursive [0x80]]
   in compute_hash toy_kec (run_trie toy_kec Map.empty ops1) =
      compute_hash toy_kec (run_trie toy_kec Map.empty ops2)"
proof -
  let ?ops1 = "[OpPut [0x12] [1], OpPut [0x13] [2], OpDelete [0x13]]"
  let ?ops2 = "[OpPut [0x80] [5], OpPut [0x12] [1], OpDeleteRecursive [0x80]]"
  have "psize toy_kec (spec_op (OpPut [0x12] [1]) PE) = 4"
    "psize toy_kec (spec_op (OpPut [0x13] [2]) (spec_op (OpPut [0x12] [1]) PE)) = 14"
    by code_simp+
  then have f1: "ops_fit toy_kec ?ops1 PE"
    by (simp del: spec_op.simps psize.simps(2))
  have "psize toy_kec (spec_op (OpPut [0x80] [5]) PE) = 4"
    "psize toy_kec (spec_op (OpPut [0x12] [1]) (spec_op (OpPut [0x80] [5]) PE)) = 20"
    by code_simp+
  then have f2: "ops_fit toy_kec ?ops2 PE"
    by (simp del: spec_op.simps psize.simps(2))
  have "\<not> prefix (key_bits [0x80]) (key_bits [0x12])" by code_simp
  then have "run_map ?ops1 = run_map ?ops2"
    by (auto simp: run_map_def del_map_def fun_eq_iff key_bits_inject)
  then show ?thesis
    using root_hash_history_independent [OF length_toy_kec f1 f2, where ?S1.0 = Map.empty and ?S2.0 = Map.empty]
    by (simp add: Let_def)
qed

subsection \<open>Further properties of a root\<close>

text \<open>
  C11. Every update refines the abstract trie. On a root that represents a trie, with any of its
  subtrees only in the store, a put of a non-empty value, a delete and a recursive delete each give
  a root that represents the abstractly updated trie, which is canonical again.
\<close>

theorem apply_op_refines:
  assumes kec: "\<And>d. length (kec d) = 32"
    and "root_rep kec S n t" "psize kec t < 2 ^ 64" "op_ok x"
  shows "root_rep kec S (apply_op kec S x n) (spec_op x t) \<and> canonical (spec_op x t)
    \<and> aget (spec_op x t) = map_op x (aget t)"
  using apply_op_root [OF kec assms(2-4)] root_rep_canonical aget_spec_op by blast

theorem apply_op_refines_witness:
  "root_rep toy_kec Map.empty (apply_op toy_kec Map.empty (OpPut [0x12] [1]) tn_empty)
     (PN [False, False, False, True, False, False, True, False] (Some [1]) PE PE)"
proof -
  have "spec_op (OpPut [0x12] [1]) PE = PN [False, False, False, True, False, False, True, False] (Some [1]) PE PE"
    by code_simp
  then show ?thesis
    using apply_op_refines [OF length_toy_kec root_rep_empty, where x = "OpPut [0x12] [1]" and S = Map.empty]
    by (simp del: apply_op.simps spec_op.simps map_op.simps)
qed

text \<open>
  C12. Lookups return what was written. After any sequence of updates from the empty trie, \<open>get\<close> and
  the strict \<open>try_get\<close> return, for every key, the value of the map that the sequence computes, and
  \<open>try_get\<close> reports no missing node.
\<close>

theorem run_trie_lookup:
  assumes kec: "\<And>d. length (kec d) = 32" and fit: "ops_fit kec ops PE"
  shows "get kec S (run_trie kec S ops) (from_key key) = run_map ops (key_bits key)
    \<and> try_get kec S (run_trie kec S ops) (from_key key) = Inr (run_map ops (key_bits key))"
proof -
  note root = run_trie_root [OF kec fit, of S]
  have g: "get kec S (run_trie kec S ops) (from_key key) = run_map ops (key_bits key)"
    using get_root [OF kec root] by (simp add: ks_bits_from_key aget_run_spec)
  have "try_find kec S (run_trie kec S ops) (from_key key) = Inr (find kec S (run_trie kec S ops) (from_key key))"
  proof (cases "run_spec ops = PE")
    case True
    then have "run_trie kec S ops = tn_empty" using root by (simp add: root_rep_def)
    then show ?thesis
      by (simp add: try_find.simps find.simps tn_empty_facts Let_def try_resolve_def resolve_def)
  next
    case False
    then have "rep_node kec S (run_trie kec S ops) (run_spec ops)" using root by (simp add: root_rep_def)
    then show ?thesis by (rule try_find_complete [of kec, OF kec]) simp
  qed
  then show ?thesis using g by (simp add: try_get_def get_def)
qed

theorem run_trie_lookup_witness:
  "get toy_kec Map.empty (run_trie toy_kec Map.empty [OpPut [0x12] [1], OpDelete [0x13]]) (from_key [0x12]) = Some [1]"
proof -
  have "psize toy_kec (spec_op (OpPut [0x12] [1]) PE) = 4" by code_simp
  then have "ops_fit toy_kec [OpPut [0x12] [1], OpDelete [0x13]] PE"
    by (simp del: spec_op.simps psize.simps(2))
  from run_trie_lookup [OF length_toy_kec this, of Map.empty "[0x12]"] show ?thesis
    by (simp add: run_map_def del_map_def key_bits_inject)
qed

lemma try_find_missing:
  "try_find kec S n key = Inl h \<Longrightarrow>
   (case S h of None \<Rightarrow> True | Some data \<Rightarrow> try_from_message kec S data = None)"
proof (induction kec S n key rule: try_find.induct)
  case (1 kec S n key)
  then show ?case
    by (auto simp: try_find_step [of kec S n key] try_resolve_def
        split: if_splits resolution.splits node_ref.splits option.splits)
qed

text \<open>
  C33. Strict and lenient lookups never contradict each other, whatever bytes the store holds: an
  answer of \<open>try_get\<close> is the answer of \<open>get\<close>, and where \<open>try_get\<close> names a missing node, \<open>get\<close>
  answers \<open>None\<close> and the store really has no readable node under that hash.
\<close>

theorem try_get_agrees:
  "case try_get kec S n key of
     Inr v \<Rightarrow> get kec S n key = v
   | Inl h \<Rightarrow> get kec S n key = None
       \<and> (case S h of None \<Rightarrow> True | Some data \<Rightarrow> try_from_message kec S data = None)"
  using try_find_find [of kec S n key] try_find_missing [of kec S n key]
  by (auto simp: try_get_def get_def split: sum.splits)

text \<open>
  The proof path of a key: \<open>nodes_on_path\<close> returns a list exactly when \<open>find\<close> finds the key; the
  list starts with the node found and ends with the root.
\<close>

theorem nodes_on_path_ends:
  "(nodes_on_path kec S n key = None) = (find kec S n key = None)
   \<and> (case nodes_on_path kec S n key of None \<Rightarrow> True
       | Some ns \<Rightarrow> ns \<noteq> [] \<and> find kec S n key = Some (hd ns) \<and> last ns = n)"
  using nodes_on_path_find [of kec S n key] by (auto split: option.splits)

text \<open>
  C34. A recursive delete removes the key and everything below it, but only when the key itself has
  a value: at a key without a value it changes no lookup at all, also when there are keys below it.
\<close>

theorem delete_recursive_map:
  assumes kec: "\<And>d. length (kec d) = 32"
    and root: "root_rep kec S n t" and fit: "psize kec t < 2 ^ 64"
  shows "get kec S (delete_recursive kec S n (from_key key)) (from_key other) =
    (if get kec S n (from_key key) = None then get kec S n (from_key other)
     else if prefix (key_bits key) (key_bits other) then None
     else get kec S n (from_key other))"
proof -
  have "root_rep kec S (delete_recursive kec S n (from_key key)) (adel True t (key_bits key))"
    using put_impl_None_root [OF kec root fit, of "from_key key" True]
    by (simp add: delete_recursive_def ks_bits_from_key)
  then show ?thesis
    using get_root [OF kec] root
    by (simp add: ks_bits_from_key aget_adel del_map_def)
qed

theorem delete_recursive_map_witness:
  "get toy_kec Map.empty
     (delete_recursive toy_kec Map.empty
       (put toy_kec Map.empty tn_empty (from_key [0x12, 0x34]) [1]) (from_key [0x12]))
     (from_key [0x12, 0x34]) = Some [1]"
proof -
  let ?n = "put toy_kec Map.empty tn_empty (from_key [0x12, 0x34]) [1]"
  have root: "root_rep toy_kec Map.empty ?n (aput PE (key_bits [0x12, 0x34]) [1])"
    using put_root [OF length_toy_kec _ root_rep_empty, where v = "[1]" and key = "from_key [0x12, 0x34]" and S = Map.empty]
    by (simp add: ks_bits_from_key)
  have fit: "psize toy_kec (aput PE (key_bits [0x12, 0x34]) [1]) = 5" by code_simp
  show ?thesis
    using delete_recursive_map [OF length_toy_kec root, of "[0x12]" "[0x12, 0x34]"] fit
      get_root [OF length_toy_kec root]
    by (simp add: ks_bits_from_key aget_leaf key_bits_inject del: psize.simps(2))
qed


end
