(* ===== verification/Trie_Save.thy ===== *)
theory Trie_Save
  imports Trie_Root
begin

text \<open>
  Persistence. \<open>save\<close> writes every unsaved node that its parent does not embed, and every long
  value, each under its own hash, in one batch; the trie can then be read back from the store
  by its root hash alone.
\<close>

subsection \<open>What a save collects\<close>

text \<open>
  The contract of \<open>collect_for_save\<close> on a node for \<open>t\<close>: it appends entries under their own
  hashes, and in every store that extends the old one and holds the entries, the marked node
  still represents \<open>t\<close> and the whole of \<open>t\<close> is stored.
\<close>

definition entries_in :: "(bytes \<times> bytes) list \<Rightarrow> (bytes \<Rightarrow> bytes option) \<Rightarrow> bool" where
  "entries_in es S' \<longleftrightarrow> (\<forall>(h, d) \<in> set es. S' h = Some d)"

definition self_hashed :: "(bytes \<Rightarrow> b256) \<Rightarrow> (bytes \<times> bytes) list \<Rightarrow> bool" where
  "self_hashed kec es \<longleftrightarrow> (\<forall>(h, d) \<in> set es. h = kec d)"

lemma entries_in_append [simp]: "entries_in (xs @ ys) S' \<longleftrightarrow> entries_in xs S' \<and> entries_in ys S'"
  by (auto simp: entries_in_def)

lemma self_hashed_append [simp]: "self_hashed kec (xs @ ys) \<longleftrightarrow> self_hashed kec xs \<and> self_hashed kec ys"
  by (auto simp: self_hashed_def)

lemma entries_simps [simp]:
  "entries_in [] S'" "self_hashed kec []"
  "entries_in [(h, d)] S' \<longleftrightarrow> S' h = Some d" "self_hashed kec [(h, d)] \<longleftrightarrow> h = kec d"
  by (simp_all add: entries_in_def self_hashed_def)

lemma collect_append:
  "collect_ref kec r batch = (fst (collect_ref kec r []), batch @ snd (collect_ref kec r []))"
  "collect_for_save kec n rt batch =
     (fst (collect_for_save kec n rt []), batch @ snd (collect_for_save kec n rt []))"
proof (induction r and n arbitrary: batch and rt batch)
  case (Node n)
  show ?case
    using Node [of False batch] by (simp add: Let_def split: prod.splits)
next
  case (TrieNode sp v vh lvl l r cs sv)
  let ?l = "collect_ref kec l []" and ?r = "collect_ref kec r []"
  have l: "collect_ref kec l batch = (fst ?l, batch @ snd ?l)" for batch by (rule TrieNode.IH(1))
  have r: "collect_ref kec r batch = (fst ?r, batch @ snd ?r)" for batch by (rule TrieNode.IH(2))
  show ?case
    using l [of batch] r [of "batch @ snd ?l"] r [of "snd ?l"]
    by (auto simp: Let_def split: option.splits prod.splits)
qed auto

lemma phash_canonical: "canonical t \<Longrightarrow> t \<noteq> PE \<Longrightarrow> phash kec t = kec (pmsg kec t)"
proof -
  assume "canonical t" "t \<noteq> PE"
  then have "\<not> is_empty_trie (pn kec t)"
    using rep_node_shows(5) [OF rep_pn [of t kec Map.empty]] by auto
  then show ?thesis by (simp add: phash_def pmsg_def compute_hash.simps)
qed

lemma rep_set_saved:
  "rep_node kec S n t \<Longrightarrow> stored kec S t \<Longrightarrow> held kec S t \<Longrightarrow> rep_node kec S (set_saved n) t"
  by (cases n; cases t) simp_all

definition save_contract ::
  "(bytes \<Rightarrow> b256) \<Rightarrow> (bytes \<Rightarrow> bytes option) \<Rightarrow> ptrie \<Rightarrow> node_ref \<Rightarrow> (bytes \<times> bytes) list \<Rightarrow> bool" where
  "save_contract kec S t r es \<longleftrightarrow> self_hashed kec es \<and> looks_like kec r t \<and>
     (\<forall>S'. S \<subseteq>\<^sub>m S' \<longrightarrow> entries_in es S' \<longrightarrow> rep_ref kec S' r t \<and> stored kec S' t \<and> held kec S' t)"

lemma save_contract_node:
  assumes rep: "rep_node kec S (TrieNode sp v vh lvl l r cs False) (PN p w a b)"
    and can: "canonical (PN p w a b)"
    and l: "save_contract kec S a (fst (collect_ref kec l [])) (snd (collect_ref kec l []))"
    and r: "save_contract kec S b (fst (collect_ref kec r [])) (snd (collect_ref kec r []))"
    and col: "collect_for_save kec (TrieNode sp v vh lvl l r cs False) rt [] = (n', es)"
  shows "save_contract kec S (PN p w a b) (Node n') es"
    and "rt \<Longrightarrow> (phash kec (PN p w a b), pmsg kec (PN p w a b)) \<in> set es"
proof -
  let ?t = "PN p w a b"
  let ?l = "collect_ref kec l []" and ?r = "collect_ref kec r []"
  let ?n = "TrieNode sp v vh lvl (fst ?l) (fst ?r) cs False"
  let ?val = "if has_long_value ?n then (case v of Some x \<Rightarrow> [(get_value_hash kec ?n, x)] | None \<Rightarrow> []) else []"
  let ?msg = "if is_embeddable ?n \<and> \<not> rt then [] else [(kec (to_message kec ?n), to_message kec ?n)]"
  have es: "n' = set_saved ?n" "es = snd ?l @ snd ?r @ ?val @ ?msg"
    using col collect_append(1) [of kec r "snd ?l"]
    by (auto simp: Let_def split: option.splits prod.splits if_splits)
  have F: "rep_fields kec ?n p w a b" using rep by (simp add: rep_fields_def)
  have lr: "looks_like kec (fst ?l) a" "looks_like kec (fst ?r) b"
    using l r by (simp_all add: save_contract_def)
  note L = node_looks_like [OF F, simplified, OF lr]
  have msg: "to_message kec ?n = pmsg kec ?t" "is_embeddable ?n = pemb kec ?t"
    using L(2,3) by (simp_all add: pemb_def)
  have h: "phash kec ?t = kec (pmsg kec ?t)" using phash_canonical can by blast
  have val: "self_hashed kec ?val"
    "\<And>S'. entries_in ?val S' \<Longrightarrow> value_held kec S' w"
    using F by (auto simp: rep_fields_def node_measures value_held_def split: option.splits if_splits)
  have stored: "stored kec S' ?t" "held kec S' ?t" "rep_node kec S' ?n ?t"
    if S': "S \<subseteq>\<^sub>m S'" "entries_in es S'" for S'
  proof -
    have e: "entries_in (snd ?l) S'" "entries_in (snd ?r) S'" "entries_in ?val S'" "entries_in ?msg S'"
      using S'(2) by (simp_all add: es)
    show "stored kec S' ?t"
      using l r e(1-3) S'(1) val(2) by (simp add: save_contract_def)
    show "held kec S' ?t"
      using e(4) msg h by (auto simp: held_def split: if_splits)
    show "rep_node kec S' ?n ?t"
      using l r e(1,2) S'(1) rep by (simp add: save_contract_def)
  qed
  have "rep_fields kec (set_saved ?n) p w a b" using F by (simp add: rep_fields_def)
  then have "looks_like kec (Node (set_saved ?n)) ?t"
    using lr by (intro fields_looks_like) simp_all
  then show "save_contract kec S ?t (Node n') es"
    using stored rep_set_saved [of kec _ ?n ?t] l r val(1) h msg
    unfolding save_contract_def by (auto simp: es)
  assume rt
  then have "?msg = [(kec (to_message kec ?n), to_message kec ?n)]" by (simp only: not_True_eq_False simp_thms if_False)
  then have "(kec (to_message kec ?n), to_message kec ?n) \<in> set ?msg" by (simp only: list.set insertI1)
  then have "(kec (to_message kec ?n), to_message kec ?n) \<in> set es"
    unfolding es(2) set_append by (intro UnI2)
  then show "(phash kec ?t, pmsg kec ?t) \<in> set es" unfolding msg(1) h .
qed

lemma collect_contract:
  "rep_ref kec S r t \<Longrightarrow> canonical t \<Longrightarrow>
     save_contract kec S t (fst (collect_ref kec r [])) (snd (collect_ref kec r []))"
  "rep_node kec S n t \<Longrightarrow> canonical t \<Longrightarrow> collect_for_save kec n rt [] = (n', es) \<Longrightarrow>
     save_contract kec S t (Node n') es \<and> (rt \<longrightarrow> \<not> saved n \<longrightarrow> (phash kec t, pmsg kec t) \<in> set es)"
proof (induction r and n arbitrary: t and t rt n' es)
  case Empty
  then show ?case by (simp add: save_contract_def looks_like_def pemb_def held_def)
next
  case (Hash h)
  then show ?case
    using rep_looks_like(1) [OF Hash.prems(1)] rep_mono(1) [OF Hash.prems(1)]
    by (auto simp: save_contract_def held_def)
next
  case (Node n)
  obtain n' es where col: "collect_for_save kec n False [] = (n', es)" by fastforce
  then show ?case using Node by simp
next
  case (TrieNode sp v vh lvl l r cs sv)
  let ?n = "TrieNode sp v vh lvl l r cs sv"
  obtain p w a b where t: "t = PN p w a b" using TrieNode.prems(1) by (rule rep_nodeE)
  show ?case
  proof (cases sv)
    case True
    then have "n' = ?n" "es = []" using TrieNode.prems(3) by auto
    moreover have "stored kec S t" "held kec S t" using TrieNode.prems(1) True by (auto simp: t)
    ultimately show ?thesis
      using True rep_looks_like(2) [OF TrieNode.prems(1)] rep_mono(2) [OF TrieNode.prems(1)]
        stored_mono held_mono by (auto simp: save_contract_def simp del: rep_node.simps)
  next
    case False
    have can: "canonical a" "canonical b" using TrieNode.prems(2) by (auto simp: t)
    note R = rep_nodeD(7,8) [OF TrieNode.prems(1) [unfolded t], simplified]
    have rep: "rep_node kec S (TrieNode sp v vh lvl l r cs False) (PN p w a b)"
      using TrieNode.prems(1) t False by simp
    note C = save_contract_node [OF rep TrieNode.prems(2) [unfolded t] TrieNode.IH(1) [OF R(1) can(1)] TrieNode.IH(2) [OF R(2) can(2)]]
    show ?thesis using C TrieNode.prems(3) False t by auto
  qed
qed

subsection \<open>Saving through the store interface\<close>

text \<open>The values that a save of \<open>n\<close> writes.\<close>

definition save_data :: "(bytes \<Rightarrow> b256) \<Rightarrow> trie_node \<Rightarrow> bytes set" where
  "save_data kec n = snd ` set (snd (collect_for_save kec n True []))"

context trie_store
begin

lemma save_root:
  assumes root: "root_rep kec (get s) n t" and t: "t \<noteq> PE" and unsaved: "\<not> saved n"
    and addr: "addressed kec s" and inj: "inj_on kec (ran (get s) \<union> save_data kec n)"
    and sv: "save kec put s n True = (n', s')"
  shows "get s \<subseteq>\<^sub>m get s'" "addressed kec s'" "get s' (phash kec t) = Some (pmsg kec t)"
    "stored kec (get s') t" "root_rep kec (get s') n' t"
proof -
  obtain m es where col: "collect_for_save kec n True [] = (m, es)" by fastforce
  have rep: "rep_node kec (get s) n t" "canonical t" using root t by (simp_all add: root_rep_def)
  have C: "save_contract kec (get s) t (Node m) es" "(phash kec t, pmsg kec t) \<in> set es"
    using collect_contract(2) [OF rep col] unsaved by auto
  then have sh: "\<forall>(h, d) \<in> set es. h = kec d" by (simp add: save_contract_def self_hashed_def)
  have ns: "n' = m" "s' = put_many put s es"
    using sv col C(2) by (auto simp: save_def)
  have inj': "inj_on kec (ran (get s) \<union> snd ` set es)" using inj col by (simp add: save_data_def)
  show le: "get s \<subseteq>\<^sub>m get s'" unfolding ns by (rule put_many_keeps [OF addr sh inj'])
  show "addressed kec s'" unfolding ns by (rule addressed_put_many [OF addr sh])
  have "get s' h = Some d" if "(h, d) \<in> set es" for h d
    unfolding ns using put_many_gets [OF sh _ that] inj' by (simp add: inj_on_Un)
  then have ei: "entries_in es (get s')" by (auto simp: entries_in_def)
  then show "get s' (phash kec t) = Some (pmsg kec t)" using C(2) by (auto simp: entries_in_def)
  show "stored kec (get s') t" using C(1) le ei by (simp add: save_contract_def)
  show "root_rep kec (get s') n' t"
    using C(1) le ei rep(2) t by (simp add: save_contract_def root_rep_def ns)
qed

end

lemma reload_root:
  assumes kec: "\<And>d. length (kec d) = 32"
    and "stored kec S t" "wire_limits t" "t \<noteq> PE" "canonical t" "S (phash kec t) = Some (pmsg kec t)"
  shows "\<exists>data m. S (phash kec t) = Some data \<and> try_from_message kec S data = Some m \<and> root_rep kec S m t"
  using parse_pmsg [OF kec assms(2-4)] rep_wire [OF kec assms(2-4)] assms
  by (auto simp: root_rep_def)

text \<open>
  C2. A saved trie is not lost. Saving the root of a non-empty trie whose paths and values fit the
  wire format into a content-addressed store, with no two of the values written or held having the
  same hash, makes the store hold a message under the root hash that parses to a node with the same
  lookups as the root that was saved, for every key; nothing the store held is lost.
\<close>

theorem save_then_reload:
  assumes kec: "\<And>d. length (kec d) = 32"
    and root: "root_rep kec (mem_get s) n t" and t: "t \<noteq> PE" "wire_limits t" and unsaved: "\<not> saved n"
    and addr: "\<And>h d. mem_get s h = Some d \<Longrightarrow> h = kec d"
    and inj: "inj_on kec (ran (mem_get s) \<union> save_data kec n)"
    and sv: "save kec mem_put s n True = (n', s')"
  shows "mem_get s \<subseteq>\<^sub>m mem_get s' \<and>
    (\<exists>data m. mem_get s' (compute_hash kec n) = Some data
      \<and> try_from_message kec (mem_get s') data = Some m
      \<and> (\<forall>key. get kec (mem_get s') m (from_key key) = get kec (mem_get s) n (from_key key)))"
proof -
  have ad: "mem.addressed kec s" using addr by (simp add: mem.addressed_def)
  note S = mem.save_root [OF root t(1) unsaved ad inj sv]
  have h: "compute_hash kec n = phash kec t" using compute_hash_root [OF root] t by simp
  obtain data m where m: "mem_get s' (phash kec t) = Some data"
      "try_from_message kec (mem_get s') data = Some m" "root_rep kec (mem_get s') m t"
    using reload_root [OF kec S(4) t(2,1) root_rep_canonical [OF root] S(3)] by blast
  have "get kec (mem_get s') m (from_key key) = get kec (mem_get s) n (from_key key)" for key
    using get_root [OF kec m(3)] get_root [OF kec root] by simp
  then show ?thesis using S(1) m h by auto
qed

theorem save_then_reload_witness:
  "let n = run_trie toy_kec Map.empty [OpPut [0x12] [1], OpPut [0x13] (replicate 40 7)];
       (n', s') = save toy_kec mem_put mem_new n True
   in \<exists>data m. mem_get s' (compute_hash toy_kec n) = Some data
      \<and> try_from_message toy_kec (mem_get s') data = Some m
      \<and> get toy_kec (mem_get s') m (from_key [0x13]) = Some (replicate 40 7)"
proof -
  let ?ops = "[OpPut [0x12] [1], OpPut [0x13] (replicate 40 7)]"
  let ?n = "run_trie toy_kec Map.empty ?ops"
  have p: "psize toy_kec (spec_op (OpPut [0x12] [1]) PE) = 4" by code_simp
  have f: "ops_fit toy_kec ?ops PE" using p by (simp del: spec_op.simps psize.simps(2))
  have root: "root_rep toy_kec (mem_get mem_new) ?n (run_spec ?ops)"
    using run_trie_root [OF length_toy_kec f, of Map.empty] by simp
  have t: "run_spec ?ops = PN [False, False, False, True, False, False, True] None
      (PN [] (Some [1]) PE PE) (PN [] (Some (replicate 40 7)) PE PE)" by code_simp
  have lim: "wire_limits (run_spec ?ops)"
    unfolding t by (simp add: MAX_SHARED_PATH_BITS_def)
  have us: "\<not> saved ?n" by code_simp
  have "distinct (map toy_kec (map snd (snd (collect_for_save toy_kec ?n True []))))" by code_simp
  then have inj: "inj_on toy_kec (ran (mem_get mem_new) \<union> save_data toy_kec ?n)"
    unfolding distinct_map [of toy_kec] by (simp add: save_data_def)
  obtain n' s' where sv: "save toy_kec mem_put mem_new ?n True = (n', s')" by fastforce
  have "get toy_kec (mem_get mem_new) ?n (from_key [0x13]) = Some (replicate 40 7)"
    using get_root [OF length_toy_kec root] by (simp add: ks_bits_from_key aget_run_spec run_map_def)
  then show ?thesis
    using save_then_reload [OF length_toy_kec root _ lim us _ inj sv] t sv
    by (auto simp: Let_def)
qed

end
