(* ===== verification/Trie_Bulk_Put.thy ===== *)
theory Trie_Bulk_Put
  imports Trie_Root "HOL-Library.List_Lexorder"
begin

text \<open>
  Inserting a sorted batch of entries in one descent (\<open>crates/trie/src/bulk_put.rs\<close>), and that
  it gives the trie of inserting the entries one by one. \<open>None\<close> is the panic of reading a bit past
  the end of a key, which entries that are sorted and free of duplicates never reach.
\<close>

subsection \<open>Definitions\<close>

type_synonym entry = "key_slice \<times> bytes"

datatype ordering = Less | Equal | Greater

definition cmp_nat :: "nat \<Rightarrow> nat \<Rightarrow> ordering" where
  "cmp_nat a b = (if a < b then Less else if a = b then Equal else Greater)"

fun cmp_from :: "key_slice \<Rightarrow> key_slice \<Rightarrow> nat \<Rightarrow> nat \<Rightarrow> ordering" where
  "cmp_from a b i 0 = cmp_nat (ks_length a) (ks_length b)"
| "cmp_from a b i (Suc m) =
     (if ks_get a i = ks_get b i then cmp_from a b (i + 1) m
      else if ks_get a i < ks_get b i then Less else Greater)"

definition cmp_keys :: "key_slice \<Rightarrow> key_slice \<Rightarrow> ordering" where
  "cmp_keys a b = cmp_from a b 0 (min (ks_length a) (ks_length b))"

text \<open>What the debug assertions of \<open>put_bulk\<close> check.\<close>

fun sorted_entries :: "entry list \<Rightarrow> bool" where
  "sorted_entries (a # b # es) = (cmp_keys (fst a) (fst b) = Less \<and> sorted_entries (b # es))"
| "sorted_entries _ = True"

definition entries_ok :: "entry list \<Rightarrow> bool" where
  "entries_ok es = (sorted_entries es \<and> (\<forall>(k, v) \<in> set es. v \<noteq> []))"

fun match_from :: "key_slice \<Rightarrow> nat \<Rightarrow> key_slice \<Rightarrow> nat \<Rightarrow> nat \<Rightarrow> nat" where
  "match_from key depth path n 0 = n"
| "match_from key depth path n (Suc m) =
     (if ks_get key (depth + n) = ks_get path n then match_from key depth path (n + 1) m else n)"

definition match_len :: "key_slice \<Rightarrow> nat \<Rightarrow> key_slice \<Rightarrow> nat" where
  "match_len key depth path = match_from key depth path 0 (min (ks_length key - depth) (ks_length path))"

definition take_terminating :: "entry list \<Rightarrow> nat \<Rightarrow> bytes option \<times> entry list" where
  "take_terminating entries at =
     (case entries of
        (key, v) # es \<Rightarrow> if ks_length key = at then (Some v, es) else (None, entries)
      | [] \<Rightarrow> (None, entries))"

text \<open>\<open>partition_point\<close> on the bit at \<open>at\<close>, then \<open>split_at\<close>.\<close>

definition partition_at :: "entry list \<Rightarrow> nat \<Rightarrow> (entry list \<times> entry list) option" where
  "partition_at rest at =
     (if list_all (\<lambda>(k, v). at < ks_length k) rest
      then Some (takeWhile (\<lambda>(k, v). ks_get k at = 0) rest, dropWhile (\<lambda>(k, v). ks_get k at = 0) rest)
      else None)"

fun with_children_size :: "trie_node \<Rightarrow> u64 \<Rightarrow> trie_node" where
  "with_children_size (TrieNode sp v vh lvl l r cs sv) sz = TrieNode sp v vh lvl l r sz sv"

fun branch_from :: "key_slice \<Rightarrow> key_slice \<Rightarrow> nat \<Rightarrow> nat \<Rightarrow> nat" where
  "branch_from a b n 0 = n"
| "branch_from a b n (Suc m) = (if ks_get a n = ks_get b n then branch_from a b (n + 1) m else n)"

definition branch_at :: "entry list \<Rightarrow> nat \<Rightarrow> nat" where
  "branch_at entries depth =
     (let a = fst (hd entries); b = fst (last entries)
      in branch_from a b depth (min (ks_length a) (ks_length b) - depth))"

lemma branch_from_ge: "n \<le> branch_from a b n m"
  by (induction m arbitrary: n) (auto intro: Suc_leD)

definition weight :: "entry list \<Rightarrow> nat \<Rightarrow> nat" where
  "weight es depth = length es + sum_list (map (\<lambda>(k, v). ks_length k - depth) es)"

lemma weight_mono: "depth \<le> at \<Longrightarrow> weight es at \<le> weight es depth"
  by (auto simp: weight_def intro!: sum_list_mono)

lemma weight_append: "weight (xs @ ys) at = weight xs at + weight ys at"
  by (simp add: weight_def)

lemma weight_less: "es \<noteq> [] \<Longrightarrow> list_all (\<lambda>(k, v). at < ks_length k) es \<Longrightarrow> depth \<le> at \<Longrightarrow> weight es (at + 1) < weight es depth"
proof (induction es)
  case (Cons e es)
  have "ks_length (fst e) - (at + 1) < ks_length (fst e) - depth" using Cons.prems by (auto simp: case_prod_unfold)
  moreover have "weight es (at + 1) \<le> weight es depth" using Cons.prems by (intro weight_mono) simp
  ultimately show ?case by (auto simp: weight_def case_prod_unfold)
qed simp

lemma weight_branch:
  assumes "take_terminating es at = (v, rest)" "partition_at rest at = Some (lo, hi)" "depth \<le> at" "es \<noteq> []"
  shows "weight lo (at + 1) < weight es depth" "weight hi (at + 1) < weight es depth"
proof -
  have all: "list_all (\<lambda>(k, v). at < ks_length k) rest" and split: "rest = lo @ hi"
    using assms(2) by (auto simp: partition_at_def split: if_splits)
  have "weight rest (at + 1) < weight es depth"
  proof (cases "rest = []")
    case True
    then show ?thesis using assms(4) by (cases es) (auto simp: weight_def)
  next
    case False
    have "weight rest depth \<le> weight es depth"
      using assms(1) by (auto simp: take_terminating_def weight_def split: list.splits if_splits)
    then show ?thesis using weight_less [OF False all assms(3)] by simp
  qed
  then show "weight lo (at + 1) < weight es depth" "weight hi (at + 1) < weight es depth"
    using split weight_append [of lo hi "at + 1"] by simp_all
qed

lemma weight_descend:
  assumes "take_terminating es (d + m) = (v, rest)" "partition_at rest (d + m) = Some (lo, hi)" "es \<noteq> []"
  shows "Suc (2 * weight lo (Suc (d + m))) < 2 * weight es d \<and> Suc (2 * weight hi (Suc (d + m))) < 2 * weight es d"
  using weight_branch [OF assms(1,2) le_add1 assms(3)] by simp

function build_bulk :: "(bytes \<Rightarrow> b256) \<Rightarrow> (bytes \<Rightarrow> bytes option) \<Rightarrow> entry list \<Rightarrow> nat \<Rightarrow> node_ref option" where
  "build_bulk kec store entries depth =
     (case entries of
        [] \<Rightarrow> Some Empty
      | [(key, v)] \<Rightarrow> Some (Node (new_leaf kec (ks_slice key depth (ks_length key)) v))
      | _ \<Rightarrow>
          let n = branch_at entries depth
          in case take_terminating entries n of (v, rest) \<Rightarrow>
             (case partition_at rest n of
                None \<Rightarrow> None
              | Some (lo, hi) \<Rightarrow>
                  (case (build_bulk kec store lo (n + 1), build_bulk kec store hi (n + 1)) of
                     (Some l, Some r) \<Rightarrow>
                       Some (Node (with_children_size
                         (from_parts (ks_slice (fst (hd entries)) depth n) v (map_option kec v) l r)
                         (reference_size kec store l + reference_size kec store r)))
                   | _ \<Rightarrow> None)))"
  by pat_completeness auto
termination
proof (relation "measure (\<lambda>(kec, store, es, depth). weight es depth)", goal_cases)
  case 1
  then show ?case by simp
next
  case (2 kec store entries depth a list b1 b2 x21 x22 n v rest lohi lo hi)
  have "depth \<le> n" using 2 branch_from_ge by (simp add: branch_at_def Let_def)
  then show ?case using 2 weight_branch(1) [of entries n v rest lo hi depth] by simp
next
  case (3 kec store entries depth a list b1 b2 x21 x22 n v rest lohi lo hi)
  have "depth \<le> n" using 3 branch_from_ge by (simp add: branch_at_def Let_def)
  then show ?case using 3 weight_branch(2) [of entries n v rest lo hi depth] by simp
qed

definition rebuild_bulk ::
  "(bytes \<Rightarrow> b256) \<Rightarrow> (bytes \<Rightarrow> bytes option) \<Rightarrow> trie_node \<Rightarrow> key_slice \<Rightarrow> bytes option \<Rightarrow> node_ref \<Rightarrow> node_ref
    \<Rightarrow> bool \<Rightarrow> bool \<Rightarrow> trie_node" where
  "rebuild_bulk kec store node path v new_left new_right left_untouched right_untouched =
     (let cs = children_size node;
          cs1 = (if \<not> left_untouched
                 then saturating_sub cs (reference_size kec store (left node)) + reference_size kec store new_left
                 else cs);
          cs2 = (if \<not> right_untouched
                 then saturating_sub cs1 (reference_size kec store (right node)) + reference_size kec store new_right
                 else cs1)
      in with_children_size (from_parts path v (map_option kec v) new_left new_right) cs2)"

text \<open>How much of the shared path both ends of the range agree with.\<close>

definition agree_len :: "trie_node \<Rightarrow> entry list \<Rightarrow> nat \<Rightarrow> nat" where
  "agree_len node entries depth =
     min (match_len (fst (hd entries)) depth (shared_path node)) (match_len (fst (last entries)) depth (shared_path node))"

definition pushed_down :: "trie_node \<Rightarrow> nat \<Rightarrow> trie_node" where
  "pushed_down node agree =
     with_children_size
       (from_parts (ks_slice (shared_path node) (agree + 1) (ks_length (shared_path node)))
          (node_value node) (value_hash node) (left node) (right node))
       (children_size node)"

definition new_parent ::
  "(bytes \<Rightarrow> b256) \<Rightarrow> (bytes \<Rightarrow> bytes option) \<Rightarrow> trie_node \<Rightarrow> nat \<Rightarrow> bytes option \<Rightarrow> node_ref \<Rightarrow> node_ref \<Rightarrow> trie_node" where
  "new_parent kec store node agree v l r =
     with_children_size (from_parts (ks_slice (shared_path node) 0 agree) v (map_option kec v) l r)
       (reference_size kec store l + reference_size kec store r)"

function merge_bulk :: "(bytes \<Rightarrow> b256) \<Rightarrow> (bytes \<Rightarrow> bytes option) \<Rightarrow> node_ref \<Rightarrow> entry list \<Rightarrow> nat \<Rightarrow> node_ref option"
  and merge_node :: "(bytes \<Rightarrow> b256) \<Rightarrow> (bytes \<Rightarrow> bytes option) \<Rightarrow> trie_node \<Rightarrow> entry list \<Rightarrow> nat \<Rightarrow> trie_node option" where
  "merge_bulk kec store child entries depth =
     (if entries = [] then Some child
      else case resolve kec store child of
             Some node \<Rightarrow> map_option Node (merge_node kec store node entries depth)
           | None \<Rightarrow> build_bulk kec store entries depth)"
| "merge_node kec store node entries depth =
     (if entries = [] then None
      else
        let p = ks_length (shared_path node); agree = agree_len node entries depth
        in if agree = p then
             (case take_terminating entries (depth + p) of (v, rest) \<Rightarrow>
               (case partition_at rest (depth + p) of
                  None \<Rightarrow> None
                | Some (lo, hi) \<Rightarrow>
                    (case (merge_bulk kec store (left node) lo (depth + p + 1),
                           merge_bulk kec store (right node) hi (depth + p + 1)) of
                       (Some l, Some r) \<Rightarrow>
                         Some (rebuild_bulk kec store node (shared_path node)
                           (case v of Some x \<Rightarrow> Some x | None \<Rightarrow> node_value node) l r (lo = []) (hi = []))
                     | _ \<Rightarrow> None)))
           else
             (case take_terminating entries (depth + agree) of (v, rest) \<Rightarrow>
               (case partition_at rest (depth + agree) of
                  None \<Rightarrow> None
                | Some (lo, hi) \<Rightarrow>
                    let old_ref = Node (pushed_down node agree); at = depth + agree + 1
                    in (case (if ks_get (shared_path node) agree = 0
                              then (merge_bulk kec store old_ref lo at, build_bulk kec store hi at)
                              else (build_bulk kec store lo at, merge_bulk kec store old_ref hi at)) of
                          (Some l, Some r) \<Rightarrow> Some (new_parent kec store node agree v l r)
                        | _ \<Rightarrow> None))))"
  by pat_completeness auto
termination
  by (relation "measure (\<lambda>x. case x of Inl (kec, store, child, es, d) \<Rightarrow> 2 * weight es d + 1
      | Inr (kec, store, n, es, d) \<Rightarrow> 2 * weight es d)")
    (auto dest!: sym [of _ "take_terminating _ _"] dest: weight_descend)

definition put_bulk :: "(bytes \<Rightarrow> b256) \<Rightarrow> (bytes \<Rightarrow> bytes option) \<Rightarrow> trie_node \<Rightarrow> entry list \<Rightarrow> trie_node option" where
  "put_bulk kec store root entries =
     (if entries = [] then Some root
      else if is_empty_trie root then
        map_option (\<lambda>r. case r of Node n \<Rightarrow> n | _ \<Rightarrow> tn_empty) (build_bulk kec store entries 0)
      else merge_node kec store root entries 0)"

declare build_bulk.simps [simp del] merge_bulk.simps [simp del] merge_node.simps [simp del]

end
