(* ===== verification/Trie_Bulk_Refine.thy ===== *)
theory Trie_Bulk_Refine
  imports Trie_Bulk_Put
begin

text \<open>
  The batch insertion against the abstract trie: a sorted batch splits at every node into an entry
  that ends there and the entries of either side, and inserting the two sides separately is
  inserting the batch.
\<close>

subsection \<open>Batches on the abstract trie\<close>

type_synonym bit_entry = "bool list \<times> bytes"

definition aputs :: "bit_entry list \<Rightarrow> ptrie \<Rightarrow> ptrie" where
  "aputs es t = fold (\<lambda>(k, v) t. aput t k v) es t"

definition here :: "bool list \<Rightarrow> bytes option \<Rightarrow> bit_entry list" where
  "here c v = (case v of Some x \<Rightarrow> [(c, x)] | None \<Rightarrow> [])"

definition ext :: "bool list \<Rightarrow> bool \<Rightarrow> bit_entry list \<Rightarrow> bit_entry list" where
  "ext c d = map (\<lambda>(k, v). (c @ d # k, v))"

definition no_empty :: "bit_entry list \<Rightarrow> bool" where
  "no_empty es = (\<forall>(k, v) \<in> set es. v \<noteq> [])"

lemma aputs_simps [simp]:
  "aputs [] t = t" "aputs ((k, v) # es) t = aputs es (aput t k v)" "aputs (xs @ ys) t = aputs ys (aputs xs t)"
  by (simp_all add: aputs_def)

lemma here_simps [simp]: "here c None = []" "here c (Some x) = [(c, x)]"
  by (simp_all add: here_def)

lemma ext_simps [simp]:
  "ext c d [] = []" "ext c d ((k, v) # es) = (c @ d # k, v) # ext c d es" "ext c d es = [] \<longleftrightarrow> es = []"
  by (simp_all add: ext_def)

lemma no_empty_simps [simp]:
  "no_empty []" "no_empty ((k, v) # es) \<longleftrightarrow> v \<noteq> [] \<and> no_empty es" "no_empty (xs @ ys) \<longleftrightarrow> no_empty xs \<and> no_empty ys"
  "no_empty (ext c d es) \<longleftrightarrow> no_empty es" "no_empty (here c ov) \<longleftrightarrow> ov \<noteq> Some []"
  by (auto simp: no_empty_def ext_def here_def split: option.splits)

lemma canonical_aputs:
  "canonical t \<Longrightarrow> no_empty es \<Longrightarrow> canonical (aputs es t) \<and> (es \<noteq> [] \<or> t \<noteq> PE \<longrightarrow> aputs es t \<noteq> PE)"
proof (induction es arbitrary: t)
  case (Cons e es)
  obtain k v where e: "e = (k, v)" by (cases e)
  show ?case using Cons.IH [of "aput t k v"] Cons.prems canonical_aput [of t v k] by (simp add: e)
qed simp

lemma aget_aputs: "aget (aputs es t) = aget t ++ map_of (rev es)"
proof (induction es arbitrary: t)
  case (Cons e es)
  obtain k v where e: "e = (k, v)" by (cases e)
  show ?case using Cons.IH by (simp add: e aget_aput map_add_def fun_eq_iff split: option.splits)
qed simp

lemma aputs_below:
  "aputs (ext p d es) (PN p w a b) = (if d then PN p w a (aputs es b) else PN p w (aputs es a) b)"
proof (induction es arbitrary: a b)
  case (Cons e es)
  obtain k v where e: "e = (k, v)" by (cases e)
  show ?case using Cons.IH by (cases d) (simp_all add: e)
qed simp

lemma aputs_node:
  "aputs (here p v @ ext p False L @ ext p True R) (PN p w a b) =
     PN p (case v of Some x \<Rightarrow> Some x | None \<Rightarrow> w) (aputs L a) (aputs R b)"
  by (cases v) (simp_all add: aputs_below)

text \<open>The trie of a batch depends on the trie it is inserted into only through its map.\<close>

lemma aputs_unique:
  assumes "canonical t" "no_empty es" "canonical u" "aget t = aget t'" "aputs es t' = u"
  shows "aputs es t = u"
  using canonical_aputs [OF assms(1,2)] assms(3-5) aget_aputs [of es t] aget_aputs [of es t']
  by (intro canonical_unique) auto

lemma aputs_cut:
  assumes can: "canonical (PN (c @ d # p) w a b)" and es: "es = here c v @ ext c False L @ ext c True R"
    and ne: "no_empty es" and two: "v \<noteq> None \<or> (if d then L else R) \<noteq> []"
  shows "aputs es (PN (c @ d # p) w a b) =
    PN c v (aputs L (if d then PE else PN p w a b)) (aputs R (if d then PN p w a b else PE))"
proof (rule aputs_unique [OF can ne])
  let ?old = "PN p w a b"
  have old: "canonical ?old" using can by simp
  show "canonical (PN c v (aputs L (if d then PE else ?old)) (aputs R (if d then ?old else PE)))"
    using canonical_aputs [OF old, of L] canonical_aputs [OF old, of R] canonical_aputs [of PE L] canonical_aputs [of PE R]
      ne es two by (cases d) auto
  show "aget (PN (c @ d # p) w a b) = aget (PN c None (if d then PE else ?old) (if d then ?old else PE))"
    using aget_cut [of c d p w a b] by (cases d) auto
  show "aputs es (PN c None (if d then PE else ?old) (if d then ?old else PE)) =
    PN c v (aputs L (if d then PE else ?old)) (aputs R (if d then ?old else PE))"
    unfolding es aputs_node by (cases v) simp_all
qed

lemma aputs_fresh:
  assumes es: "es = here c v @ ext c False L @ ext c True R" and ne: "no_empty es"
    and two: "v \<noteq> None \<or> L \<noteq> [] \<and> R \<noteq> []"
  shows "aputs es PE = PN c v (aputs L PE) (aputs R PE)"
proof (rule aputs_unique [OF _ ne])
  show "canonical (PN c v (aputs L PE) (aputs R PE))"
    using canonical_aputs [of PE L] canonical_aputs [of PE R] ne es two by auto
  show "aget PE = aget (PN c None PE PE)" by (auto simp: aget_bare)
  show "aputs es (PN c None PE PE) = PN c v (aputs L PE) (aputs R PE)"
    unfolding es aputs_node by (cases v) simp_all
qed simp

subsection \<open>Sorted batches\<close>

definition ascending_bits :: "bit_entry list \<Rightarrow> bool" where
  "ascending_bits es = sorted_wrt (\<lambda>x y. fst x < fst y) es"

lemma append_less_append [simp]: "c @ x < c @ y \<longleftrightarrow> x < y" for c :: "bool list"
  by (induction c) auto

lemma append_not_less [simp]: "\<not> c @ x < c" for c :: "bool list"
  using append_less_append [of c x "[]"] by simp

lemma prefix_between: "prefix c x \<Longrightarrow> prefix c z \<Longrightarrow> x \<le> y \<Longrightarrow> y \<le> z \<Longrightarrow> prefix c y" for c :: "bool list"
proof (induction c arbitrary: x y z)
  case (Cons b c)
  obtain x' z' where xz: "x = b # x'" "z = b # z'" "prefix c x'" "prefix c z'"
    using Cons.prems(1,2) by (auto simp: prefix_def)
  obtain y' where y: "y = b # y'" "x' \<le> y'" "y' \<le> z'"
    using Cons.prems(3,4) xz by (cases y) (auto simp: list_le_def)
  show ?case using Cons.IH [OF xz(3,4) y(2,3)] y by simp
qed simp

lemma branch_split:
  assumes "ascending_bits es" "\<forall>e \<in> set es. prefix c (fst e)"
  obtains v L R where "es = here c v @ ext c False L @ ext c True R"
proof -
  have "\<exists>v L R. es = here c v @ ext c False L @ ext c True R" using assms
  proof (induction es)
    case (Cons e es)
    then obtain v L R where es: "es = here c v @ ext c False L @ ext c True R" by (auto simp: ascending_bits_def)
    obtain k x where e: "e = (c @ k, x)" using Cons.prems(2) by (cases e) (auto simp: prefix_def)
    have less: "\<forall>y \<in> set es. c @ k < fst y" using Cons.prems(1) e by (simp add: ascending_bits_def)
    have v: "v = None" using less es by (cases v) auto
    show ?case
    proof (cases k)
      case Nil
      then have "e # es = here c (Some x) @ ext c False L @ ext c True R" using e es v by simp
      then show ?thesis by blast
    next
      case (Cons d k')
      show ?thesis
      proof (cases d)
        case False
        then have "e # es = here c None @ ext c False ((k', x) # L) @ ext c True R" using e es v Cons by simp
        then show ?thesis by blast
      next
        case True
        have "L = []" using less es v Cons True by (cases L) auto
        then have "e # es = here c None @ ext c False [] @ ext c True ((k', x) # R)" using e es v Cons True by simp
        then show ?thesis by blast
      qed
    qed
  qed (auto intro: exI [of _ None])
  then show thesis using that by blast
qed

lemma ascending_branch:
  assumes "ascending_bits (here c v @ ext c False L @ ext c True R)"
  shows "ascending_bits L" "ascending_bits R"
  using assms by (auto simp: ascending_bits_def sorted_wrt_append ext_def sorted_wrt_map case_prod_unfold)

subsection \<open>Batches of keys\<close>

definition bits_from :: "nat \<Rightarrow> entry list \<Rightarrow> bit_entry list" where
  "bits_from depth = map (\<lambda>(k, v). (drop depth (ks_bits k), v))"

definition reaches :: "nat \<Rightarrow> entry list \<Rightarrow> bool" where
  "reaches depth es = (\<forall>(k, v) \<in> set es. ks_ok k \<and> depth \<le> ks_length k)"

lemma bits_from_simps [simp]:
  "bits_from depth [] = []" "bits_from depth ((k, v) # es) = (drop depth (ks_bits k), v) # bits_from depth es"
  "bits_from depth (xs @ ys) = bits_from depth xs @ bits_from depth ys"
  by (simp_all add: bits_from_def)

lemma reaches_simps [simp]:
  "reaches depth []" "reaches depth ((k, v) # es) \<longleftrightarrow> ks_ok k \<and> depth \<le> ks_length k \<and> reaches depth es"
  "reaches depth (xs @ ys) \<longleftrightarrow> reaches depth xs \<and> reaches depth ys"
  by (auto simp: reaches_def)

lemma key_branch:
  assumes "ks_ok k" "drop depth (ks_bits k) = c @ d # k'"
  shows "depth + length c < ks_length k" "ks_get k (depth + length c) = (if d then 1 else 0)"
    "drop (Suc (depth + length c)) (ks_bits k) = k'"
proof -
  have dep: "depth \<le> length (ks_bits k)" using assms(2) by (metis drop_all append_is_Nil_conv list.distinct(1) nat_le_linear)
  then have bits: "ks_bits k = (take depth (ks_bits k) @ c) @ d # k'" using assms(2) by (metis append.assoc append_take_drop_id)
  have len: "length (take depth (ks_bits k) @ c) = depth + length c" using dep by simp
  note facts = sub_key_facts [OF assms(1) bits, unfolded len]
  show "depth + length c < ks_length k" "ks_get k (depth + length c) = (if d then 1 else 0)" using facts(1,2) by simp_all
  show "drop (Suc (depth + length c)) (ks_bits k) = k'" using bits len by (metis append_eq_conv_conj drop_Suc drop_drop
        length_append list.sel(3) add.commute add_Suc drop_Cons' append_Cons Suc_eq_plus1)
qed

lemma side_bits:
  assumes "bits_from depth es = ext c d L" "reaches depth es"
  shows "list_all (\<lambda>(k, v). depth + length c < ks_length k \<and> ks_get k (depth + length c) = (if d then 1 else 0)) es
    \<and> bits_from (Suc (depth + length c)) es = L \<and> reaches (Suc (depth + length c)) es"
  using assms
proof (induction es arbitrary: L)
  case (Cons e es)
  obtain k v where e: "e = (k, v)" by (cases e)
  from Cons.prems(1) obtain k' L' where L: "L = (k', v) # L'" "drop depth (ks_bits k) = c @ d # k'" "bits_from depth es = ext c d L'"
    by (cases L) (auto simp: e ext_def)
  have "ks_ok k" using Cons.prems(2) e by simp
  note kb = key_branch [OF this L(2)]
  show ?case using Cons.IH [OF L(3)] Cons.prems(2) kb L(1) e by auto
qed (auto simp: ext_def)

lemma branch_entries:
  assumes bits: "bits_from depth es = here c v @ ext c False L @ ext c True R" and ok: "reaches depth es"
  obtains lo hi where "take_terminating es (depth + length c) = (v, lo @ hi)"
    "partition_at (lo @ hi) (depth + length c) = Some (lo, hi)"
    "bits_from (Suc (depth + length c)) lo = L" "bits_from (Suc (depth + length c)) hi = R"
    "reaches (Suc (depth + length c)) lo" "reaches (Suc (depth + length c)) hi"
proof -
  let ?at = "depth + length c"
  have "\<exists>hs rest. es = hs @ rest \<and> here c v = bits_from depth hs \<and> ext c False L @ ext c True R = bits_from depth rest"
    using bits unfolding bits_from_def map_eq_append_conv .
  then obtain hs rest where es1: "es = hs @ rest" and hs: "bits_from depth hs = here c v"
    and rest: "bits_from depth rest = ext c False L @ ext c True R"
    by metis
  have "\<exists>lo hi. rest = lo @ hi \<and> ext c False L = bits_from depth lo \<and> ext c True R = bits_from depth hi"
    using rest unfolding bits_from_def map_eq_append_conv .
  then obtain lo hi where es2: "rest = lo @ hi" and lo: "bits_from depth lo = ext c False L" and hi: "bits_from depth hi = ext c True R"
    by metis
  have es: "es = hs @ lo @ hi" using es1 es2 by simp
  have "reaches depth lo" "reaches depth hi" using ok es by simp_all
  note sl = side_bits [OF lo this(1)] and sh = side_bits [OF hi this(2)]
  have part: "partition_at (lo @ hi) ?at = Some (lo, hi)"
  proof -
    have l: "\<forall>e \<in> set lo. (\<lambda>(k, v). ks_get k ?at = 0) e" and h: "\<forall>e \<in> set hi. \<not> (\<lambda>(k, v). ks_get k ?at = 0) e"
      using sl sh by (auto simp: list_all_iff)
    have "takeWhile (\<lambda>(k, v). ks_get k ?at = 0) hi = []" "dropWhile (\<lambda>(k, v). ks_get k ?at = 0) hi = hi"
      using h by (cases hi; auto)+
    then have "takeWhile (\<lambda>(k, v). ks_get k ?at = 0) (lo @ hi) = lo" "dropWhile (\<lambda>(k, v). ks_get k ?at = 0) (lo @ hi) = hi"
      using l by (simp_all add: takeWhile_append2 dropWhile_append2)
    moreover have "list_all (\<lambda>(k, v). ?at < ks_length k) (lo @ hi)" using sl sh by (auto simp: list_all_iff)
    ultimately show ?thesis by (simp add: partition_at_def)
  qed
  have "take_terminating es ?at = (v, lo @ hi)"
  proof (cases v)
    case None
    then have "es = lo @ hi" using hs es by (simp add: bits_from_def)
    moreover have "\<forall>(k, v) \<in> set (lo @ hi). ks_length k \<noteq> ?at" using sl sh by (auto simp: list_all_iff)
    moreover have "take_terminating xs at = (None, xs)" if "\<forall>(k, v) \<in> set xs. ks_length k \<noteq> at" for xs at
      using that by (cases xs) (auto simp: take_terminating_def)
    ultimately show ?thesis using None by simp
  next
    case (Some x)
    then obtain k where k: "hs = [(k, x)]" "drop depth (ks_bits k) = c" using hs by (auto simp: bits_from_def)
    have "ks_ok k" "depth \<le> ks_length k" using ok es k by simp_all
    then have "ks_length k = ?at" using k(2) by (metis length_drop length_ks_bits le_add_diff_inverse)
    then show ?thesis using es k Some by (simp add: take_terminating_def)
  qed
  then show thesis using that part sl sh by blast
qed

subsection \<open>Comparisons and common prefixes\<close>

lemma match_from_lcp:
  assumes "ks_ok key" "ks_ok path" "depth \<le> ks_length key"
    "take n (drop depth (ks_bits key)) = take n (ks_bits path)" "n + m = min (ks_length key - depth) (ks_length path)"
  shows "match_from key depth path n m = length (lcp (drop depth (ks_bits key)) (ks_bits path))"
  using assms(4,5)
proof (induction m arbitrary: n)
  case 0
  then have "lcp (drop depth (ks_bits key)) (ks_bits path) = take n (drop depth (ks_bits key))"
    using assms(1-3) by (intro lcp_eqI) auto
  then have "length (lcp (drop depth (ks_bits key)) (ks_bits path)) = min n (ks_length key - depth)" using assms(1) by simp
  then show ?case using 0(2) by simp
next
  case (Suc m)
  have n: "n < ks_length path" "depth + n < ks_length key" using Suc.prems(2) by auto
  have g: "ks_get key (depth + n) = ks_get path n \<longleftrightarrow> ks_bits key ! (depth + n) = ks_bits path ! n"
    using ks_get_bit [OF assms(1) n(2)] ks_get_bit [OF assms(2) n(1)] by simp
  show ?case
  proof (cases "ks_get key (depth + n) = ks_get path n")
    case True
    then have "take (Suc n) (drop depth (ks_bits key)) = take (Suc n) (ks_bits path)"
      using Suc.prems(1) n g assms(1,2) by (simp add: take_Suc_conv_app_nth)
    then show ?thesis using True Suc.IH [of "Suc n"] Suc.prems(2) by simp
  next
    case False
    then have "lcp (drop depth (ks_bits key)) (ks_bits path) = take n (drop depth (ks_bits key))"
      using Suc.prems g n assms(1-3) by (intro lcp_eqI) auto
    then show ?thesis using False n assms(1) by simp
  qed
qed

lemma match_len_lcp:
  "ks_ok key \<Longrightarrow> ks_ok path \<Longrightarrow> depth \<le> ks_length key \<Longrightarrow>
     match_len key depth path = length (lcp (drop depth (ks_bits key)) (ks_bits path))"
  unfolding match_len_def by (rule match_from_lcp) auto

text \<open>The other loops are the same search.\<close>

lemma branch_from_match:
  "branch_from a b (d + n) m = d + match_from a d (ks_slice b d (ks_length b)) n m"
proof (induction m arbitrary: n)
  case (Suc m)
  have "ks_get (ks_slice b d (ks_length b)) n = ks_get b (d + n)" by (simp add: ks_get_def ks_slice_def add.assoc)
  then show ?case using Suc.IH [of "Suc n"] by simp
qed simp

lemma branch_at_lcp:
  assumes "ks_ok (fst (hd es))" "ks_ok (fst (last es))" "d \<le> ks_length (fst (hd es))" "d \<le> ks_length (fst (last es))"
  shows "branch_at es d = d + length (lcp (drop d (ks_bits (fst (hd es)))) (drop d (ks_bits (fst (last es)))))"
proof -
  let ?a = "fst (hd es)" and ?b = "fst (last es)"
  let ?s = "ks_slice ?b d (ks_length ?b)"
  have "min (ks_length ?a) (ks_length ?b) - d = min (ks_length ?a - d) (ks_length ?s)" by simp
  then have "branch_at es d = d + match_len ?a d ?s"
    using branch_from_match [of ?a ?b d 0] by (simp add: branch_at_def Let_def match_len_def)
  then show ?thesis using assms match_len_lcp [of ?a ?s d] by (simp add: ks_bits_slice_from)
qed

lemma cmp_from_less:
  assumes "ks_ok a" "ks_ok b" "take i (ks_bits a) = take i (ks_bits b)" "i + m = min (ks_length a) (ks_length b)"
  shows "cmp_from a b i m = Less \<longleftrightarrow> ks_bits a < ks_bits b"
  using assms(3,4)
proof (induction m arbitrary: i)
  case 0
  let ?c = "take i (ks_bits a)"
  have ab: "ks_bits a = ?c @ drop i (ks_bits a)" "ks_bits b = ?c @ drop i (ks_bits b)"
    using 0 append_take_drop_id by metis+
  have "ks_bits a < ks_bits b \<longleftrightarrow> drop i (ks_bits a) < drop i (ks_bits b)"
    by (subst ab(1), subst ab(2)) (rule append_less_append)
  moreover have "drop i (ks_bits a) = [] \<or> drop i (ks_bits b) = []" using 0 assms(1,2) by (auto simp: min_def split: if_splits)
  ultimately show ?case
    using 0 assms(1,2) by (cases "drop i (ks_bits a)"; cases "drop i (ks_bits b)") (auto simp: cmp_nat_def min_def dest: arg_cong [of _ _ length] split: if_splits)
next
  case (Suc m)
  have i: "i < ks_length a" "i < ks_length b" using Suc.prems(2) by auto
  note g = ks_get_bit [OF assms(1) i(1)] ks_get_bit [OF assms(2) i(2)]
  show ?case
  proof (cases "ks_bits a ! i = ks_bits b ! i")
    case True
    then have "take (Suc i) (ks_bits a) = take (Suc i) (ks_bits b)"
      using Suc.prems(1) i assms(1,2) by (simp add: take_Suc_conv_app_nth)
    then show ?thesis using Suc.IH [of "Suc i"] Suc.prems(2) g True by simp
  next
    case False
    let ?c = "take i (ks_bits a)"
    have "ks_bits a = ?c @ ks_bits a ! i # drop (Suc i) (ks_bits a)" "ks_bits b = ?c @ ks_bits b ! i # drop (Suc i) (ks_bits b)"
      using i assms(1,2) Suc.prems(1) by (metis id_take_nth_drop length_ks_bits)+
    then have "ks_bits a < ks_bits b \<longleftrightarrow> ks_bits a ! i < ks_bits b ! i"
      using False by (metis append_less_append Cons_less_Cons)
    then show ?thesis using g False by auto
  qed
qed

lemma cmp_keys_less: "ks_ok a \<Longrightarrow> ks_ok b \<Longrightarrow> cmp_keys a b = Less \<longleftrightarrow> ks_bits a < ks_bits b"
  unfolding cmp_keys_def by (rule cmp_from_less) auto

lemma sorted_entries_ascending:
  "sorted_entries es \<Longrightarrow> reaches 0 es \<Longrightarrow> ascending_bits (bits_from 0 es)"
proof (induction es rule: sorted_entries.induct)
  case (1 a b es)
  obtain ka va kb vb where ab: "a = (ka, va)" "b = (kb, vb)" by (cases a, cases b)
  have "ks_bits ka < ks_bits kb" using 1 cmp_keys_less [of ka kb] ab by simp
  moreover have "ascending_bits (bits_from 0 (b # es))" using 1 by (cases a) simp
  ultimately show ?case using ab by (auto simp: ascending_bits_def dest: less_trans)
qed (auto simp: ascending_bits_def)

subsection \<open>Refinement\<close>

lemma reachesD: "reaches d es \<Longrightarrow> es \<noteq> [] \<Longrightarrow> ks_ok (fst (hd es)) \<and> d \<le> ks_length (fst (hd es)) \<and> ks_ok (fst (last es)) \<and> d \<le> ks_length (fst (last es))"
  using hd_in_set [of es] last_in_set [of es] by (auto simp: reaches_def case_prod_unfold)

lemma ascending_last: "ascending_bits xs \<Longrightarrow> e \<in> set xs \<Longrightarrow> fst e \<le> fst (last xs)"
  by (induction xs) (auto simp: ascending_bits_def less_imp_le)

lemma common_prefix_all:
  assumes asc: "ascending_bits (bits_from d es)" and ne: "es \<noteq> []"
    and c: "prefix c (drop d (ks_bits (fst (hd es))))" "prefix c (drop d (ks_bits (fst (last es))))"
  shows "\<forall>e \<in> set (bits_from d es). prefix c (fst e)"
proof
  fix e
  assume e: "e \<in> set (bits_from d es)"
  let ?bs = "bits_from d es"
  have bs: "?bs \<noteq> []" using ne by (simp add: bits_from_def)
  have h: "fst (hd ?bs) = drop d (ks_bits (fst (hd es)))" "fst (last ?bs) = drop d (ks_bits (fst (last es)))"
    using ne by (simp_all add: bits_from_def hd_map last_map case_prod_unfold)
  have "fst (hd ?bs) \<le> fst e"
    using asc e by (cases ?bs) (auto simp: ascending_bits_def)
  moreover have "fst e \<le> fst (last ?bs)" by (rule ascending_last [OF asc e])
  ultimately show "prefix c (fst e)" using prefix_between [OF c] h by simp
qed

lemma branch_rep:
  assumes "ks_ok sp" "ks_bits sp = c" "rep_ref kec S l a" "rep_ref kec S r b" and kec: "\<And>d. length (kec d) = 32"
  shows "rep_node kec S (with_children_size (from_parts sp v (map_option kec v) l r)
      (reference_size kec S l + reference_size kec S r)) (PN c v a b)"
  using assms(1-4) reference_size_rep [of kec S l a, OF kec] reference_size_rep [of kec S r b, OF kec]
  by (simp add: from_parts_def)

text \<open>At the point where the two ends of a batch part, both sides are inhabited or an entry ends.\<close>

lemma parting:
  assumes asc: "ascending_bits es" and two: "length es \<ge> 2"
    and c: "c = lcp (fst (hd es)) (fst (last es))" and es: "es = here c v @ ext c False L @ ext c True R"
  shows "v \<noteq> None \<or> L \<noteq> [] \<and> R \<noteq> []"
proof (rule ccontr)
  assume "\<not> ?thesis"
  then obtain d X where X: "es = ext c d X" using es by (cases v; cases "L = []") auto
  then have "X \<noteq> []" using two by auto
  then have "fst (hd es) = c @ d # fst (hd X)" "fst (last es) = c @ d # fst (last X)"
    using X by (simp_all add: ext_def hd_map last_map case_prod_unfold)
  then have "lcp (fst (hd es)) (fst (last es)) = c @ d # lcp (fst (hd X)) (fst (last X))"
    by (simp add: lcp_append_left)
  then show False using c by simp
qed

lemma lcp_prefix: "prefix (lcp xs ys) xs" "prefix (lcp xs ys) ys"
  using lcp_take_drop [of xs ys] take_is_prefix by metis+

lemma build_rep:
  assumes kec: "\<And>d. length (kec d) = 32"
  shows "reaches d es \<Longrightarrow> ascending_bits (bits_from d es) \<Longrightarrow> no_empty (bits_from d es) \<Longrightarrow>
    \<exists>r. build_bulk kec S es d = Some r \<and> rep_ref kec S r (aputs (bits_from d es) PE)"
proof (induction "weight es d" arbitrary: es d rule: less_induct)
  case less
  consider "es = []" | k v where "es = [(k, v)]" | "length es \<ge> 2"
    by (cases es; cases "List.tl es") auto
  then show ?case
  proof cases
    case 1
    then show ?thesis by (simp add: build_bulk.simps)
  next
    case 2
    then show ?thesis
      using less.prems(1) by (simp add: build_bulk.simps new_leaf_def ks_bits_slice_from)
  next
    case 3
    let ?bs = "bits_from d es" and ?a = "drop d (ks_bits (fst (hd es)))" and ?b = "drop d (ks_bits (fst (last es)))"
    define c where "c = lcp ?a ?b"
    have ne: "es \<noteq> []" using 3 by auto
    note ends = reachesD [OF less.prems(1) ne]
    have hl: "fst (hd ?bs) = ?a" "fst (last ?bs) = ?b" using ne by (simp_all add: bits_from_def hd_map last_map case_prod_unfold)
    have at: "branch_at es d = d + length c" unfolding c_def using ends by (intro branch_at_lcp) auto
    have pre: "\<forall>e \<in> set ?bs. prefix c (fst e)"
      unfolding c_def by (rule common_prefix_all [OF less.prems(2) ne lcp_prefix])
    obtain v L R where bs: "?bs = here c v @ ext c False L @ ext c True R"
      using branch_split [OF less.prems(2) pre] by blast
    obtain lo hi where t: "take_terminating es (d + length c) = (v, lo @ hi)" and p: "partition_at (lo @ hi) (d + length c) = Some (lo, hi)"
      and lo: "bits_from (Suc (d + length c)) lo = L" "reaches (Suc (d + length c)) lo"
      and hi: "bits_from (Suc (d + length c)) hi = R" "reaches (Suc (d + length c)) hi"
      using branch_entries [OF bs less.prems(1)] by blast
    have sub: "ascending_bits L" "ascending_bits R" "no_empty L" "no_empty R"
      using ascending_branch [OF less.prems(2) [unfolded bs]] less.prems(3) [unfolded bs] by simp_all
    have w: "weight lo (Suc (d + length c)) < weight es d" "weight hi (Suc (d + length c)) < weight es d"
      using weight_branch [OF t p le_add1 ne] by simp_all
    obtain l r where l: "build_bulk kec S lo (Suc (d + length c)) = Some l" "rep_ref kec S l (aputs L PE)"
      and r: "build_bulk kec S hi (Suc (d + length c)) = Some r" "rep_ref kec S r (aputs R PE)"
      using less.hyps [OF w(1) lo(2), unfolded lo(1), OF sub(1,3)] less.hyps [OF w(2) hi(2), unfolded hi(1), OF sub(2,4)]
      by blast
    have two: "v \<noteq> None \<or> L \<noteq> [] \<and> R \<noteq> []"
      using parting [OF less.prems(2) _ _ bs] 3 hl c_def by (simp add: bits_from_def)
    have sp: "ks_ok (ks_slice (fst (hd es)) d (d + length c))" "ks_bits (ks_slice (fst (hd es)) d (d + length c)) = c"
    proof -
      have pa: "prefix c ?a" by (simp add: c_def lcp_prefix)
      then have "length c \<le> ks_length (fst (hd es)) - d" using prefix_length_le [OF pa] ends by simp
      then have b: "d + length c \<le> ks_length (fst (hd es))" using ends by linarith
      then show "ks_ok (ks_slice (fst (hd es)) d (d + length c))" using ends by auto
      show "ks_bits (ks_slice (fst (hd es)) d (d + length c)) = c"
        using ends b pa by (simp add: ks_bits_slice slice_of_def prefix_def) (metis append_eq_conv_conj)
    qed
    have "aputs ?bs PE = PN c v (aputs L PE) (aputs R PE)"
      by (rule aputs_fresh [OF bs less.prems(3) two])
    moreover have "rep_node kec S (with_children_size (from_parts (ks_slice (fst (hd es)) d (d + length c)) v (map_option kec v) l r)
        (reference_size kec S l + reference_size kec S r)) (PN c v (aputs L PE) (aputs R PE))"
      by (rule branch_rep [OF sp l(2) r(2) kec])
    moreover have "build_bulk kec S es d = Some (Node (with_children_size
        (from_parts (ks_slice (fst (hd es)) d (d + length c)) v (map_option kec v) l r)
        (reference_size kec S l + reference_size kec S r)))"
    proof -
      obtain e1 e2 es' where e: "es = e1 # e2 # es'" using 3 by (cases es; cases "List.tl es") auto
      show ?thesis
        by (subst build_bulk.simps) (use t p l(1) r(1) at e in \<open>simp add: Let_def case_prod_unfold\<close>)
    qed
    ultimately show ?thesis by simp
  qed
qed

end
