(* ===== verification/Trie_Bulk.thy ===== *)
theory Trie_Bulk
  imports Trie_Bulk_Refine "HOL-Library.Multiset"
begin

text \<open>
  The descent of \<open>put_bulk\<close> through an existing trie, and that a batch gives the root of inserting
  its entries one by one in any order.
\<close>

definition csize :: "(bytes \<Rightarrow> b256) \<Rightarrow> ptrie \<Rightarrow> nat" where
  "csize kec t = (case t of PE \<Rightarrow> 0 | PN p v l r \<Rightarrow> psize kec l + psize kec r)"

lemma csize_le: "csize kec t \<le> psize kec t"
  by (cases t) (simp_all add: csize_def)

lemma rebuild_rep:
  assumes kec: "\<And>d. length (kec d) = 32" and rep: "rep_node kec S nd (PN p w a b)"
    and l: "rep_ref kec S l a'" "lo \<longrightarrow> a' = a" and r: "rep_ref kec S r b'" "hi \<longrightarrow> b' = b"
    and fit: "psize kec a + psize kec b < 2 ^ 64" "psize kec a' + psize kec b < 2 ^ 64"
  shows "rep_node kec S (rebuild_bulk kec S nd (shared_path nd) v l r lo hi) (PN p v a' b')"
proof -
  note R = rep_nodeD [OF rep]
  note sz = reference_size_rep [of kec S "left nd" a, OF kec R(7)] reference_size_rep [of kec S "right nd" b, OF kec R(8)]
    reference_size_rep [of kec S l a', OF kec l(1)] reference_size_rep [of kec S r b', OF kec r(1)]
  define cs1 where "cs1 = (if \<not> lo then saturating_sub (children_size nd) (reference_size kec S (left nd)) + reference_size kec S l
    else children_size nd)"
  have cs1: "cs1 = of_nat (psize kec a' + psize kec b)"
  proof (cases lo)
    case True
    then show ?thesis using l(2) R(6) by (simp add: cs1_def)
  next
    case False
    have "saturating_sub (of_nat (psize kec b + psize kec a)) (of_nat (psize kec a)) = (of_nat (psize kec b) :: u64)"
      using fit(1) by (intro saturating_sub_of_nat) simp
    then show ?thesis using False R(6) sz by (simp add: cs1_def add.commute)
  qed
  have "(if \<not> hi then saturating_sub cs1 (reference_size kec S (right nd)) + reference_size kec S r else cs1)
      = of_nat (psize kec a' + psize kec b')"
  proof (cases hi)
    case True
    then show ?thesis using r(2) cs1 by simp
  next
    case False
    have "saturating_sub (of_nat (psize kec a' + psize kec b)) (of_nat (psize kec b)) = (of_nat (psize kec a') :: u64)"
      using fit(2) by (intro saturating_sub_of_nat) simp
    then show ?thesis using False cs1 sz by simp
  qed
  then show ?thesis
    using R(1,2) l(1) r(1) unfolding rebuild_bulk_def Let_def cs1_def [symmetric] by (simp add: from_parts_def)
qed

lemma pushed_rep:
  assumes rep: "rep_node kec S nd (PN (c @ d # p) w a b)"
  shows "rep_node kec S (pushed_down nd (length c)) (PN p w a b)"
proof -
  note R = rep_nodeD [OF rep]
  show ?thesis using R sub_key_facts(3,4) [OF R(1,2)] by (simp add: pushed_down_def from_parts_def)
qed

text \<open>Where the ends of the batch part from the path, an entry ends or leaves on the other side.\<close>

lemma parting_path:
  assumes asc: "ascending_bits es" and ne: "es \<noteq> []"
    and c: "length c = min (length (lcp (fst (hd es)) (c @ d # p))) (length (lcp (fst (last es)) (c @ d # p)))"
    and es: "es = here c v @ ext c False L @ ext c True R"
  shows "v \<noteq> None \<or> (if d then L else R) \<noteq> []"
proof (rule ccontr)
  assume "\<not> ?thesis"
  then have X: "es = ext c d (if d then R else L)" using es by (cases v; cases d) auto
  define X where "X = (if d then R else L)"
  have "X \<noteq> []" using X ne by (auto simp: X_def)
  then have "fst (hd es) = c @ d # fst (hd X)" "fst (last es) = c @ d # fst (last X)"
    using X by (simp_all add: ext_def hd_map last_map case_prod_unfold X_def)
  then show False using c by (simp add: lcp_append_left min_def split: if_splits)
qed

lemma merge_bulk_rep:
  assumes kec: "\<And>d. length (kec d) = 32" and batch: "reaches d es" "ascending_bits (bits_from d es)" "no_empty (bits_from d es)"
    and rep: "rep_ref kec S child t"
    and node: "\<And>nd. es \<noteq> [] \<Longrightarrow> rep_node kec S nd t \<Longrightarrow>
      \<exists>m. merge_node kec S nd es d = Some m \<and> rep_node kec S m (aputs (bits_from d es) t)"
  shows "\<exists>r. merge_bulk kec S child es d = Some r \<and> rep_ref kec S r (aputs (bits_from d es) t)"
proof (cases "es = []")
  case True
  then show ?thesis using rep by (simp add: merge_bulk.simps)
next
  case False
  show ?thesis
  proof (cases "t = PE")
    case True
    then have "resolve kec S child = None" using resolve_rep(1) [of kec S child t, OF kec rep] by simp
    then show ?thesis
      using build_rep [of kec d es S, OF kec batch] False True by (simp add: merge_bulk.simps)
  next
    case ne: False
    then obtain nd where nd: "resolve kec S child = Some nd" "rep_node kec S nd t"
      using resolve_rep(2) [of kec S child t, OF kec rep] by blast
    obtain m where "merge_node kec S nd es d = Some m" "rep_node kec S m (aputs (bits_from d es) t)"
      using node [OF False nd(2)] by blast
    then show ?thesis using nd(1) False by (simp add: merge_bulk.simps)
  qed
qed

lemma agree_prefix:
  assumes "reaches d es" "es \<noteq> []" "ks_ok (shared_path nd)" "ks_bits (shared_path nd) = p"
  defines "x \<equiv> drop d (ks_bits (fst (hd es)))" and "y \<equiv> drop d (ks_bits (fst (last es)))"
  shows "agree_len nd es d = min (length (lcp x p)) (length (lcp y p))"
    and "agree_len nd es d \<le> length p"
    and "prefix (take (agree_len nd es d) p) x" "prefix (take (agree_len nd es d) p) y"
proof -
  note ends = reachesD [OF assms(1,2)]
  show g: "agree_len nd es d = min (length (lcp x p)) (length (lcp y p))"
    using ends assms(3,4) by (simp add: agree_len_def match_len_lcp x_def y_def)
  show "agree_len nd es d \<le> length p" using g lcp_length_le(2) [of x p] by simp
  have "prefix (take g p) z" if "g \<le> length (lcp z p)" for g z
  proof -
    have "take g p = take g (lcp z p)" using lcp_take_drop(2) [of z p] that by (metis min.absorb1 take_take)
    then show ?thesis using lcp_prefix(1) [of z p] take_is_prefix prefix_order.trans by metis
  qed
  then show "prefix (take (agree_len nd es d) p) x" "prefix (take (agree_len nd es d) p) y" using g by simp_all
qed

lemma merge_node_rep:
  assumes kec: "\<And>d. length (kec d) = 32"
  shows "reaches d es \<Longrightarrow> ascending_bits (bits_from d es) \<Longrightarrow> no_empty (bits_from d es) \<Longrightarrow> es \<noteq> [] \<Longrightarrow>
    rep_node kec S nd t \<Longrightarrow> canonical t \<Longrightarrow> csize kec t + psize kec (aputs (bits_from d es) t) < 2 ^ 64 \<Longrightarrow>
    \<exists>m. merge_node kec S nd es d = Some m \<and> rep_node kec S m (aputs (bits_from d es) t)"
proof (induction "weight es d" arbitrary: es d nd t rule: less_induct)
  case less
  let ?bs = "bits_from d es"
  obtain p w a b where t: "t = PN p w a b" using less.prems(5) by (rule rep_nodeE)
  note R = rep_nodeD [OF less.prems(5) [unfolded t]]
  note ag = agree_prefix [OF less.prems(1,4) R(1,2)]
  define c where "c = take (agree_len nd es d) p"
  have lc: "length c = agree_len nd es d" using ag(2) by (simp add: c_def)
  have pre: "\<forall>e \<in> set ?bs. prefix c (fst e)"
    unfolding c_def by (rule common_prefix_all [OF less.prems(2,4) ag(3,4)])
  obtain v L R' where bs: "?bs = here c v @ ext c False L @ ext c True R'"
    using branch_split [OF less.prems(2) pre] by blast
  obtain lo hi where tt: "take_terminating es (d + length c) = (v, lo @ hi)" and pp: "partition_at (lo @ hi) (d + length c) = Some (lo, hi)"
    and lo: "bits_from (Suc (d + length c)) lo = L" "reaches (Suc (d + length c)) lo"
    and hi: "bits_from (Suc (d + length c)) hi = R'" "reaches (Suc (d + length c)) hi"
    using branch_entries [OF bs less.prems(1)] by blast
  have sub: "ascending_bits L" "ascending_bits R'" "no_empty L" "no_empty R'"
    using ascending_branch [OF less.prems(2) [unfolded bs]] less.prems(3) [unfolded bs] by simp_all
  have w: "weight lo (Suc (d + length c)) < weight es d" "weight hi (Suc (d + length c)) < weight es d"
    using weight_branch [OF tt pp le_add1 less.prems(4)] by simp_all
  have ml: "\<exists>r. merge_bulk kec S child lo (Suc (d + length c)) = Some r \<and> rep_ref kec S r (aputs L u)"
    if "rep_ref kec S child u" "canonical u" "csize kec u + psize kec (aputs L u) < 2 ^ 64" for child u
    using merge_bulk_rep [of kec "Suc (d + length c)" lo S child u, OF kec lo(2)] lo(1) sub that
      less.hyps [OF w(1) lo(2), unfolded lo(1), OF sub(1,3)] by simp
  have mh: "\<exists>r. merge_bulk kec S child hi (Suc (d + length c)) = Some r \<and> rep_ref kec S r (aputs R' u)"
    if "rep_ref kec S child u" "canonical u" "csize kec u + psize kec (aputs R' u) < 2 ^ 64" for child u
    using merge_bulk_rep [of kec "Suc (d + length c)" hi S child u, OF kec hi(2)] hi(1) sub that
      less.hyps [OF w(2) hi(2), unfolded hi(1), OF sub(2,4)] by simp
  have pl: "ks_length (shared_path nd) = length p" using ks_length_bits [OF R(1,2)] .
  show ?case
  proof (cases "agree_len nd es d = length p")
    case True
    then have cp: "c = p" by (simp add: c_def)
    let ?v = "case v of Some x \<Rightarrow> Some x | None \<Rightarrow> w"
    have new: "aputs ?bs t = PN p ?v (aputs L a) (aputs R' b)" unfolding bs t cp by (rule aputs_node)
    have fit: "psize kec a + psize kec b + (psize kec (aputs L a) + psize kec (aputs R' b)) < 2 ^ 64"
      using less.prems(7) unfolding new by (simp add: t csize_def)
    have can: "canonical a" "canonical b" using less.prems(6) by (simp_all add: t)
    obtain l where l: "merge_bulk kec S (left nd) lo (Suc (d + length c)) = Some l" "rep_ref kec S l (aputs L a)"
      using ml [OF R(7) can(1)] fit csize_le [of kec a] by auto
    obtain r where r: "merge_bulk kec S (right nd) hi (Suc (d + length c)) = Some r" "rep_ref kec S r (aputs R' b)"
      using mh [OF R(8) can(2)] fit csize_le [of kec b] by auto
    have "rep_node kec S (rebuild_bulk kec S nd (shared_path nd) ?v l r (lo = []) (hi = [])) (PN p ?v (aputs L a) (aputs R' b))"
      using lo(1) hi(1) fit by (intro rebuild_rep [OF kec less.prems(5) [unfolded t] l(2) _ r(2)]) auto
    moreover have "merge_node kec S nd es d = Some (rebuild_bulk kec S nd (shared_path nd) ?v l r (lo = []) (hi = []))"
      by (subst merge_node.simps) (use tt pp l(1) r(1) True less.prems(4) R(3) pl cp in \<open>cases v; simp add: Let_def\<close>)
    ultimately show ?thesis unfolding new by blast
  next
    case False
    then have lt: "agree_len nd es d < length p" using ag(2) by simp
    obtain dd p' where p: "p = c @ dd # p'"
      using lt id_take_nth_drop [OF lt] by (auto simp: c_def)
    let ?old = "PN p' w a b"
    have two: "v \<noteq> None \<or> (if dd then L else R') \<noteq> []"
    proof (rule parting_path [OF less.prems(2) _ _ bs])
      show "?bs \<noteq> []" using less.prems(4) by (simp add: bits_from_def)
      show "length c = min (length (lcp (fst (hd ?bs)) (c @ dd # p'))) (length (lcp (fst (last ?bs)) (c @ dd # p')))"
        using ag(1) lc p less.prems(4) by (simp add: bits_from_def hd_map last_map case_prod_unfold)
    qed
    have new: "aputs ?bs t = PN c v (aputs L (if dd then PE else ?old)) (aputs R' (if dd then ?old else PE))"
      using aputs_cut [OF less.prems(6) [unfolded t p] bs less.prems(3) two] by (simp add: t p)
    have old: "rep_node kec S (pushed_down nd (length c)) ?old" "canonical ?old"
      using pushed_rep less.prems(5,6) t p by auto
    have fit: "psize kec a + psize kec b + (psize kec (aputs L (if dd then PE else ?old)) + psize kec (aputs R' (if dd then ?old else PE))) < 2 ^ 64"
      using less.prems(7) unfolding new by (simp add: t csize_def)
    have bit: "ks_get (shared_path nd) (length c) = (if dd then 1 else 0)"
      using sub_key_facts(2) [OF R(1) R(2) [unfolded p]] .
    have sp: "ks_ok (ks_slice (shared_path nd) 0 (length c))" "ks_bits (ks_slice (shared_path nd) 0 (length c)) = c"
      using R(1,2) pl p by (auto simp: ks_bits_slice_to)
    obtain l where l: "(if dd then build_bulk kec S lo (Suc (d + length c))
          else merge_bulk kec S (Node (pushed_down nd (length c))) lo (Suc (d + length c))) = Some l"
        "rep_ref kec S l (aputs L (if dd then PE else ?old))"
      using build_rep [of kec "Suc (d + length c)" lo S, OF kec lo(2)] lo(1) sub ml [of "Node (pushed_down nd (length c))" ?old] old fit
      by (cases dd) (auto simp: csize_def)
    obtain r where r: "(if dd then merge_bulk kec S (Node (pushed_down nd (length c))) hi (Suc (d + length c))
          else build_bulk kec S hi (Suc (d + length c))) = Some r"
        "rep_ref kec S r (aputs R' (if dd then ?old else PE))"
      using build_rep [of kec "Suc (d + length c)" hi S, OF kec hi(2)] hi(1) sub mh [of "Node (pushed_down nd (length c))" ?old] old fit
      by (cases dd) (auto simp: csize_def)
    have "rep_node kec S (new_parent kec S nd (length c) v l r) (PN c v (aputs L (if dd then PE else ?old)) (aputs R' (if dd then ?old else PE)))"
      unfolding new_parent_def by (rule branch_rep [OF sp l(2) r(2) kec])
    moreover have "merge_node kec S nd es d = Some (new_parent kec S nd (length c) v l r)"
      by (subst merge_node.simps)
        (use tt pp l(1) r(1) False less.prems(4) pl bit lc in \<open>cases dd; simp add: Let_def\<close>)
    ultimately show ?thesis unfolding new by blast
  qed
qed

subsection \<open>A batch against single insertions\<close>

definition puts :: "(bytes \<Rightarrow> b256) \<Rightarrow> (bytes \<Rightarrow> bytes option) \<Rightarrow> entry list \<Rightarrow> trie_node \<Rightarrow> trie_node" where
  "puts kec S es n = fold (\<lambda>(k, v) n. put kec S n k v) es n"

text \<open>No trie on the way exceeds the 64 bits of \<open>children_size\<close>.\<close>

definition puts_fit :: "(bytes \<Rightarrow> b256) \<Rightarrow> entry list \<Rightarrow> ptrie \<Rightarrow> bool" where
  "puts_fit kec es t = (\<forall>i < length es. psize kec (aputs (bits_from 0 (take i es)) t) < 2 ^ 64)"

lemma puts_root:
  assumes kec: "\<And>d. length (kec d) = 32"
  shows "root_rep kec S n t \<Longrightarrow> puts_fit kec es t \<Longrightarrow> reaches 0 es \<Longrightarrow> no_empty (bits_from 0 es) \<Longrightarrow>
    root_rep kec S (puts kec S es n) (aputs (bits_from 0 es) t)"
proof (induction es arbitrary: n t)
  case (Cons e es)
  obtain k v where e: "e = (k, v)" by (cases e)
  have "psize kec t < 2 ^ 64" using Cons.prems(2) by (auto simp: puts_fit_def dest!: spec [of _ 0])
  moreover have "puts_fit kec es (aput t (ks_bits k) v)"
  proof -
    have "psize kec (aputs (bits_from 0 (take (Suc i) ((k, v) # es))) t) < 2 ^ 64" if "i < length es" for i
      using Cons.prems(2) that unfolding puts_fit_def e by (metis Suc_less_eq length_Cons)
    then show ?thesis by (simp add: puts_fit_def)
  qed
  moreover have "v \<noteq> []" "ks_ok k" using Cons.prems(3,4) e by simp_all
  ultimately show ?case
    using Cons.IH [of "put kec S n k v" "aput t (ks_bits k) v"] Cons.prems put_root [of kec v S n t k, OF kec] e
    by (simp add: puts_def)
qed (simp add: puts_def)

lemma build_Node: "build_bulk kec S es d = Some r \<Longrightarrow> es \<noteq> [] \<Longrightarrow> \<exists>m. r = Node m"
  by (subst (asm) build_bulk.simps) (auto simp: Let_def split: list.splits prod.splits option.splits)

lemma aputs_permuted:
  assumes "canonical t" "no_empty (bits_from 0 es)" "ascending_bits (bits_from 0 es)" "mset es' = mset es"
  shows "aputs (bits_from 0 es') t = aputs (bits_from 0 es) t"
proof -
  have m: "mset (bits_from 0 es') = mset (bits_from 0 es)" using assms(4) by (simp add: bits_from_def)
  then have ne: "no_empty (bits_from 0 es')" using assms(2) mset_eq_setD [OF m] by (simp add: no_empty_def)
  have d: "distinct (map fst (bits_from 0 es))"
    using assms(3) by (simp add: ascending_bits_def strict_sorted_iff sorted_wrt_map [symmetric])
  then have d': "distinct (map fst (bits_from 0 es'))" using m by (metis mset_eq_imp_distinct_iff mset_map)
  have "map_of (rev (bits_from 0 es')) = map_of (rev (bits_from 0 es))"
    using d d' m by (intro map_of_inject_set [THEN iffD2]) (auto simp: rev_map [symmetric] dest: mset_eq_setD)
  then show ?thesis
    using canonical_aputs [OF assms(1) ne] canonical_aputs [OF assms(1,2)] aget_aputs by (intro canonical_unique) auto
qed

lemma put_bulk_root:
  assumes kec: "\<And>d. length (kec d) = 32" and root: "root_rep kec S n t"
    and r: "reaches 0 es" and asc: "ascending_bits (bits_from 0 es)" and ne: "no_empty (bits_from 0 es)"
    and fit: "psize kec t + psize kec (aputs (bits_from 0 es) t) < 2 ^ 64"
  shows "\<exists>m. put_bulk kec S n es = Some m \<and> root_rep kec S m (aputs (bits_from 0 es) t)"
proof (cases "es = []")
  case True
  then show ?thesis using root by (simp add: put_bulk_def)
next
  case False
  have can: "canonical t" by (rule root_rep_canonical [OF root])
  note can' = canonical_aputs [OF can ne]
  from False have pe: "aputs (bits_from 0 es) t \<noteq> PE" using can' by (auto simp: bits_from_def)
  show ?thesis
  proof (cases "t = PE")
    case True
    then have "n = tn_empty" using root by (simp add: root_rep_def)
    obtain x where x: "build_bulk kec S es 0 = Some x" "rep_ref kec S x (aputs (bits_from 0 es) t)"
      using build_rep [of kec 0 es S, OF kec r asc ne] True by blast
    then obtain m where m: "x = Node m" "rep_node kec S m (aputs (bits_from 0 es) t)"
      using build_Node [OF x(1) False] by auto
    then show ?thesis using x(1) False \<open>n = tn_empty\<close> pe can' by (simp add: put_bulk_def tn_empty_facts root_rep_def)
  next
    case False
    then have rn: "rep_node kec S n t" using root by (simp add: root_rep_def)
    then have "\<not> is_empty_trie n" using rep_node_shows(5) [OF rn] can by auto
    moreover have "csize kec t + psize kec (aputs (bits_from 0 es) t) < 2 ^ 64" using fit csize_le [of kec t] by linarith
    ultimately show ?thesis
      using merge_node_rep [of kec 0 es S n t, OF kec r asc ne \<open>es \<noteq> []\<close> rn can] pe can' \<open>es \<noteq> []\<close>
      by (simp add: put_bulk_def root_rep_def)
  qed
qed

text \<open>C4. Batch insertion is insertion: on any root that represents a trie, with subtrees in memory or
  only in the store, \<open>put_bulk\<close> of sorted entries with non-empty values returns a root that represents
  the trie of inserting them, and its hash and message are those of inserting the entries one by one
  with \<open>put\<close>, in any order, as long as sizes stay within \<open>children_size\<close>.\<close>

theorem put_bulk_is_puts:
  assumes kec: "\<And>d. length (kec d) = 32" and root: "root_rep kec S n t"
    and es: "entries_ok es" "\<forall>(k, v) \<in> set es. ks_ok k"
    and fit: "psize kec t + psize kec (aputs (bits_from 0 es) t) < 2 ^ 64"
    and es': "mset es' = mset es" "puts_fit kec es' t"
  shows "\<exists>m. put_bulk kec S n es = Some m \<and> root_rep kec S m (aputs (bits_from 0 es) t)
    \<and> compute_hash kec m = compute_hash kec (puts kec S es' n) \<and> to_message kec m = to_message kec (puts kec S es' n)"
proof -
  have r: "reaches 0 es" using es(2) by (auto simp: reaches_def)
  have ne: "no_empty (bits_from 0 es)" using es(1) by (auto simp: entries_ok_def no_empty_def bits_from_def)
  have asc: "ascending_bits (bits_from 0 es)" using es(1) r by (auto simp: entries_ok_def intro: sorted_entries_ascending)
  have can: "canonical t" by (rule root_rep_canonical [OF root])
  obtain m where m: "put_bulk kec S n es = Some m" "root_rep kec S m (aputs (bits_from 0 es) t)"
    using put_bulk_root [OF kec root r asc ne fit] by blast
  have "reaches 0 es'" "no_empty (bits_from 0 es')"
    using r ne es'(1) mset_eq_setD [OF es'(1)] by (auto simp: reaches_def no_empty_def bits_from_def)
  then have p: "root_rep kec S (puts kec S es' n) (aputs (bits_from 0 es) t)"
    using puts_root [of kec S n t es', OF kec root es'(2)] aputs_permuted [OF can ne asc es'(1)] by simp
  show ?thesis using m root_rep_same [OF m(2) p] by blast
qed

definition sample_batch :: "entry list" where
  "sample_batch = [(from_key [0x12], [7]), (from_key [0x12, 0x34], [8]), (from_key [0x80], [9])]"

definition sample_tree :: ptrie where
  "sample_tree = spec_op (OpPut [0x12] [1]) PE"

theorem put_bulk_is_puts_witness:
  "\<exists>m. put_bulk toy_kec Map.empty (apply_op toy_kec Map.empty (OpPut [0x12] [1]) tn_empty) sample_batch = Some m
    \<and> compute_hash toy_kec m
      = compute_hash toy_kec (puts toy_kec Map.empty (rev sample_batch) (apply_op toy_kec Map.empty (OpPut [0x12] [1]) tn_empty))"
proof -
  let ?n = "apply_op toy_kec Map.empty (OpPut [0x12] [1]) tn_empty"
  have root: "root_rep toy_kec Map.empty ?n sample_tree"
    unfolding sample_tree_def by (rule apply_op_root [OF length_toy_kec root_rep_empty]) simp_all
  have sz: "psize toy_kec sample_tree = 4" "psize toy_kec (aputs (bits_from 0 sample_batch) sample_tree) = 57"
    "map (\<lambda>i. psize toy_kec (aputs (bits_from 0 (take i (rev sample_batch))) sample_tree)) [0, 1, 2] = [4, 20, 57]"
    by code_simp+
  have "puts_fit toy_kec (rev sample_batch) sample_tree"
  proof -
    have "i = 0 \<or> i = 1 \<or> i = 2" if "i < length (rev sample_batch)" for i using that by (auto simp: sample_batch_def)
    then show ?thesis unfolding puts_fit_def using sz by fastforce
  qed
  moreover have "entries_ok sample_batch" by code_simp
  moreover have "\<forall>(k, v) \<in> set sample_batch. ks_ok k" by (simp add: sample_batch_def)
  ultimately show ?thesis
    using put_bulk_is_puts [OF length_toy_kec root, where es = sample_batch and es' = "rev sample_batch"] sz
    by auto
qed

end
