(* ===== verification/Key_Mapper.thy ===== *)
theory Key_Mapper
  imports Prelude
begin

text \<open>
  The keys of the unified trie (\<open>crates/trie/src/key_mapper.rs\<close>): accounts, code, storage
  cells and the storage marker share one key space, and \<open>classify_key\<close> recovers what a key
  names. Keccak-256 is the parameter \<open>kec\<close>.
\<close>

definition SECURE_KEY_SIZE :: nat where "SECURE_KEY_SIZE = 10"
definition DOMAIN_PREFIX :: u8 where "DOMAIN_PREFIX = 0x00"
definition STORAGE_PREFIX :: u8 where "STORAGE_PREFIX = 0x00"
definition CODE_PREFIX :: u8 where "CODE_PREFIX = 0x80"
definition MAX_ADDR_LEN :: nat where "MAX_ADDR_LEN = 20"

definition secure_prefix :: "(bytes \<Rightarrow> b256) \<Rightarrow> bytes \<Rightarrow> bytes" where
  "secure_prefix kec data = take SECURE_KEY_SIZE (kec data)"

definition strip_leading_zeros :: "bytes \<Rightarrow> bytes" where
  "strip_leading_zeros data =
     (if \<exists>b \<in> set data. b \<noteq> 0 then dropWhile (\<lambda>b. b = 0) data
      else if data = [] then data
      else drop (length data - 1) data)"

definition account_key_from_bytes :: "(bytes \<Rightarrow> b256) \<Rightarrow> bytes \<Rightarrow> bytes" where
  "account_key_from_bytes kec addr_bytes =
     [DOMAIN_PREFIX] @ secure_prefix kec addr_bytes @ addr_bytes"

definition account_key :: "(bytes \<Rightarrow> b256) \<Rightarrow> address \<Rightarrow> bytes" where
  "account_key kec addr = account_key_from_bytes kec addr"

definition storage_prefix_key :: "(bytes \<Rightarrow> b256) \<Rightarrow> address \<Rightarrow> bytes" where
  "storage_prefix_key kec addr = account_key kec addr @ [STORAGE_PREFIX]"

definition code_key_from_bytes :: "(bytes \<Rightarrow> b256) \<Rightarrow> bytes \<Rightarrow> bytes" where
  "code_key_from_bytes kec addr_bytes = account_key_from_bytes kec addr_bytes @ [CODE_PREFIX]"

definition code_key :: "(bytes \<Rightarrow> b256) \<Rightarrow> address \<Rightarrow> bytes" where
  "code_key kec addr = code_key_from_bytes kec addr"

definition storage_key_from_bytes :: "(bytes \<Rightarrow> b256) \<Rightarrow> bytes \<Rightarrow> bytes \<Rightarrow> bytes" where
  "storage_key_from_bytes kec addr_bytes slot_bytes =
     (let acct_key = account_key_from_bytes kec addr_bytes;
          stripped = strip_leading_zeros slot_bytes;
          slot_prefix = secure_prefix kec slot_bytes
      in acct_key @ [STORAGE_PREFIX] @ slot_prefix @ stripped)"

definition storage_key :: "(bytes \<Rightarrow> b256) \<Rightarrow> address \<Rightarrow> b256 \<Rightarrow> bytes" where
  "storage_key kec addr slot = storage_key_from_bytes kec addr slot"

datatype trie_key_kind =
    Account bytes
  | Code bytes
  | StoragePrefix bytes
  | Storage bytes "b256 option" bytes
  | Unknown

definition recover_address :: "(bytes \<Rightarrow> b256) \<Rightarrow> bytes \<Rightarrow> bytes option" where
  "recover_address kec key =
     (if key = [] \<or> hd key \<noteq> DOMAIN_PREFIX \<or> length key < 1 + SECURE_KEY_SIZE + 1 then None
      else
        let body = drop (1 + SECURE_KEY_SIZE) key;
            claimed = slice_of 1 (1 + SECURE_KEY_SIZE) key;
            mx = min MAX_ADDR_LEN (length body)
        in case List.find (\<lambda>len. secure_prefix kec (take len body) = claimed) (rev [1..<mx + 1]) of
             Some len \<Rightarrow> Some (take len body)
           | None \<Rightarrow> None)"

definition recover_slot :: "(bytes \<Rightarrow> b256) \<Rightarrow> bytes \<Rightarrow> bytes \<Rightarrow> b256 option" where
  "recover_slot kec claimed tail =
     (if 32 < length tail then None
      else
        let word = replicate (32 - length tail) 0 @ tail
        in if secure_prefix kec word = claimed then Some word else None)"

definition classify_key :: "(bytes \<Rightarrow> b256) \<Rightarrow> bytes \<Rightarrow> trie_key_kind" where
  "classify_key kec key =
     (case recover_address kec key of
        None \<Rightarrow> Unknown
      | Some addr \<Rightarrow>
          let rest = drop (1 + SECURE_KEY_SIZE + length addr) key
          in case rest of
               [] \<Rightarrow> Account addr
             | p # slot_part \<Rightarrow>
                 if slot_part = [] \<and> p = CODE_PREFIX then Code addr
                 else if slot_part = [] \<and> p = STORAGE_PREFIX then StoragePrefix addr
                 else if p = STORAGE_PREFIX \<and> SECURE_KEY_SIZE < length slot_part then
                   let claimed = take SECURE_KEY_SIZE slot_part;
                       tail = drop SECURE_KEY_SIZE slot_part
                   in Storage addr (recover_slot kec claimed tail) tail
                 else Unknown)"

subsection \<open>Leading zeros\<close>

lemma dropWhile_zeros:
  "\<exists>n. data = replicate n 0 @ dropWhile (\<lambda>b. b = 0) data" for data :: bytes
proof -
  have "takeWhile (\<lambda>b. b = 0) data = replicate (length (takeWhile (\<lambda>b. b = 0) data)) 0"
    by (rule replicate_eqI) (auto dest: set_takeWhileD)
  then show ?thesis by (metis takeWhile_dropWhile_id)
qed

lemma strip_pads:
  assumes "data \<noteq> []"
  shows "strip_leading_zeros data \<noteq> []" "length (strip_leading_zeros data) \<le> length data"
    "replicate (length data - length (strip_leading_zeros data)) 0 @ strip_leading_zeros data = data"
proof -
  have "strip_leading_zeros data \<noteq> [] \<and> length (strip_leading_zeros data) \<le> length data
    \<and> replicate (length data - length (strip_leading_zeros data)) 0 @ strip_leading_zeros data = data"
  proof (cases "\<exists>b \<in> set data. b \<noteq> 0")
    case True
    obtain n where n: "data = replicate n 0 @ dropWhile (\<lambda>b. b = 0) data"
      using dropWhile_zeros by blast
    let ?d = "dropWhile (\<lambda>b. b = 0) data"
    have "length data = n + length ?d" using arg_cong [OF n, of length] by simp
    then have "replicate (length data - length ?d) 0 @ ?d = data" using n by simp
    moreover have "?d \<noteq> []" using True by (auto simp: dropWhile_eq_Nil_conv)
    ultimately show ?thesis using True by (simp add: strip_leading_zeros_def length_dropWhile_le)
  next
    case False
    then have z: "data = replicate (length data) 0" by (intro replicate_eqI) auto
    obtain m where m: "length data = Suc m" using assms by (cases data) auto
    have "strip_leading_zeros data = [0]"
      using False assms m z by (simp add: strip_leading_zeros_def) (metis diff_Suc_1' drop_replicate
          Suc_diff_le le_refl diff_self_eq_0 replicate.simps)
    then show ?thesis using m z by (simp add: replicate_append_same flip: replicate_Suc)
  qed
  then show "strip_leading_zeros data \<noteq> []" "length (strip_leading_zeros data) \<le> length data"
    "replicate (length data - length (strip_leading_zeros data)) 0 @ strip_leading_zeros data = data"
    by auto
qed

subsection \<open>Classification inverts the key builders\<close>

lemma length_secure_prefix:
  "(\<And>d. length (kec d) = 32) \<Longrightarrow> length (secure_prefix kec data) = 10"
  by (simp add: secure_prefix_def SECURE_KEY_SIZE_def)

lemma recover_address_key:
  assumes kec: "\<And>d. length (kec d) = 32" and addr: "length addr = 20"
  shows "recover_address kec (account_key_from_bytes kec addr @ rest) = Some addr"
proof -
  have p: "length (secure_prefix kec addr) = 10" using length_secure_prefix [of kec, OF kec] .
  let ?key = "account_key_from_bytes kec addr @ rest"
  have parts: "drop 11 ?key = addr @ rest" "slice_of 1 11 ?key = secure_prefix kec addr"
    "length ?key = 31 + length rest" "hd ?key = DOMAIN_PREFIX" "?key \<noteq> []"
    using p addr by (simp_all add: account_key_from_bytes_def slice_of_def)
  have mx: "min MAX_ADDR_LEN (length (addr @ rest)) = 20" using addr by (simp add: MAX_ADDR_LEN_def)
  have "rev [1..<20 + 1] = 20 # rev [1..<20]" by (simp add: upt_rec)
  then have "List.find (\<lambda>len. secure_prefix kec (take len (addr @ rest)) = secure_prefix kec addr)
      (rev [1..<20 + 1]) = Some 20"
    using addr by simp
  then show ?thesis
    using parts mx addr by (simp add: recover_address_def Let_def SECURE_KEY_SIZE_def)
qed

lemma drop_account_key:
  assumes kec: "\<And>d. length (kec d) = 32"
  shows "drop (1 + SECURE_KEY_SIZE + length addr) (account_key_from_bytes kec addr @ rest) = rest"
proof -
  have "1 + SECURE_KEY_SIZE + length addr = length (account_key_from_bytes kec addr)"
    using length_secure_prefix [of kec addr, OF kec]
    by (simp add: account_key_from_bytes_def SECURE_KEY_SIZE_def)
  then show ?thesis by simp
qed

lemma classify_account_key:
  assumes kec: "\<And>d. length (kec d) = 32" and addr: "length addr = 20"
  shows "classify_key kec (account_key kec addr) = Account addr"
    and "classify_key kec (code_key kec addr) = Code addr"
    and "classify_key kec (storage_prefix_key kec addr) = StoragePrefix addr"
  using recover_address_key [of kec addr "[]", OF kec addr] drop_account_key [of kec addr "[]", OF kec]
    recover_address_key [of kec addr "[CODE_PREFIX]", OF kec addr] drop_account_key [of kec addr "[CODE_PREFIX]", OF kec]
    recover_address_key [of kec addr "[STORAGE_PREFIX]", OF kec addr] drop_account_key [of kec addr "[STORAGE_PREFIX]", OF kec]
  by (simp_all add: classify_key_def account_key_def code_key_def code_key_from_bytes_def
      storage_prefix_key_def CODE_PREFIX_def STORAGE_PREFIX_def)

lemma classify_storage_key:
  assumes kec: "\<And>d. length (kec d) = 32" and addr: "length addr = 20" and slot: "length slot = 32"
  shows "classify_key kec (storage_key kec addr slot) =
    Storage addr (Some slot) (strip_leading_zeros slot)"
proof -
  have ne: "slot \<noteq> []" using slot by auto
  note s = strip_pads [OF ne]
  let ?rest = "STORAGE_PREFIX # secure_prefix kec slot @ strip_leading_zeros slot"
  have p: "length (secure_prefix kec slot) = 10" using length_secure_prefix [of kec, OF kec] .
  have "recover_slot kec (secure_prefix kec slot) (strip_leading_zeros slot) = Some slot"
    using s slot by (simp add: recover_slot_def Let_def)
  moreover have "0 < length (strip_leading_zeros slot)" using s(1) by simp
  ultimately show ?thesis
    using recover_address_key [of kec addr ?rest, OF kec addr] drop_account_key [of kec addr ?rest, OF kec] p s(1)
    by (simp add: classify_key_def storage_key_def storage_key_from_bytes_def Let_def SECURE_KEY_SIZE_def)
qed

text \<open>
  C37. A trie key names one cell. For 20-byte addresses and 32-byte slots \<open>classify_key\<close> recovers the
  address, the kind of cell and the full slot from every key the builders make, with no assumption
  on Keccak but its output length; so different cells never share a key.
\<close>

theorem classify_key_inverts:
  assumes kec: "\<And>d. length (kec d) = 32" and addr: "length addr = 20" and slot: "length slot = 32"
  shows "classify_key kec (account_key kec addr) = Account addr
    \<and> classify_key kec (code_key kec addr) = Code addr
    \<and> classify_key kec (storage_prefix_key kec addr) = StoragePrefix addr
    \<and> classify_key kec (storage_key kec addr slot) = Storage addr (Some slot) (strip_leading_zeros slot)"
  using classify_account_key [of kec addr, OF kec addr] classify_storage_key [of kec addr slot, OF kec addr slot] by simp

theorem classify_key_inverts_witness:
  "let kec = (\<lambda>d. take 32 (d @ replicate 32 0))
   in classify_key kec (storage_key kec (replicate 20 7) (replicate 31 0 @ [5])) =
      Storage (replicate 20 7) (Some (replicate 31 0 @ [5])) (strip_leading_zeros (replicate 31 0 @ [5]))"
  using classify_key_inverts [of "\<lambda>d. take 32 (d @ replicate 32 0)" "replicate 20 7" "replicate 31 0 @ [5]"]
  by (simp add: Let_def)

text \<open>Storage cells of different accounts or slots have different trie keys, and a storage cell never
  has the key of an account, of code or of a storage marker.
\<close>

theorem storage_keys_distinct:
  assumes kec: "\<And>d. length (kec d) = 32"
    and "length a = 20" "length b = 20" "length s = 32" "length t = 32"
  shows "(storage_key kec a s = storage_key kec b t) = (a = b \<and> s = t)
    \<and> storage_key kec a s \<noteq> account_key kec b \<and> storage_key kec a s \<noteq> code_key kec b
    \<and> storage_key kec a s \<noteq> storage_prefix_key kec b"
  using classify_storage_key [of kec a s, OF kec assms(2,4)] classify_storage_key [of kec b t, OF kec assms(3,5)]
    classify_account_key [of kec b, OF kec assms(3)]
  by (metis option.inject trie_key_kind.distinct trie_key_kind.inject(4))

theorem storage_keys_distinct_witness:
  "let kec = (\<lambda>d. take 32 (d @ replicate 32 0))
   in storage_key kec (replicate 20 7) (replicate 32 0) \<noteq> storage_key kec (replicate 20 7) (replicate 31 0 @ [1])"
proof -
  have "replicate 32 (0 :: u8) \<noteq> replicate 31 0 @ [1]" by (simp add: numeral_eq_Suc)
  then show ?thesis
    using storage_keys_distinct [of "\<lambda>d. take 32 (d @ replicate 32 0)" "replicate 20 7" "replicate 20 7"
        "replicate 32 0" "replicate 31 0 @ [1]"] by (simp add: Let_def)
qed

end
