(* ===== verification/Raw_Storage.thy ===== *)
theory Raw_Storage
  imports Trie_Root Key_Mapper
begin

text \<open>
  The overlay of raw storage cells of the block being executed
  (\<open>crates/execution/src/raw_storage.rs\<close>), and that it behaves as a map with two levels of
  snapshots: one per precompile call, one per transaction. The reader of the parent state is the
  function of its store and its root.
\<close>

subsection \<open>Definitions\<close>

type_synonym raw_write = "address \<times> u256 \<times> bytes option"

record raw_storage =
  rs_committed :: "raw_write list"
  rs_pending :: "raw_write list"
  rs_tx_start :: nat
  rs_reader :: "((bytes \<Rightarrow> bytes option) \<times> trie_node) option"

definition rs_default :: raw_storage where
  "rs_default = \<lparr> rs_committed = [], rs_pending = [], rs_tx_start = 0, rs_reader = None \<rparr>"

definition set_reader :: "(bytes \<Rightarrow> bytes option) \<Rightarrow> trie_node \<Rightarrow> raw_storage \<Rightarrow> raw_storage" where
  "set_reader store root s = s\<lparr> rs_reader := Some (store, root) \<rparr>"

definition get_overlay :: "address \<Rightarrow> u256 \<Rightarrow> raw_storage \<Rightarrow> bytes option option" where
  "get_overlay addr key s =
     map_option (\<lambda>(a, k, v). v)
       (List.find (\<lambda>(a, k, v). a = addr \<and> k = key) (rev (rs_pending s) @ rev (rs_committed s)))"

definition b256_of :: "u256 \<Rightarrow> b256" where
  "b256_of v = to_be 32 (unat v)"

definition get_from_trie :: "(bytes \<Rightarrow> b256) \<Rightarrow> address \<Rightarrow> u256 \<Rightarrow> raw_storage \<Rightarrow> bytes option" where
  "get_from_trie kec addr key s =
     (case rs_reader s of
        None \<Rightarrow> None
      | Some (store, root) \<Rightarrow> get kec store root (from_key (storage_key kec addr (b256_of key))))"

definition raw_get :: "(bytes \<Rightarrow> b256) \<Rightarrow> address \<Rightarrow> u256 \<Rightarrow> raw_storage \<Rightarrow> bytes option" where
  "raw_get kec addr key s =
     (case get_overlay addr key s of Some v \<Rightarrow> v | None \<Rightarrow> get_from_trie kec addr key s)"

definition raw_put :: "address \<Rightarrow> u256 \<Rightarrow> bytes option \<Rightarrow> raw_storage \<Rightarrow> raw_storage" where
  "raw_put addr key v s =
     s\<lparr> rs_pending := rs_pending s @ [(addr, key, (case v of Some x \<Rightarrow> if x \<noteq> [] then Some x else None | None \<Rightarrow> None))] \<rparr>"

definition commit_call :: "raw_storage \<Rightarrow> raw_storage" where
  "commit_call s = s\<lparr> rs_committed := rs_committed s @ rs_pending s, rs_pending := [] \<rparr>"

definition discard_call :: "raw_storage \<Rightarrow> raw_storage" where
  "discard_call s = s\<lparr> rs_pending := [] \<rparr>"

definition begin_tx :: "raw_storage \<Rightarrow> raw_storage" where
  "begin_tx s = s\<lparr> rs_tx_start := length (rs_committed s) \<rparr>"

definition discard_tx :: "raw_storage \<Rightarrow> raw_storage" where
  "discard_tx s = s\<lparr> rs_committed := take (rs_tx_start s) (rs_committed s), rs_pending := [] \<rparr>"

text \<open>\<open>None\<close> is the panic of a slice that starts past the end.\<close>

definition tx_writes :: "raw_storage \<Rightarrow> raw_write list option" where
  "tx_writes s =
     (if rs_tx_start s \<le> length (rs_committed s) then Some (drop (rs_tx_start s) (rs_committed s)) else None)"

definition drain :: "raw_storage \<Rightarrow> raw_write list \<times> raw_storage" where
  "drain s = (rs_committed s, s\<lparr> rs_pending := [], rs_tx_start := 0, rs_committed := [] \<rparr>)"

subsection \<open>The overlay as nested snapshots\<close>

type_synonym cells = "address \<times> u256 \<Rightarrow> bytes option"

text \<open>The cells before the block, at the start of the transaction, after the last committed call and now.\<close>

record snapshots =
  sn_parent :: cells
  sn_tx :: cells
  sn_call :: cells
  sn_now :: cells

datatype raw_op =
  RPut address u256 "bytes option" | RCommitCall | RDiscardCall | RBeginTx | RDiscardTx

fun raw_step :: "raw_op \<Rightarrow> raw_storage \<Rightarrow> raw_storage" where
  "raw_step (RPut a k v) s = raw_put a k v s"
| "raw_step RCommitCall s = commit_call s"
| "raw_step RDiscardCall s = discard_call s"
| "raw_step RBeginTx s = begin_tx s"
| "raw_step RDiscardTx s = discard_tx s"

fun snap_step :: "raw_op \<Rightarrow> snapshots \<Rightarrow> snapshots" where
  "snap_step (RPut a k v) n = n\<lparr> sn_now := (sn_now n)((a, k) := (if v = Some [] then None else v)) \<rparr>"
| "snap_step RCommitCall n = n\<lparr> sn_call := sn_now n \<rparr>"
| "snap_step RDiscardCall n = n\<lparr> sn_now := sn_call n \<rparr>"
| "snap_step RBeginTx n = n\<lparr> sn_tx := sn_call n \<rparr>"
| "snap_step RDiscardTx n = n\<lparr> sn_call := sn_tx n, sn_now := sn_tx n \<rparr>"

definition parent_cells :: "(bytes \<Rightarrow> b256) \<Rightarrow> (bytes \<Rightarrow> bytes option) \<Rightarrow> trie_node \<Rightarrow> cells" where
  "parent_cells kec store root = (\<lambda>(a, k). get kec store root (from_key (storage_key kec a (b256_of k))))"

definition snap_start :: "cells \<Rightarrow> snapshots" where
  "snap_start m = \<lparr> sn_parent = m, sn_tx = m, sn_call = m, sn_now = m \<rparr>"

definition apply_raw :: "raw_write list \<Rightarrow> cells \<Rightarrow> cells" where
  "apply_raw ws m = fold (\<lambda>(a, k, v) m. m((a, k) := v)) ws m"

definition snap_rel :: "(bytes \<Rightarrow> b256) \<Rightarrow> raw_storage \<Rightarrow> snapshots \<Rightarrow> bool" where
  "snap_rel kec s n =
     (rs_tx_start s \<le> length (rs_committed s)
      \<and> sn_parent n = (\<lambda>(a, k). get_from_trie kec a k s)
      \<and> sn_tx n = apply_raw (take (rs_tx_start s) (rs_committed s)) (sn_parent n)
      \<and> sn_call n = apply_raw (rs_committed s) (sn_parent n)
      \<and> sn_now n = apply_raw (rs_pending s) (sn_call n))"

lemma apply_raw_append: "apply_raw (xs @ ys) m = apply_raw ys (apply_raw xs m)"
  by (simp add: apply_raw_def)

lemma apply_raw_find:
  "apply_raw ws m (a, k) =
     (case List.find (\<lambda>(a', k', v). a' = a \<and> k' = k) (rev ws) of Some (_, _, v) \<Rightarrow> v | None \<Rightarrow> m (a, k))"
proof (induction ws rule: rev_induct)
  case Nil
  then show ?case by (simp add: apply_raw_def)
next
  case (snoc w ws)
  obtain a' k' v where w: "w = (a', k', v)" by (cases w)
  show ?case using snoc by (auto simp: w apply_raw_append apply_raw_def [of "[_]"])
qed

lemma raw_get_now: "snap_rel kec s n \<Longrightarrow> raw_get kec a k s = sn_now n (a, k)"
  using apply_raw_find [of "rs_committed s @ rs_pending s" "sn_parent n" a k]
  by (auto simp: snap_rel_def raw_get_def get_overlay_def apply_raw_append split: option.splits prod.splits)

lemma raw_step_rel:
  assumes "snap_rel kec s n"
  shows "snap_rel kec (raw_step x s) (snap_step x n)"
proof -
  have reader: "get_from_trie kec a k (raw_step x s) = get_from_trie kec a k s" for a k
    by (cases x) (simp_all add: get_from_trie_def raw_put_def commit_call_def discard_call_def begin_tx_def discard_tx_def)
  show ?thesis
  proof (cases x)
    case (RPut a k v)
    then show ?thesis
      using assms reader
      by (auto simp: snap_rel_def raw_put_def apply_raw_append apply_raw_def [of "[_]"] split: option.splits)
  qed (use assms reader in \<open>auto simp: snap_rel_def commit_call_def discard_call_def begin_tx_def discard_tx_def
      apply_raw_append apply_raw_def [of "[]"] min_def\<close>)
qed

text \<open>C17. The overlay is a map with snapshots: from the start of a block, after any sequence of writes,
  committed and discarded calls, and started and discarded transactions, a read returns the value of
  the map in which a discarded call goes back to the last committed one and a discarded transaction
  to its start; the drained writes turn the parent's cells into those of the last committed call, and
  the writes of the current transaction are the difference to its start.\<close>

theorem raw_storage_snapshots:
  "let s = fold raw_step ops (set_reader store root rs_default);
       n = fold snap_step ops (snap_start (parent_cells kec store root))
   in raw_get kec a k s = sn_now n (a, k)
      \<and> apply_raw (fst (drain s)) (parent_cells kec store root) = sn_call n
      \<and> (\<exists>ws. tx_writes s = Some ws \<and> apply_raw ws (sn_tx n) = sn_call n)"
proof -
  define s where "s = fold raw_step ops (set_reader store root rs_default)"
  define n where "n = fold snap_step ops (snap_start (parent_cells kec store root))"
  have run: "snap_rel kec (fold raw_step ops s0) (fold snap_step ops n0) \<and> sn_parent (fold snap_step ops n0) = sn_parent n0"
    if "snap_rel kec s0 n0" for s0 n0
    using that
  proof (induction ops arbitrary: s0 n0)
    case (Cons x ops)
    have "sn_parent (snap_step x n0) = sn_parent n0" by (cases x) simp_all
    then show ?case using Cons.IH [OF raw_step_rel [OF Cons.prems]] by simp
  qed simp
  have "snap_rel kec (set_reader store root rs_default) (snap_start (parent_cells kec store root))"
    by (auto simp: snap_rel_def set_reader_def rs_default_def apply_raw_def get_from_trie_def parent_cells_def snap_start_def)
  from run [OF this] have rel: "snap_rel kec s n" "sn_parent n = parent_cells kec store root"
    by (simp_all add: s_def n_def snap_start_def)
  have "apply_raw (drop (rs_tx_start s) (rs_committed s)) (sn_tx n) = sn_call n"
    using rel by (simp add: snap_rel_def apply_raw_append [symmetric])
  then have "raw_get kec a k s = sn_now n (a, k) \<and> apply_raw (fst (drain s)) (parent_cells kec store root) = sn_call n
      \<and> (\<exists>ws. tx_writes s = Some ws \<and> apply_raw ws (sn_tx n) = sn_call n)"
    using raw_get_now [OF rel(1)] rel by (auto simp: snap_rel_def drain_def tx_writes_def)
  then show ?thesis by (simp add: s_def n_def Let_def)
qed

end
