(* ===== verification/Chain_Types.thy ===== *)
theory Chain_Types
  imports Prelude
begin

text \<open>
  The data of the chain (\<open>crates/core/src/types\<close>, \<open>crates/core/src/config.rs\<close>): headers,
  transactions, blocks, activation heights and network parameters. A hash, an address and a byte
  string are lists of bytes. The hash of a header, which the code takes over its RLP encoding or
  from a cache filled at decoding, is a parameter of the definitions that use it.
\<close>

record header_version_fields =
  hv_version :: u8
  hv_edges :: "16 word list option"
  hv_base_event :: "bytes option"

record header =
  parent_hash :: b256
  ommers_hash :: b256
  beneficiary :: address
  state_root :: b256
  transactions_root :: b256
  receipts_root :: b256
  logs_bloom :: bytes
  extension_data :: "bytes option"
  difficulty :: u256
  hd_number :: u64
  gas_limit :: u256
  gas_used :: u64
  timestamp :: u64
  extra_data :: bytes
  paid_fees :: u256
  minimum_gas_price :: u256
  uncle_count :: u64
  umm_root :: "bytes option"
  version_fields :: "header_version_fields option"
  bitcoin_merged_mining_header :: "bytes option"
  bitcoin_merged_mining_merkle_proof :: "bytes option"
  bitcoin_merged_mining_coinbase_transaction :: "bytes option"
  cached_hash :: "b256 option"
  cached_hash_for_merged_mining :: "b256 option"

record transaction =
  tx_nonce :: u64
  tx_gas_price :: u256
  tx_gas_limit :: u256
  tx_to :: bytes
  tx_value :: u256
  tx_input :: bytes
  tx_v :: u64
  tx_r :: u256
  tx_s :: u256
  tx_cached_rlp :: "bytes option"

record block =
  blk_header :: header
  blk_transactions :: "transaction list"
  blk_ommers :: "header list"

definition tx_eq :: "transaction \<Rightarrow> transaction \<Rightarrow> bool" where
  "tx_eq a b = (tx_nonce a = tx_nonce b \<and> tx_gas_price a = tx_gas_price b
     \<and> tx_gas_limit a = tx_gas_limit b \<and> tx_to a = tx_to b \<and> tx_value a = tx_value b
     \<and> tx_input a = tx_input b \<and> tx_v a = tx_v b \<and> tx_r a = tx_r b \<and> tx_s a = tx_s b)"

definition tx_default :: transaction where
  "tx_default = \<lparr> tx_nonce = 0, tx_gas_price = 0, tx_gas_limit = 0, tx_to = [], tx_value = 0,
     tx_input = [], tx_v = 0, tx_r = 0, tx_s = 0, tx_cached_rlp = None \<rparr>"

subsection \<open>Network parameters\<close>

definition u64_max :: u64 where "u64_max = - 1"

record activation_heights =
  orchid :: u64
  wasabi100 :: u64
  papyrus200 :: u64
  iris300 :: u64
  fingerroot500 :: u64
  hop400 :: u64
  rskip97 :: "u64 option"

definition activation_mainnet :: activation_heights where
  "activation_mainnet = \<lparr> orchid = 729000, wasabi100 = 1591000, papyrus200 = 2392700,
     iris300 = 3614800, fingerroot500 = 5468000, hop400 = 4598500, rskip97 = Some 729000 \<rparr>"

definition activation_testnet :: activation_heights where
  "activation_testnet = \<lparr> orchid = 0, wasabi100 = 0, papyrus200 = 863000,
     iris300 = 2060500, fingerroot500 = 4015800, hop400 = 3103000, rskip97 = None \<rparr>"

definition activation_regtest :: activation_heights where
  "activation_regtest = \<lparr> orchid = 0, wasabi100 = 0, papyrus200 = u64_max,
     iris300 = 0, fingerroot500 = 0, hop400 = 0, rskip97 = None \<rparr>"

record chain_config =
  chain_id :: u8
  network_id :: u64
  duration_limit :: u64
  difficulty_divisor :: u256
  min_difficulty :: u256
  max_future_block_time :: u64
  gas_limit_bound_divisor :: u64
  min_gas_limit :: u64
  max_gas_limit :: u64
  min_sequential_set_gas_limit :: u64
  activations :: activation_heights

definition config_mainnet :: chain_config where
  "config_mainnet = \<lparr> chain_id = 30, network_id = 775, duration_limit = 14, difficulty_divisor = 50,
     min_difficulty = 7000000000000000, max_future_block_time = 60, gas_limit_bound_divisor = 1024,
     min_gas_limit = 3000000, max_gas_limit = 1000000000, min_sequential_set_gas_limit = 10000000,
     activations = activation_mainnet \<rparr>"

definition config_testnet :: chain_config where
  "config_testnet = \<lparr> chain_id = 31, network_id = 8100, duration_limit = 14, difficulty_divisor = 50,
     min_difficulty = 131072, max_future_block_time = 540, gas_limit_bound_divisor = 1024,
     min_gas_limit = 3000000, max_gas_limit = 1000000000, min_sequential_set_gas_limit = 10000000,
     activations = activation_testnet \<rparr>"

definition config_regtest :: chain_config where
  "config_regtest = \<lparr> chain_id = 33, network_id = 7771, duration_limit = 10, difficulty_divisor = 2048,
     min_difficulty = 1, max_future_block_time = 0, gas_limit_bound_divisor = 1024,
     min_gas_limit = 3000000, max_gas_limit = 10000000, min_sequential_set_gas_limit = 6800000,
     activations = activation_regtest \<rparr>"

subsection \<open>Java integers\<close>

definition java_signed_bytes :: "u256 \<Rightarrow> bytes" where
  "java_signed_bytes v =
     (if v = 0 then [0]
      else
        let trimmed = dropWhile (\<lambda>b. b = 0) (to_be 32 (unat v))
        in if hd trimmed AND 0x80 \<noteq> 0 then 0 # trimmed else trimmed)"

fun rlp_to_shorts :: "bytes \<Rightarrow> 16 word list" where
  "rlp_to_shorts (a # b # rest) = of_nat (from_le [a, b]) # rlp_to_shorts rest"
| "rlp_to_shorts _ = []"

lemma from_be_dropWhile: "from_be (dropWhile (\<lambda>b. b = 0) bs) = from_be bs"
  by (induction bs) (auto simp: from_be_Cons)

lemma from_be_0_iff: "from_be bs = 0 \<longleftrightarrow> (\<forall>b \<in> set bs. b = 0)"
  by (induction bs) (auto simp: from_be_Cons unat_eq_0)

text \<open>
  C38. The signed form of a 256-bit value reads back: the bytes are the value in big-endian order, the
  sign bit is clear, and no shorter byte string with a clear sign bit has the same value (a leading
  zero byte is there only for zero or to clear the sign bit).
\<close>

theorem java_signed_bytes_correct:
  "from_be (java_signed_bytes v) = unat v \<and> java_signed_bytes v \<noteq> []
   \<and> hd (java_signed_bytes v) AND 0x80 = 0
   \<and> (length (java_signed_bytes v) = 1 \<or> hd (java_signed_bytes v) \<noteq> 0
      \<or> java_signed_bytes v ! 1 AND 0x80 \<noteq> 0)"
proof (cases "v = 0")
  case True
  then show ?thesis by (simp add: java_signed_bytes_def from_be_Cons)
next
  case False
  let ?be = "to_be 32 (unat v)"
  let ?t = "dropWhile (\<lambda>b. b = 0) ?be"
  have "unat v < 2 ^ LENGTH(256)" by (rule unsigned_less)
  then have val: "from_be ?be = unat v" by (simp add: from_be_to_be)
  have "from_be ?be \<noteq> 0" using False val by (simp add: unat_eq_0)
  then have ne: "?t \<noteq> []" by (auto simp: from_be_0_iff dropWhile_eq_Nil_conv)
  then have "hd ?t \<noteq> 0" using hd_dropWhile [of "\<lambda>b. b = 0" ?be] by simp
  then show ?thesis
    using False ne val
    by (cases ?t) (auto simp: java_signed_bytes_def Let_def from_be_Cons from_be_dropWhile
        dest: arg_cong [of _ _ from_be])
qed

theorem java_signed_bytes_correct_witness:
  "from_be (java_signed_bytes 128) = 128 \<and> hd (java_signed_bytes 128) AND 0x80 = 0"
  using java_signed_bytes_correct [of 128] by simp

subsection \<open>Sample headers\<close>

text \<open>Headers told apart by height and a tag, and a stand-in for the hash that is injective on them.\<close>

definition sample_header :: "u64 \<Rightarrow> u8 \<Rightarrow> b256 \<Rightarrow> header" where
  "sample_header n t p =
     \<lparr> parent_hash = p, ommers_hash = [], beneficiary = [], state_root = [t], transactions_root = [],
       receipts_root = [], logs_bloom = [], extension_data = None, difficulty = 1, hd_number = n,
       gas_limit = 0, gas_used = 0, timestamp = 0, extra_data = [t], paid_fees = 0,
       minimum_gas_price = 0, uncle_count = 0, umm_root = None, version_fields = None,
       bitcoin_merged_mining_header = None, bitcoin_merged_mining_merkle_proof = None,
       bitcoin_merged_mining_coinbase_transaction = None, cached_hash = None,
       cached_hash_for_merged_mining = None \<rparr>"

definition sample_hash :: "header \<Rightarrow> b256" where
  "sample_hash h = ucast (hd_number h) # extra_data h"

end
