(* ===== verification/Account_State.thy ===== *)
theory Account_State
  imports Chain_Types "HOL-Library.Monad_Syntax"
begin

text \<open>
  The record of an account in the state trie (\<open>crates/trie/src/account.rs\<close>). The operations of
  the \<open>alloy_rlp\<close> crate are the fields of \<open>rlp_ops\<close>, with what its documentation promises as
  \<open>rlp_laws\<close>. A decoder returns \<open>None\<close> where the code panics, and a constructor of \<open>account_error\<close>
  where it returns an error.
\<close>

subsection \<open>Definitions\<close>

record rlp_ops =
  rlp_uint :: "u256 \<Rightarrow> bytes"
  rlp_string :: "bytes \<Rightarrow> bytes"
  rlp_list_header :: "nat \<Rightarrow> bytes"
  rlp_decode_header :: "bytes \<Rightarrow> (bool \<times> nat \<times> bytes) option"
  rlp_decode_uint :: "bytes \<Rightarrow> (u256 \<times> bytes) option"

record account_state =
  as_nonce :: u256
  as_balance :: u256
  as_flags :: u32

definition as_default :: account_state where
  "as_default = \<lparr> as_nonce = 0, as_balance = 0, as_flags = 0 \<rparr>"

definition as_new :: "u256 \<Rightarrow> u256 \<Rightarrow> account_state" where
  "as_new n b = \<lparr> as_nonce = n, as_balance = b, as_flags = 0 \<rparr>"

definition encode_coin_nonnull_zero :: "rlp_ops \<Rightarrow> u256 \<Rightarrow> bytes" where
  "encode_coin_nonnull_zero rlp balance =
     (if balance = 0 then [0x00]
      else
        let be = to_be 32 (unat balance);
            trimmed = dropWhile (\<lambda>b. b = 0) be;
            signed = (if hd trimmed AND 0x80 \<noteq> 0 then 0 # trimmed else trimmed)
        in rlp_string rlp signed)"

definition encode_u32 :: "rlp_ops \<Rightarrow> u32 \<Rightarrow> bytes" where
  "encode_u32 rlp v = rlp_uint rlp (ucast v)"

definition as_encode :: "rlp_ops \<Rightarrow> account_state \<Rightarrow> bytes" where
  "as_encode rlp a =
     (let nonce_enc = rlp_uint rlp (as_nonce a);
          balance_enc = encode_coin_nonnull_zero rlp (as_balance a)
      in if as_flags a \<noteq> 0 then
           let flags_enc = encode_u32 rlp (as_flags a)
           in rlp_list_header rlp (length nonce_enc + length balance_enc + length flags_enc)
              @ nonce_enc @ balance_enc @ flags_enc
         else rlp_list_header rlp (length nonce_enc + length balance_enc) @ nonce_enc @ balance_enc)"

datatype account_error = RlpError | NotAList | CoinEmpty | ShortTruncated | LongHeaderTruncated | LongTruncated | CoinTooLong

definition coin_value :: "bytes \<Rightarrow> bytes \<Rightarrow> account_error + u256 \<times> bytes" where
  "coin_value bs rest =
     (let digits = dropWhile (\<lambda>b. b = 0) bs
      in if 32 < length digits then Inl CoinTooLong else Inr (of_nat (from_be digits), rest))"

text \<open>The length of a long string is computed in \<open>usize\<close>, and so is the end of the slice.\<close>

definition decode_coin :: "bytes \<Rightarrow> (account_error + u256 \<times> bytes) option" where
  "decode_coin cursor =
     (case cursor of
        [] \<Rightarrow> Some (Inl CoinEmpty)
      | b0 # rest \<Rightarrow>
          if b0 < 0x80 then Some (coin_value [b0] rest)
          else if b0 < 0xb8 then
            let len = unat (b0 - 0x80)
            in if \<not> len < length cursor then Some (Inl ShortTruncated)
               else Some (coin_value (slice_of 1 (1 + len) cursor) (drop (1 + len) cursor))
          else
            let ll = unat (b0 - 0xb7)
            in if \<not> ll < length cursor then Some (Inl LongHeaderTruncated)
               else
                 let len = foldl (\<lambda>a x. push_bit 8 a OR ucast x) (0 :: u64) (slice_of 1 (1 + ll) cursor);
                     end_at = 1 + of_nat ll + len
                 in if of_nat (length cursor) < end_at then Some (Inl LongTruncated)
                    else if end_at < 1 + of_nat ll then None
                    else Some (coin_value (slice_of (1 + ll) (unat end_at) cursor) (drop (unat end_at) cursor)))"

definition decode_u32 :: "rlp_ops \<Rightarrow> bytes \<Rightarrow> (account_error + u32 \<times> bytes) option" where
  "decode_u32 rlp cursor =
     (case rlp_decode_uint rlp cursor of
        None \<Rightarrow> Some (Inl RlpError)
      | Some (v, rest) \<Rightarrow> if v < 0x100000000 then Some (Inr (ucast v, rest)) else None)"

definition as_decode :: "rlp_ops \<Rightarrow> bytes \<Rightarrow> (account_error + account_state) option" where
  "as_decode rlp data =
     (case rlp_decode_header rlp data of
        None \<Rightarrow> Some (Inl RlpError)
      | Some (is_list, _, c1) \<Rightarrow>
          if \<not> is_list then Some (Inl NotAList)
          else case rlp_decode_uint rlp c1 of
                 None \<Rightarrow> Some (Inl RlpError)
               | Some (nonce, c2) \<Rightarrow>
                   (case decode_coin c2 of
                      None \<Rightarrow> None
                    | Some (Inl e) \<Rightarrow> Some (Inl e)
                    | Some (Inr (balance, c3)) \<Rightarrow>
                        if c3 \<noteq> [] then
                          (case decode_u32 rlp c3 of
                             None \<Rightarrow> None
                           | Some (Inl e) \<Rightarrow> Some (Inl e)
                           | Some (Inr (flags, _)) \<Rightarrow>
                               Some (Inr \<lparr> as_nonce = nonce, as_balance = balance, as_flags = flags \<rparr>))
                        else Some (Inr \<lparr> as_nonce = nonce, as_balance = balance, as_flags = 0 \<rparr>)))"

subsection \<open>Round trip\<close>

text \<open>What the documentation of \<open>alloy_rlp\<close> and the format itself promise.\<close>

definition rlp_laws :: "rlp_ops \<Rightarrow> bool" where
  "rlp_laws rlp =
     ((\<forall>v rest. rlp_decode_uint rlp (rlp_uint rlp v @ rest) = Some (v, rest))
      \<and> (\<forall>v. rlp_uint rlp v \<noteq> [])
      \<and> (\<forall>bs. length bs < 56 \<longrightarrow>
           rlp_string rlp bs = (if length bs = 1 \<and> hd bs < 0x80 then bs else (0x80 + of_nat (length bs)) # bs))
      \<and> (\<forall>rest. rlp_decode_header rlp (rlp_list_header rlp (length rest) @ rest) = Some (True, length rest, rest))
      \<and> (\<forall>n. rlp_list_header rlp n \<noteq> []))"

lemma coin_value_signed:
  fixes v :: u256
  assumes "bs = replicate z 0 @ dropWhile (\<lambda>b. b = 0) (to_be 32 (unat v))"
  shows "coin_value bs rest = Inr (v, rest)"
proof -
  let ?d = "dropWhile (\<lambda>b. b = 0) (to_be 32 (unat v))"
  have "dropWhile (\<lambda>b. b = 0) bs = ?d" unfolding assms by (induction z) simp_all
  moreover have "length ?d \<le> 32" using length_dropWhile_le [of "\<lambda>b. b = 0" "to_be 32 (unat v)"] by simp
  moreover have "from_be ?d = unat v"
    using unsigned_less [of v, where 'a = nat] by (simp add: from_be_dropWhile from_be_to_be)
  ultimately show ?thesis by (simp add: coin_value_def)
qed

lemma decode_encode_coin:
  assumes "rlp_laws rlp"
  shows "decode_coin (encode_coin_nonnull_zero rlp v @ rest) = Some (Inr (v, rest))"
proof (cases "v = 0")
  case True
  then show ?thesis by (simp add: encode_coin_nonnull_zero_def decode_coin_def coin_value_def)
next
  case False
  let ?d = "dropWhile (\<lambda>b. b = 0) (to_be 32 (unat v))"
  define s where "s = (if hd ?d AND 0x80 \<noteq> 0 then 0 # ?d else ?d)"
  have l: "length ?d \<le> 32" using length_dropWhile_le [of "\<lambda>b. b = 0" "to_be 32 (unat v)"] by simp
  then have ls: "length s < 56" "length s \<le> 33" by (auto simp: s_def)
  have cv: "coin_value s r = Inr (v, r)" for r
    using coin_value_signed [of s 0 v r] coin_value_signed [of s 1 v r] by (auto simp: s_def)
  have e: "encode_coin_nonnull_zero rlp v = (if length s = 1 \<and> hd s < 0x80 then s else (0x80 + of_nat (length s)) # s)"
    using assms ls False by (simp add: encode_coin_nonnull_zero_def Let_def s_def rlp_laws_def)
  show ?thesis
  proof (cases "length s = 1 \<and> hd s < 0x80")
    case True
    then obtain b where "s = [b]" "b < 0x80" by (cases s) auto
    then show ?thesis using e cv [of rest] by (simp add: decode_coin_def)
  next
    case False
    let ?b = "0x80 + of_nat (length s) :: u8"
    have u: "unat (of_nat (length s) :: u8) = length s" using ls by (simp add: unat_of_nat)
    have b: "unat ?b = 0x80 + length s" using u ls by (simp add: unat_word_ariths)
    then have "\<not> ?b < 0x80" "?b < 0xb8" "unat (?b - 0x80) = length s"
      using ls u by (simp_all add: word_less_nat_alt)
    moreover have "encode_coin_nonnull_zero rlp v = ?b # s" using e unfolding if_not_P [OF False] .
    ultimately show ?thesis using cv [of rest] by (simp add: decode_coin_def Let_def slice_of_def)
  qed
qed

text \<open>C18. Account records survive storage: decoding the encoding of an account returns its nonce,
  balance and flags, whatever they are, the zero balance and balances with the top bit of their first
  byte set included.\<close>

theorem account_round_trip:
  assumes rlp: "rlp_laws rlp"
  shows "as_decode rlp (as_encode rlp a) = Some (Inr a) \<and> as_encode rlp a \<noteq> []"
proof -
  have uint: "rlp_decode_uint rlp (rlp_uint rlp v @ rest) = Some (v, rest)" "rlp_uint rlp v \<noteq> []" for v rest
    using rlp by (simp_all add: rlp_laws_def)
  have header: "rlp_decode_header rlp (rlp_list_header rlp n @ rest) = Some (True, n, rest)" if "n = length rest" for n rest
    using rlp that by (simp add: rlp_laws_def)
  have flags: "decode_u32 rlp (encode_u32 rlp f) = Some (Inr (f, []))" for f
  proof -
    have "(ucast f :: u256) < 0x100000000"
      using unsigned_less [of f, where 'a = nat]
      by (simp add: word_less_nat_alt unsigned_ucast_eq take_bit_nat_eq_self)
    moreover have "(ucast (ucast f :: u256) :: u32) = f" by (rule bit_word_eqI) (simp add: bit_ucast_iff)
    ultimately show ?thesis using uint(1) [of "ucast f" "[]"] by (simp add: decode_u32_def encode_u32_def)
  qed
  have "rlp_list_header rlp n \<noteq> []" for n using rlp by (simp add: rlp_laws_def)
  moreover have "as_decode rlp (as_encode rlp a) = Some (Inr a)"
    using flags [unfolded encode_u32_def]
    by (simp add: as_decode_def as_encode_def Let_def encode_u32_def header uint decode_encode_coin [OF rlp]
        decode_encode_coin [OF rlp, where rest = "[]", simplified])
  ultimately show ?thesis by (simp add: as_encode_def Let_def)
qed

text \<open>A small instance of the format, for numbers and records below 56 bytes.\<close>

definition small_uint :: "u256 \<Rightarrow> bytes" where
  "small_uint v = (let bs = dropWhile (\<lambda>b. b = 0) (to_be 32 (unat v)) in of_nat (0x80 + length bs) # bs)"

definition small_rlp :: rlp_ops where
  "small_rlp = \<lparr> rlp_uint = small_uint,
     rlp_string = (\<lambda>bs. if length bs = 1 \<and> hd bs < 0x80 then bs else (0x80 + of_nat (length bs)) # bs),
     rlp_list_header = (\<lambda>n. [0xc0 + of_nat n]),
     rlp_decode_header = (\<lambda>bs. if bs = [] then None else Some (True, length (tl bs), tl bs)),
     rlp_decode_uint = (\<lambda>bs. if bs = [] then None
       else let n = unat (hd bs - 0x80) in Some (of_nat (from_be (take n (tl bs))), drop n (tl bs))) \<rparr>"

lemma small_rlp_laws: "rlp_laws small_rlp"
proof -
  have "rlp_decode_uint small_rlp (small_uint v @ rest) = Some (v, rest)" for v rest
  proof -
    let ?d = "dropWhile (\<lambda>b. b = 0) (to_be 32 (unat v))"
    have l: "length ?d \<le> 32" using length_dropWhile_le [of "\<lambda>b. b = 0" "to_be 32 (unat v)"] by simp
    then have "unat (of_nat (0x80 + length ?d) - 0x80 :: u8) = length ?d" by (simp add: unat_of_nat)
    moreover have "from_be ?d = unat v"
      using unsigned_less [of v, where 'a = nat] by (simp add: from_be_dropWhile from_be_to_be)
    ultimately show ?thesis by (simp add: small_rlp_def small_uint_def Let_def)
  qed
  then show ?thesis by (auto simp: rlp_laws_def small_rlp_def small_uint_def Let_def)
qed

theorem account_round_trip_witness:
  "as_decode small_rlp (as_encode small_rlp \<lparr> as_nonce = 5, as_balance = 200, as_flags = 1 \<rparr>)
     = Some (Inr \<lparr> as_nonce = 5, as_balance = 200, as_flags = 1 \<rparr>)"
  using account_round_trip [OF small_rlp_laws] by blast

text \<open>A long string whose claimed length wraps the end of the slice makes \<open>decode_coin\<close> panic.\<close>

lemma decode_coin_panics: "decode_coin (0xbf # replicate 8 0xff @ replicate 8 0) = None"
  by code_simp

end
