(* ===== verification/State_Commit.thy ===== *)
theory State_Commit
  imports Trie_Bulk Raw_Storage Account_State "HOL-Library.Product_Lexorder"
begin

text \<open>
  Writing the outcome of a block into the state trie (\<open>crates/execution/src/state.rs\<close>). An
  account of the EVM library is a record of what the code reads of it, and the state is the list of
  its entries in the order the hash map is iterated in. \<open>None\<close> is a panic.
\<close>

subsection \<open>Definitions\<close>

record commit_account =
  ac_selfdestructed :: bool
  ac_touched :: bool
  ac_created :: bool
  ac_created_locally :: bool
  ac_nonce :: u64
  ac_balance :: u256
  ac_code :: "bytes option"
  ac_storage :: "(u256 \<times> u256) list"

record contract_markers =
  cm_skip_created :: "address list"
  cm_precompiles :: "address list"
  cm_bump_remasc_sender :: bool
  cm_raw_storage :: "raw_write list"

type_synonym batch = "(bytes \<times> bytes) list"

definition account_info_entry :: "(bytes \<Rightarrow> b256) \<Rightarrow> rlp_ops \<Rightarrow> address \<Rightarrow> commit_account \<Rightarrow> bytes \<times> bytes" where
  "account_info_entry kec rlp addr acc =
     (account_key kec addr, as_encode rlp (as_new (ucast (ac_nonce acc)) (ac_balance acc)))"

definition storage_entry :: "(bytes \<Rightarrow> b256) \<Rightarrow> address \<Rightarrow> u256 \<Rightarrow> u256 \<Rightarrow> (bytes \<times> bytes) option" where
  "storage_entry kec addr slot v =
     (if v = 0 then None
      else Some (storage_key kec addr (b256_of slot), dropWhile (\<lambda>b. b = 0) (b256_of v)))"

text \<open>Sorting by key and, for one key, the latest write first; then \<open>dedup_by\<close> keeps the first of a run.\<close>

fun dedup_keys :: "(nat \<times> bytes \<times> bytes) list \<Rightarrow> (nat \<times> bytes \<times> bytes) list" where
  "dedup_keys (a # b # xs) = (if fst (snd a) = fst (snd b) then dedup_keys (a # xs) else a # dedup_keys (b # xs))"
| "dedup_keys xs = xs"

definition sort_batch :: "batch \<Rightarrow> (nat \<times> bytes \<times> bytes) list" where
  "sort_batch b = sort_key (\<lambda>(i, k, v). (k, - int i)) (enumerate 0 b)"

definition apply_batch ::
  "(bytes \<Rightarrow> b256) \<Rightarrow> (bytes \<Rightarrow> bytes option) \<Rightarrow> trie_node \<Rightarrow> batch \<Rightarrow> trie_node option" where
  "apply_batch kec store root b =
     (if b = [] then Some root
      else put_bulk kec store root (map (\<lambda>(i, k, v). (from_key k, v)) (dedup_keys (sort_batch b))))"

definition commit_slot ::
  "(bytes \<Rightarrow> b256) \<Rightarrow> (bytes \<Rightarrow> bytes option) \<Rightarrow> address \<Rightarrow> u256 \<times> u256 \<Rightarrow> trie_node \<times> batch \<Rightarrow> trie_node \<times> batch" where
  "commit_slot kec store addr = (\<lambda>(slot, v) (root, b).
     case storage_entry kec addr slot v of
       Some e \<Rightarrow> (root, b @ [e])
     | None \<Rightarrow> (delete kec store root (from_key (storage_key kec addr (b256_of slot))), b))"

definition commit_created ::
  "(bytes \<Rightarrow> b256) \<Rightarrow> address list \<Rightarrow> address \<Rightarrow> commit_account \<Rightarrow> batch \<Rightarrow> batch" where
  "commit_created kec skip addr acc b =
     (if ac_created acc then
        let has_code = (case ac_code acc of Some c \<Rightarrow> c \<noteq> [] | None \<Rightarrow> False);
            b1 = (if addr \<notin> set skip \<and> (has_code \<or> ac_created_locally acc)
                  then b @ [(storage_prefix_key kec addr, [1])] else b)
        in case ac_code acc of
             Some c \<Rightarrow> if c \<noteq> [] then b1 @ [(code_key kec addr, c)] else b1
           | None \<Rightarrow> b1
      else b)"

definition commit_one ::
  "(bytes \<Rightarrow> b256) \<Rightarrow> rlp_ops \<Rightarrow> (bytes \<Rightarrow> bytes option) \<Rightarrow> address list \<Rightarrow> address \<times> commit_account
   \<Rightarrow> trie_node \<times> batch \<Rightarrow> trie_node \<times> batch" where
  "commit_one kec rlp store skip = (\<lambda>(addr, acc) (root, b).
     let root1 = (if ac_selfdestructed acc then delete_recursive kec store root (from_key (account_key kec addr)) else root)
     in if \<not> ac_touched acc then (root1, b)
        else fold (commit_slot kec store addr) (ac_storage acc)
               (root1, commit_created kec skip addr acc (b @ [account_info_entry kec rlp addr acc])))"

definition commit_raw ::
  "(bytes \<Rightarrow> b256) \<Rightarrow> (bytes \<Rightarrow> bytes option) \<Rightarrow> raw_write \<Rightarrow> trie_node \<Rightarrow> trie_node" where
  "commit_raw kec store = (\<lambda>(addr, slot, v) root.
     let key = from_key (storage_key kec addr (b256_of slot))
     in case v of Some bs \<Rightarrow> put kec store root key bs | None \<Rightarrow> delete kec store root key)"

definition bump_remasc_sender ::
  "(bytes \<Rightarrow> b256) \<Rightarrow> rlp_ops \<Rightarrow> (bytes \<Rightarrow> bytes option) \<Rightarrow> trie_node \<Rightarrow> trie_node option" where
  "bump_remasc_sender kec rlp store root =
     (let key = from_key (account_key_from_bytes kec [0x00])
      in case (case get kec store root key of
                 None \<Rightarrow> Some as_default
               | Some data \<Rightarrow>
                   (case as_decode rlp data of
                      None \<Rightarrow> None
                    | Some (Inl _) \<Rightarrow> Some as_default
                    | Some (Inr a) \<Rightarrow> Some a)) of
           None \<Rightarrow> None
         | Some acct \<Rightarrow> Some (put kec store root key (as_encode rlp (acct\<lparr> as_nonce := as_nonce acct + 1 \<rparr>))))"

definition apply_state_changes ::
  "(bytes \<Rightarrow> b256) \<Rightarrow> rlp_ops \<Rightarrow> (bytes \<Rightarrow> bytes option) \<Rightarrow> trie_node \<Rightarrow> (address \<times> commit_account) list
   \<Rightarrow> contract_markers \<Rightarrow> trie_node option" where
  "apply_state_changes kec rlp store root state markers =
     (case fold (commit_one kec rlp store (cm_skip_created markers)) state (root, []) of (root1, b) \<Rightarrow>
      case apply_batch kec store root1 (b @ map (\<lambda>a. (storage_prefix_key kec a, [1])) (cm_precompiles markers)) of
        None \<Rightarrow> None
      | Some root2 \<Rightarrow>
          let root3 = fold (commit_raw kec store) (cm_raw_storage markers) root2
          in if cm_bump_remasc_sender markers then bump_remasc_sender kec rlp store root3 else Some root3)"

subsection \<open>The order of keys is the order of their bits\<close>

lemma append_less_same_length: "xs < ys \<Longrightarrow> length xs = length ys \<Longrightarrow> xs @ us < ys @ vs" for xs ys :: "'a::order list"
  unfolding list_less_def by (rule lexord_sufI) simp_all

fun bits_value :: "bool list \<Rightarrow> nat" where
  "bits_value [] = 0"
| "bits_value (b # bs) = (if b then 2 ^ length bs else 0) + bits_value bs"

lemma bits_value_bound: "bits_value bs < 2 ^ length bs"
  by (induction bs) auto

lemma bits_value_less: "length xs = length ys \<Longrightarrow> bits_value xs < bits_value ys \<Longrightarrow> xs < ys"
proof (induction xs ys rule: list_induct2)
  case (Cons x xs y ys)
  have "bits_value xs < 2 ^ length xs" "bits_value ys < 2 ^ length ys" using bits_value_bound by blast+
  then show ?case using Cons by (cases x; cases y) auto
qed simp

lemma bits_value_byte: "bits_value (byte_bits b) = unat b"
proof -
  have rev: "bits_value xs = horner_sum of_bool 2 (rev xs)" for xs
    by (induction xs) (simp_all add: horner_sum_append)
  have "rev (byte_bits b) = map (bit b) [0..<8]"
    by (rule nth_equalityI) (auto simp: byte_bits_def rev_nth)
  also have "\<dots> = map (bit (unat b)) [0..<8]" by (simp add: bit_unsigned_iff)
  finally have "bits_value (byte_bits b) = take_bit 8 (unat b)"
    unfolding rev by (simp only: horner_sum_bit_eq_take_bit)
  then show ?thesis using unsigned_less [of b, where 'a = nat] by (simp add: take_bit_nat_eq_self)
qed

lemma key_bits_less: "k < k' \<Longrightarrow> key_bits k < key_bits k'"
proof (induction k arbitrary: k')
  case Nil
  then show ?case by (cases k') (simp_all add: key_bits_def byte_bits_def upt_rec)
next
  case (Cons b k)
  then obtain b' k1 where k': "k' = b' # k1" by (cases k') auto
  have len: "length (byte_bits x) = 8" for x by (simp add: byte_bits_def)
  show ?case
  proof (cases "b = b'")
    case True
    then show ?thesis using Cons k' by (simp add: key_bits_def)
  next
    case False
    then have "byte_bits b < byte_bits b'"
      using Cons.prems k' len by (intro bits_value_less) (simp_all add: bits_value_byte word_less_nat_alt)
    then show ?thesis using len by (simp add: k' key_bits_def append_less_same_length)
  qed
qed

subsection \<open>Batches\<close>

lemma map_of_filter: "map_of xs k = (case filter (\<lambda>e. fst e = k) xs of [] \<Rightarrow> None | e # _ \<Rightarrow> Some (snd e))"
  by (induction xs) auto

lemma dedup_keys_map: "map_of (map snd (dedup_keys xs)) = map_of (map snd xs)"
  by (induction xs rule: dedup_keys.induct) (auto simp: fun_eq_iff)

lemma dedup_keys_sub: "set (dedup_keys xs) \<subseteq> set xs"
  by (induction xs rule: dedup_keys.induct) auto

lemma dedup_keys_ascending:
  "sorted_wrt (\<lambda>x y. fst (snd x) \<le> fst (snd y)) xs \<Longrightarrow> sorted_wrt (\<lambda>x y. fst (snd x) < fst (snd y)) (dedup_keys xs)"
proof (induction xs rule: dedup_keys.induct)
  case (1 a b xs)
  show ?case
  proof (cases "fst (snd a) = fst (snd b)")
    case False
    have "fst (snd a) < fst (snd x)" if "x \<in> set (dedup_keys (b # xs))" for x
    proof -
      have "x \<in> set (b # xs)" using that dedup_keys_sub by blast
      then have "fst (snd b) \<le> fst (snd x)" using "1.prems" by auto
      moreover have "fst (snd a) < fst (snd b)" using "1.prems" False by (simp add: less_le)
      ultimately show ?thesis by (rule order.strict_trans2 [rotated])
    qed
    then show ?thesis using 1 False by simp
  qed (use 1 in simp)
qed simp_all

lemma sort_batch_map: "map_of (map snd (sort_batch b)) = map_of (rev b)"
proof
  fix k :: bytes
  let ?f = "\<lambda>(i :: nat, k :: bytes, v :: bytes). (k, - int i)" and ?P = "\<lambda>e :: nat \<times> bytes \<times> bytes. fst (snd e) = k"
  let ?es = "filter ?P (enumerate 0 b)"
  have "map fst (enumerate 0 b) = [0..<length b]" by simp
  then have "sorted_wrt (<) (map fst (enumerate 0 b))" by (simp only: sorted_wrt_upt)
  then have "sorted_wrt (\<lambda>x y. fst x < fst y) ?es" unfolding sorted_wrt_map by (rule sorted_wrt_filter)
  then have srt: "sorted (map ?f (rev ?es))"
    by (auto simp: rev_map sorted_wrt_rev sorted_wrt_map less_eq_prod_simp case_prod_unfold
        intro!: sorted_wrt_mono_rel [of _ "\<lambda>x y. fst x < fst y"])
  have "inj_on ?f (set ?es)" by (auto simp: inj_on_def enumerate_eq_zip in_set_zip)
  then have "sort_key ?f ?es = rev ?es" by (intro sort_key_inj_key_eq [OF _ _ srt]) simp_all
  then have flt: "filter ?P (sort_batch b) = rev ?es" by (simp add: sort_batch_def filter_sort)
  have "filter (\<lambda>e. fst e = k) (map snd (sort_batch b)) = map snd (rev ?es)"
    using flt by (simp add: filter_map comp_def)
  also have "\<dots> = rev (filter (\<lambda>e. fst e = k) (map snd (enumerate 0 b)))" by (simp only: filter_map comp_def rev_map)
  also have "\<dots> = filter (\<lambda>e. fst e = k) (rev b)" by (simp add: rev_filter)
  finally show "map_of (map snd (sort_batch b)) k = map_of (rev b) k" by (simp add: map_of_filter)
qed

definition bulk_entries :: "batch \<Rightarrow> batch" where
  "bulk_entries b = map snd (dedup_keys (sort_batch b))"

lemma bulk_entries_facts:
  "map_of (bulk_entries b) = map_of (rev b)" "sorted_wrt (\<lambda>x y. fst x < fst y) (bulk_entries b)"
  "set (bulk_entries b) \<subseteq> set b"
proof -
  show "map_of (bulk_entries b) = map_of (rev b)" by (simp add: bulk_entries_def dedup_keys_map sort_batch_map)
  have "sorted (map (\<lambda>(i, k, v). (k, - int i)) (sort_batch b))" by (simp add: sort_batch_def)
  then have "sorted_wrt (\<lambda>x y. fst (snd x) \<le> fst (snd y)) (sort_batch b)"
    by (auto simp: sorted_wrt_map case_prod_unfold less_eq_prod_simp intro: sorted_wrt_mono_rel [rotated])
  then show "sorted_wrt (\<lambda>x y. fst x < fst y) (bulk_entries b)"
    using dedup_keys_ascending by (simp add: bulk_entries_def sorted_wrt_map)
  have "set (sort_batch b) = set (enumerate 0 b)" by (simp add: sort_batch_def)
  then show "set (bulk_entries b) \<subseteq> set b"
    using dedup_keys_sub [of "sort_batch b"] by (auto simp: bulk_entries_def enumerate_eq_zip dest!: set_zip_rightD)
qed

end
