(* ===== verification/Trie_Size.thy ===== *)
theory Trie_Size
  imports Trie_Root
begin

text \<open>
  When sizes fit. The size of a trie, which \<open>children_size\<close> holds in 64 bits, is bounded by a
  weight that an update raises by at most the cost of its key and value; so a sequence of updates fits
  as soon as the weight at its start and the costs together do.
\<close>

fun tweight :: "ptrie \<Rightarrow> nat" where
  "tweight PE = 0"
| "tweight (PN p v l r) = 160 + length p + (case v of Some w \<Rightarrow> length w | None \<Rightarrow> 0) + tweight l + tweight r"

fun op_cost :: "trie_op \<Rightarrow> nat" where
  "op_cost (OpPut key v) = 320 + 8 * length key + length v"
| "op_cost _ = 0"

definition ops_cost :: "trie_op list \<Rightarrow> nat" where
  "ops_cost ops = sum_list (map op_cost ops)"

lemma ops_cost_simps [simp]:
  "ops_cost [] = 0" "ops_cost (x # ops) = op_cost x + ops_cost ops" "ops_cost (xs @ ys) = ops_cost xs + ops_cost ys"
  by (simp_all add: ops_cost_def)

lemma message_length_path: "message_length n \<le> 145 + ks_length (shared_path n)"
proof -
  have "encoded_len (ks_length (shared_path n)) \<le> ks_length (shared_path n)"
    by (simp add: encoded_len_def)
  then have "serialized_length (ks_length (shared_path n)) \<le> 10 + ks_length (shared_path n)"
    using length_prefix_size_le [of "ks_length (shared_path n)"] by (simp add: serialized_length_def)
  moreover have "(if has_long_value n then 32 + 3 else value_length n) \<le> 35"
    by (simp add: has_long_value_def)
  moreover have "(if is_terminal n then 0 else varint_size (children_size n)) \<le> 9"
    using varint_size_le by simp
  ultimately show ?thesis
    using ref_serialized_length_le [of "left n"] ref_serialized_length_le [of "right n"]
    by (subst message_length.simps) linarith
qed

lemma psize_le_tweight: "psize kec t \<le> tweight t"
proof (induction t)
  case (PN p v l r)
  have "message_length (pn kec (PN p v l r)) \<le> 145 + length p"
    using message_length_path [of "pn kec (PN p v l r)"] by (simp add: pn_node)
  then show ?case using PN by (cases v) auto
qed simp

lemma tweight_aput: "tweight (aput t k v) \<le> tweight t + 320 + length k + length v"
proof (induction t arbitrary: k)
  case (PN p w l r)
  show ?case
  proof (cases rule: path_cases [of k p])
    case (below b k')
    then show ?thesis using PN.IH(1) [of k'] PN.IH(2) [of k'] by auto
  qed auto
qed simp

lemma tweight_ajoin: "tweight (ajoin p v l r) \<le> tweight (PN p v l r)"
  by (cases "(p, v, l, r)" rule: ajoin.cases) auto

lemma tweight_adel: "tweight (adel rd t k) \<le> tweight t"
proof (induction t arbitrary: k)
  case (PN p w l r)
  show ?case
  proof (cases rule: path_cases [of k p])
    case here
    then show ?thesis using tweight_ajoin [of p None l r] by (auto split: option.splits)
  next
    case (below b k')
    then show ?thesis
      using PN.IH(1) [of k'] PN.IH(2) [of k'] tweight_ajoin [of p w "adel rd l k'" r] tweight_ajoin [of p w l "adel rd r k'"]
      by auto
  qed auto
qed simp

lemma tweight_spec_op: "tweight (spec_op x t) \<le> tweight t + op_cost x"
proof (cases x)
  case (OpPut key v)
  then show ?thesis using tweight_aput [of t "key_bits key" v] by (simp add: length_key_bits)
qed (simp_all add: tweight_adel)

lemma tweight_fold_spec: "tweight (fold spec_op ops t) \<le> tweight t + ops_cost ops"
proof (induction ops arbitrary: t)
  case (Cons x ops)
  show ?case using Cons.IH [of "spec_op x t"] tweight_spec_op [of x t] by simp
qed simp

lemma ops_fit_cost: "list_all op_ok ops \<Longrightarrow> tweight t + ops_cost ops < 2 ^ 64 \<Longrightarrow> ops_fit kec ops t"
proof (induction ops arbitrary: t)
  case (Cons x ops)
  show ?case
    using Cons.IH [of "spec_op x t"] Cons.prems tweight_spec_op [of x t] psize_le_tweight [of kec t] by simp
qed simp

lemma psize_fold_spec: "psize kec (fold spec_op ops t) \<le> tweight t + ops_cost ops"
  using psize_le_tweight tweight_fold_spec order.trans by blast

end
