(* ===== verification/State_Order.thy ===== *)
theory State_Order
  imports State_Commit Trie_Size
begin

text \<open>
  Why \<open>apply_state_changes\<close> may collect its writes. The reference is the commit with one trie update
  per key, in the order the loop meets them; the batched commit gives the same root, and so does the
  per-key commit in any other order of the accounts.
\<close>

subsection \<open>The commit key by key\<close>

definition slot_op :: "(bytes \<Rightarrow> b256) \<Rightarrow> address \<Rightarrow> u256 \<times> u256 \<Rightarrow> trie_op" where
  "slot_op kec addr = (\<lambda>(slot, v). case storage_entry kec addr slot v of
     Some (k, x) \<Rightarrow> OpPut k x | None \<Rightarrow> OpDelete (storage_key kec addr (b256_of slot)))"

definition put_ops :: "batch \<Rightarrow> trie_op list" where
  "put_ops b = map (\<lambda>(k, v). OpPut k v) b"

definition account_ops :: "(bytes \<Rightarrow> b256) \<Rightarrow> rlp_ops \<Rightarrow> address list \<Rightarrow> address \<times> commit_account \<Rightarrow> trie_op list" where
  "account_ops kec rlp skip = (\<lambda>(addr, acc).
     (if ac_selfdestructed acc then [OpDeleteRecursive (account_key kec addr)] else [])
     @ (if ac_touched acc
        then put_ops (commit_created kec skip addr acc [account_info_entry kec rlp addr acc])
          @ map (slot_op kec addr) (ac_storage acc)
        else []))"

definition precompile_ops :: "(bytes \<Rightarrow> b256) \<Rightarrow> address list \<Rightarrow> trie_op list" where
  "precompile_ops kec ps = put_ops (map (\<lambda>a. (storage_prefix_key kec a, [1])) ps)"

definition raw_write_op :: "(bytes \<Rightarrow> b256) \<Rightarrow> raw_write \<Rightarrow> trie_op" where
  "raw_write_op kec = (\<lambda>(addr, slot, v). case v of
     Some bs \<Rightarrow> OpPut (storage_key kec addr (b256_of slot)) bs
   | None \<Rightarrow> OpDelete (storage_key kec addr (b256_of slot)))"

definition commit_ops ::
  "(bytes \<Rightarrow> b256) \<Rightarrow> rlp_ops \<Rightarrow> (address \<times> commit_account) list \<Rightarrow> contract_markers \<Rightarrow> trie_op list" where
  "commit_ops kec rlp state markers =
     concat (map (account_ops kec rlp (cm_skip_created markers)) state) @ precompile_ops kec (cm_precompiles markers)"

definition block_ops ::
  "(bytes \<Rightarrow> b256) \<Rightarrow> rlp_ops \<Rightarrow> (address \<times> commit_account) list \<Rightarrow> contract_markers \<Rightarrow> trie_op list" where
  "block_ops kec rlp state markers = commit_ops kec rlp state markers @ map (raw_write_op kec) (cm_raw_storage markers)"

definition per_key_commit ::
  "(bytes \<Rightarrow> b256) \<Rightarrow> rlp_ops \<Rightarrow> (bytes \<Rightarrow> bytes option) \<Rightarrow> trie_node \<Rightarrow> (address \<times> commit_account) list
   \<Rightarrow> contract_markers \<Rightarrow> trie_node option" where
  "per_key_commit kec rlp store root state markers =
     (let root3 = fold (apply_op kec store) (block_ops kec rlp state markers) root
      in if cm_bump_remasc_sender markers then bump_remasc_sender kec rlp store root3 else Some root3)"

subsection \<open>What the loop collects\<close>

fun is_put :: "trie_op \<Rightarrow> bool" where
  "is_put (OpPut k v) = True"
| "is_put _ = False"

fun put_entry :: "trie_op \<Rightarrow> batch" where
  "put_entry (OpPut k v) = [(k, v)]"
| "put_entry _ = []"

definition writes :: "trie_op list \<Rightarrow> batch" where
  "writes ops = concat (map put_entry ops)"

definition deletions :: "trie_op list \<Rightarrow> trie_op list" where
  "deletions ops = filter (\<lambda>x. \<not> is_put x) ops"

lemma writes_simps [simp]:
  "writes [] = []" "writes (x # ops) = put_entry x @ writes ops" "writes (xs @ ys) = writes xs @ writes ys"
  by (simp_all add: writes_def)

lemma deletions_simps [simp]:
  "deletions [] = []" "deletions (x # ops) = (if is_put x then deletions ops else x # deletions ops)"
  "deletions (xs @ ys) = deletions xs @ deletions ys"
  by (simp_all add: deletions_def)

lemma put_ops_parts [simp]: "writes (put_ops b) = b" "deletions (put_ops b) = []"
  by (induction b) (auto simp: put_ops_def)

lemma put_ops_writes: "put_ops (writes ops) = filter is_put ops"
proof (induction ops)
  case (Cons x ops)
  then show ?case by (cases x) (simp_all add: put_ops_def)
qed (simp add: put_ops_def)

lemma commit_slots_collect:
  "fold (commit_slot kec S addr) slots (root, b) =
     (fold (apply_op kec S) (deletions (map (slot_op kec addr) slots)) root, b @ writes (map (slot_op kec addr) slots))"
proof (induction slots arbitrary: root b)
  case (Cons s slots)
  obtain slot v where s: "s = (slot, v)" by (cases s)
  have "commit_slot kec S addr s (root, b) =
      (fold (apply_op kec S) (deletions [slot_op kec addr s]) root, b @ writes [slot_op kec addr s])"
    by (cases "storage_entry kec addr slot v") (auto simp: s commit_slot_def slot_op_def)
  then show ?case by (simp add: Cons.IH)
qed simp

lemma commit_created_append: "commit_created kec skip addr acc (b @ c) = b @ commit_created kec skip addr acc c"
  by (simp add: commit_created_def Let_def split: option.splits)

lemma commit_one_collect:
  "commit_one kec rlp S skip a (root, b) =
     (fold (apply_op kec S) (deletions (account_ops kec rlp skip a)) root, b @ writes (account_ops kec rlp skip a))"
  by (cases a) (auto simp: commit_one_def account_ops_def Let_def commit_slots_collect commit_created_append)

lemma commit_collect:
  "fold (commit_one kec rlp S skip) state (root, b) =
     (fold (apply_op kec S) (deletions (concat (map (account_ops kec rlp skip) state))) root,
      b @ writes (concat (map (account_ops kec rlp skip) state)))"
  by (induction state arbitrary: root b) (simp_all add: commit_one_collect)

subsection \<open>Postponing the writes\<close>

text \<open>A deletion that comes after a write does not touch its key.\<close>

fun spares :: "trie_op \<Rightarrow> trie_op \<Rightarrow> bool" where
  "spares (OpPut k v) (OpDelete d) = (d \<noteq> k)"
| "spares (OpPut k v) (OpDeleteRecursive d) = (\<not> prefix (key_bits d) (key_bits k))"
| "spares x y = True"

lemma put_spared:
  assumes "\<not> is_put y" "spares (OpPut k v) y"
  shows "map_op y (m(key_bits k \<mapsto> v)) = (map_op y m)(key_bits k \<mapsto> v)"
  using assms by (cases y) (auto simp: del_map_def fun_eq_iff key_bits_inject)

lemma puts_spared:
  assumes "\<not> is_put y" "\<forall>x \<in> set xs. is_put x \<and> spares x y"
  shows "map_op y (fold map_op xs m) = fold map_op xs (map_op y m)"
  using assms(2)
proof (induction xs arbitrary: m)
  case (Cons x xs)
  then show ?case using put_spared [OF assms(1)] by (cases x) auto
qed simp

lemma postpone_writes:
  "sorted_wrt spares ops \<Longrightarrow> fold map_op ops m = fold map_op (filter is_put ops) (fold map_op (deletions ops) m)"
proof (induction ops rule: rev_induct)
  case (snoc y ops)
  then show ?case
    using puts_spared [of y "filter is_put ops"] by (cases "is_put y") (auto simp: sorted_wrt_append)
qed simp

subsection \<open>Keys of one account and of another\<close>

fun op_key :: "trie_op \<Rightarrow> bytes" where
  "op_key (OpPut k v) = k"
| "op_key (OpDelete k) = k"
| "op_key (OpDeleteRecursive k) = k"

text \<open>Addresses of 20 bytes, one entry each, and one entry per slot.\<close>

definition accounts_ok :: "(address \<times> commit_account) list \<Rightarrow> bool" where
  "accounts_ok state = (distinct (map fst state)
     \<and> list_all (\<lambda>(addr, acc). length addr = 20 \<and> distinct (map fst (ac_storage acc))) state)"

lemma prefix_key_bits: "prefix (key_bits d) (key_bits k) \<longleftrightarrow> prefix d k"
proof (induction d arbitrary: k)
  case (Cons b d)
  have len: "length (byte_bits x) = 8" for x by (simp add: byte_bits_def)
  show ?case
  proof (cases k)
    case Nil
    moreover have "byte_bits b \<noteq> []" using len [of b] by force
    ultimately show ?thesis by (simp add: key_bits_def)
  next
    case (Cons c k')
    have "prefix (byte_bits b @ key_bits d) (byte_bits c @ key_bits k') \<longleftrightarrow> byte_bits b = byte_bits c \<and> prefix (key_bits d) (key_bits k')"
      using len by (auto simp: prefix_def append_eq_append_conv)
    moreover have "byte_bits b = byte_bits c \<longleftrightarrow> b = c" using key_bits_inject [of "[b]" "[c]"] by (simp add: key_bits_def)
    ultimately show ?thesis using Cons Cons.IH by (simp add: key_bits_def)
  qed
qed (simp add: key_bits_def)

lemma key_extends:
  "prefix (account_key kec addr) (account_key kec addr)" "prefix (account_key kec addr) (code_key kec addr)"
  "prefix (account_key kec addr) (storage_prefix_key kec addr)" "prefix (account_key kec addr) (storage_key kec addr slot)"
  by (simp_all add: account_key_def code_key_def code_key_from_bytes_def storage_prefix_key_def storage_key_def
      storage_key_from_bytes_def Let_def)

lemma account_ops_keys: "x \<in> set (account_ops kec rlp skip (addr, acc)) \<Longrightarrow> prefix (account_key kec addr) (op_key x)"
  by (auto simp: account_ops_def put_ops_def commit_created_def account_info_entry_def slot_op_def storage_entry_def
      key_extends Let_def split: if_splits option.splits)

lemma other_account:
  assumes kec: "\<And>d. length (kec d) = 32" and "length a = 20" "length b = 20" "a \<noteq> b"
    and "prefix (account_key kec a) x" "prefix (account_key kec b) y"
  shows "\<not> prefix x y"
proof
  assume "prefix x y"
  then have "prefix (account_key kec a) y" using assms(5) by (rule prefix_order.trans [rotated])
  then obtain u v where "y = account_key kec a @ u" "y = account_key kec b @ v"
    using assms(6) unfolding prefix_def by blast
  then have "recover_address kec y = Some a" "recover_address kec y = Some b"
    using recover_address_key [of kec a u, OF kec assms(2)] recover_address_key [of kec b v, OF kec assms(3)]
    by (simp_all add: account_key_def)
  then show False using assms(4) by simp
qed

lemma spares_other: "\<not> prefix (op_key y) (op_key x) \<Longrightarrow> spares x y"
  by (cases x; cases y) (auto simp: prefix_key_bits)

lemma length_b256_of [simp]: "length (b256_of v) = 32"
  by (simp add: b256_of_def)

lemma b256_of_inject [simp]: "b256_of v = b256_of w \<longleftrightarrow> v = w"
proof
  assume "b256_of v = b256_of w"
  then have "from_be (to_be 32 (unat v)) = from_be (to_be 32 (unat w))" by (simp add: b256_of_def)
  then show "v = w"
    using unsigned_less [of v, where 'a = nat] unsigned_less [of w, where 'a = nat]
    by (simp add: from_be_to_be word_unat_eq_iff)
qed simp

lemma storage_keys_apart:
  assumes kec: "\<And>d. length (kec d) = 32" and addr: "length addr = 20"
  shows "storage_key kec addr (b256_of s) = storage_key kec addr (b256_of s') \<longleftrightarrow> s = s'"
    and "storage_key kec addr (b256_of s) \<noteq> account_key kec addr"
    and "storage_key kec addr (b256_of s) \<noteq> code_key kec addr"
    and "storage_key kec addr (b256_of s) \<noteq> storage_prefix_key kec addr"
proof -
  note c = classify_storage_key [of kec addr, OF kec addr length_b256_of]
  note a = classify_account_key [of kec addr, OF kec addr]
  show "storage_key kec addr (b256_of s) = storage_key kec addr (b256_of s') \<longleftrightarrow> s = s'"
    using c [of s] c [of s'] by (metis b256_of_inject option.inject trie_key_kind.inject(4))
  show "storage_key kec addr (b256_of s) \<noteq> account_key kec addr" using c [of s] a(1) by force
  show "storage_key kec addr (b256_of s) \<noteq> code_key kec addr" using c [of s] a(2) by force
  show "storage_key kec addr (b256_of s) \<noteq> storage_prefix_key kec addr" using c [of s] a(3) by force
qed

lemma distinct_sorted_wrt: "distinct (map f xs) \<longleftrightarrow> sorted_wrt (\<lambda>x y. f x \<noteq> f y) xs"
  by (induction xs) auto

lemma account_ops_spare:
  assumes kec: "\<And>d. length (kec d) = 32" and "length addr = 20" "distinct (map fst (ac_storage acc))"
  shows "sorted_wrt spares (account_ops kec rlp skip (addr, acc))"
proof -
  note apart = storage_keys_apart [of kec addr, OF kec assms(2)]
  let ?puts = "put_ops (commit_created kec skip addr acc [account_info_entry kec rlp addr acc])"
  have first: "spares (OpDeleteRecursive k) y" for k y by simp
  have "sorted_wrt (\<lambda>s s'. fst s \<noteq> fst s') (ac_storage acc)"
    using assms(3) by (simp add: distinct_sorted_wrt)
  then have slots: "sorted_wrt spares (map (slot_op kec addr) (ac_storage acc))"
    unfolding sorted_wrt_map
    by (rule sorted_wrt_mono_rel [rotated]) (auto simp: slot_op_def storage_entry_def apart split: option.splits)
  have puts: "sorted_wrt spares ?puts"
    by (auto simp: put_ops_def sorted_wrt_map case_prod_unfold intro: sorted_wrt_true)
  have "spares x (slot_op kec addr s)" if "x \<in> set ?puts" for x s
    using that apart [of "fst s"] by (cases s)
      (auto simp: put_ops_def commit_created_def account_info_entry_def slot_op_def storage_entry_def Let_def
        split: if_splits option.splits)
  then show ?thesis using slots puts by (auto simp: account_ops_def sorted_wrt_append)
qed

lemma commit_ops_spare:
  assumes kec: "\<And>d. length (kec d) = 32" and "accounts_ok state"
  shows "sorted_wrt spares (commit_ops kec rlp state markers)"
proof -
  let ?A = "account_ops kec rlp (cm_skip_created markers)"
  have last: "spares x y" if "is_put y" for x y using that by (cases x; cases y) simp_all
  have pre: "\<forall>y \<in> set (precompile_ops kec ps). is_put y" for ps by (auto simp: precompile_ops_def put_ops_def)
  have "sorted_wrt spares (concat (map ?A state))"
    using assms(2)
  proof (induction state)
    case (Cons a state)
    obtain addr acc where a: "a = (addr, acc)" by (cases a)
    have "spares x y" if x: "x \<in> set (?A a)" and b: "b \<in> set state" and y: "y \<in> set (?A b)" for x y b
    proof -
      obtain addr' acc' where b': "b = (addr', acc')" by (cases b)
      have "addr' \<noteq> addr" "length addr = 20" "length addr' = 20"
        using Cons.prems b a b' by (force simp: accounts_ok_def list_all_iff)+
      then show ?thesis
        using other_account [of kec addr' addr "op_key y" "op_key x", OF kec] account_ops_keys x y a b'
        by (intro spares_other) blast
    qed
    moreover have "sorted_wrt spares (?A a)"
      using account_ops_spare [of kec addr acc, OF kec] Cons.prems a by (simp add: accounts_ok_def)
    moreover have "accounts_ok state" using Cons.prems by (simp add: accounts_ok_def)
    ultimately show ?case using Cons.IH by (auto simp: sorted_wrt_append)
  qed simp
  moreover have "sorted_wrt spares (precompile_ops kec ps)" for ps
    using pre [of ps] last by (auto simp: sorted_wrt_iff_nth_less)
  ultimately show ?thesis using pre last by (auto simp: commit_ops_def sorted_wrt_append)
qed

subsection \<open>The order of the accounts\<close>

lemma map_op_commute:
  assumes "\<not> prefix (op_key x) (op_key y)" "\<not> prefix (op_key y) (op_key x)"
  shows "map_op x (map_op y m) = map_op y (map_op x m)"
proof -
  have "op_key x \<noteq> op_key y" using assms by auto
  then show ?thesis
    using assms by (cases x; cases y)
      (auto simp: del_map_def fun_eq_iff key_bits_inject simp flip: prefix_key_bits)
qed

lemma map_ops_commute:
  assumes "\<forall>x \<in> set xs. \<forall>y \<in> set ys. \<not> prefix (op_key x) (op_key y) \<and> \<not> prefix (op_key y) (op_key x)"
  shows "fold map_op xs (fold map_op ys m) = fold map_op ys (fold map_op xs m)"
proof -
  have one: "map_op x (fold map_op ys m) = fold map_op ys (map_op x m)"
    if "\<forall>y \<in> set ys. \<not> prefix (op_key x) (op_key y) \<and> \<not> prefix (op_key y) (op_key x)" for x m
    using that by (induction ys arbitrary: m) (simp_all add: map_op_commute)
  show ?thesis using assms by (induction xs arbitrary: m) (simp_all add: one)
qed

lemma accounts_permute:
  assumes kec: "\<And>d. length (kec d) = 32" and ok: "accounts_ok state" and perm: "mset state' = mset state"
  shows "fold map_op (commit_ops kec rlp state' markers) = fold map_op (commit_ops kec rlp state markers)"
proof -
  let ?A = "account_ops kec rlp (cm_skip_created markers)"
  have "fold map_op (?A a) \<circ> fold map_op (?A b) = fold map_op (?A b) \<circ> fold map_op (?A a)"
    if ab: "a \<in> set state" "b \<in> set state" for a b
  proof (cases "a = b")
    case False
    obtain addr acc addr' acc' where a: "a = (addr, acc)" and b: "b = (addr', acc')" by (cases a; cases b)
    have "addr \<noteq> addr'" using ok False ab eq_key_imp_eq_value [of state] a b by (auto simp: accounts_ok_def)
    moreover have "length addr = 20" "length addr' = 20" using ok ab a b by (auto simp: accounts_ok_def list_all_iff)
    ultimately have "\<not> prefix (op_key x) (op_key y) \<and> \<not> prefix (op_key y) (op_key x)"
      if "x \<in> set (?A a)" "y \<in> set (?A b)" for x y
      using that a b account_ops_keys other_account [of kec addr addr', OF kec] other_account [of kec addr' addr, OF kec] by blast
    then show ?thesis by (intro ext) (simp add: map_ops_commute)
  qed simp
  then have "fold (\<lambda>a. fold map_op (?A a)) state = fold (\<lambda>a. fold map_op (?A a)) state'"
    using perm by (intro fold_multiset_equiv) simp_all
  moreover have "fold map_op (concat (map ?A s)) = fold (\<lambda>a. fold map_op (?A a)) s" for s
    by (induction s) simp_all
  ultimately show ?thesis by (simp add: commit_ops_def)
qed

subsection \<open>The batch as a sequence of writes\<close>

definition batch_bits :: "batch \<Rightarrow> bit_entry list" where
  "batch_bits b = map (\<lambda>(k, v). (key_bits k, v)) b"

lemma spec_put_ops: "fold spec_op (put_ops b) t = aputs (batch_bits b) t"
  by (induction b arbitrary: t) (auto simp: put_ops_def batch_bits_def)

lemma batch_bits_map: "map_of (batch_bits xs) (key_bits k) = map_of xs k"
  by (induction xs) (auto simp: batch_bits_def key_bits_inject)

lemma batch_bits_cong:
  assumes "map_of xs = map_of ys"
  shows "map_of (batch_bits xs) = map_of (batch_bits ys)"
proof
  fix x
  show "map_of (batch_bits xs) x = map_of (batch_bits ys) x"
  proof (cases "\<exists>k. x = key_bits k")
    case True
    then show ?thesis using assms batch_bits_map by metis
  next
    case False
    then have "x \<notin> fst ` set (batch_bits zs)" for zs by (auto simp: batch_bits_def)
    then show ?thesis by (metis map_of_eq_None_iff)
  qed
qed

lemma apply_batch_root:
  assumes kec: "\<And>d. length (kec d) = 32" and root: "root_rep kec S n t" and ne: "\<forall>(k, v) \<in> set b. v \<noteq> []"
    and fit: "psize kec t + psize kec (fold spec_op (put_ops b) t) < 2 ^ 64"
  shows "\<exists>m. apply_batch kec S n b = Some m \<and> root_rep kec S m (fold spec_op (put_ops b) t)"
proof -
  note facts = bulk_entries_facts [of b]
  let ?es = "map (\<lambda>(k, v). (from_key k, v)) (bulk_entries b)"
  have bits: "bits_from 0 ?es = batch_bits (bulk_entries b)"
    by (simp add: bits_from_def batch_bits_def case_prod_unfold ks_bits_from_key)
  have ne': "no_empty (batch_bits b)" "no_empty (batch_bits (bulk_entries b))"
    using ne facts(3) by (auto simp: no_empty_def batch_bits_def)
  have asc: "ascending_bits (batch_bits (bulk_entries b))"
    unfolding ascending_bits_def batch_bits_def sorted_wrt_map
    by (rule sorted_wrt_mono_rel [OF _ facts(2)]) (auto simp: key_bits_less)
  have "distinct (map fst (bulk_entries b))"
    using facts(2) by (simp add: sorted_wrt_map [symmetric] strict_sorted_iff)
  then have "map_of (rev (bulk_entries b)) = map_of (bulk_entries b)"
    by (intro map_of_inject_set [THEN iffD2]) (simp_all add: rev_map [symmetric])
  then have "map_of (batch_bits (rev (bulk_entries b))) = map_of (batch_bits (rev b))"
    using facts(1) by (intro batch_bits_cong) simp
  then have "aget (aputs (batch_bits (bulk_entries b)) t) = aget (aputs (batch_bits b) t)"
    by (simp add: aget_aputs batch_bits_def rev_map)
  then have same: "aputs (batch_bits (bulk_entries b)) t = fold spec_op (put_ops b) t"
    using canonical_aputs [OF root_rep_canonical [OF root]] ne' by (simp add: spec_put_ops canonical_unique)
  have "reaches 0 ?es" by (auto simp: reaches_def)
  from put_bulk_root [of kec S n t ?es, OF kec root this] asc ne' fit
  have "\<exists>m. put_bulk kec S n ?es = Some m \<and> root_rep kec S m (fold spec_op (put_ops b) t)"
    by (simp add: bits same)
  moreover have "?es = map (\<lambda>(i, k, v). (from_key k, v)) (dedup_keys (sort_batch b))"
    by (simp add: bulk_entries_def case_prod_unfold)
  ultimately show ?thesis using root by (auto simp: apply_batch_def put_ops_def)
qed

subsection \<open>The batched commit\<close>

lemma canonical_fold_spec: "canonical t \<Longrightarrow> list_all op_ok ops \<Longrightarrow> canonical (fold spec_op ops t)"
proof (induction ops arbitrary: t)
  case (Cons x ops)
  then show ?case using canonical_aput canonical_adel by (cases x) auto
qed simp

lemma batched_root:
  assumes kec: "\<And>d. length (kec d) = 32" and root: "root_rep kec S n t"
    and spare: "sorted_wrt spares ops" and ok: "list_all op_ok ops" and fit: "tweight t + ops_cost ops < 2 ^ 63"
  shows "\<exists>m. apply_batch kec S (fold (apply_op kec S) (deletions ops) n) (writes ops) = Some m
    \<and> root_rep kec S m (fold spec_op ops t)"
proof -
  let ?t1 = "fold spec_op (deletions ops) t"
  have ok': "list_all op_ok (deletions ops)" using ok by (simp add: deletions_def list_all_iff)
  have free: "ops_cost (deletions ops) = 0" by (induction ops) (auto elim: is_put.elims(3))
  have r1: "root_rep kec S (fold (apply_op kec S) (deletions ops) n) ?t1"
    using fold_apply_op_root [of kec S n t "deletions ops", OF kec root] ops_fit_cost [OF ok', of t kec] fit free by simp
  have puts: "list_all op_ok (put_ops (writes ops))" using ok by (simp add: put_ops_writes list_all_iff)
  have "fold spec_op (put_ops (writes ops)) ?t1 = fold spec_op ops t"
  proof (rule canonical_unique)
    show "canonical (fold spec_op (put_ops (writes ops)) ?t1)" "canonical (fold spec_op ops t)"
      using canonical_fold_spec root_rep_canonical [OF root] puts ok ok' by blast+
    show "aget (fold spec_op (put_ops (writes ops)) ?t1) = aget (fold spec_op ops t)"
      using postpone_writes [OF spare] by (simp add: aget_fold_spec put_ops_writes)
  qed
  moreover have "\<forall>(k, v) \<in> set (writes ops). v \<noteq> []"
    using puts by (force simp: put_ops_def list_all_iff)
  moreover have "psize kec ?t1 + psize kec (fold spec_op ops t) < 2 ^ 64"
    using psize_fold_spec [of kec "deletions ops" t] psize_fold_spec [of kec ops t] free fit by simp
  ultimately show ?thesis using apply_batch_root [of kec S _ ?t1 "writes ops", OF kec r1] by simp
qed

lemma commit_raws: "fold (commit_raw kec S) ws = fold (apply_op kec S) (map (raw_write_op kec) ws)"
proof
  fix n
  show "fold (commit_raw kec S) ws n = fold (apply_op kec S) (map (raw_write_op kec) ws) n"
  proof (induction ws arbitrary: n)
    case (Cons w ws)
    have "commit_raw kec S w n = apply_op kec S (raw_write_op kec w) n"
      by (cases w) (auto simp: commit_raw_def raw_write_op_def Let_def split: option.splits)
    then show ?case using Cons.IH by simp
  qed simp
qed

definition same_root :: "(bytes \<Rightarrow> b256) \<Rightarrow> trie_node \<Rightarrow> trie_node \<Rightarrow> bool" where
  "same_root kec m m' = (compute_hash kec m = compute_hash kec m' \<and> to_message kec m = to_message kec m')"

lemma same_rootI: "root_rep kec S m t \<Longrightarrow> root_rep kec S m' t \<Longrightarrow> same_root kec m m'"
  unfolding same_root_def by (rule root_rep_same)

lemma as_encode_nonempty: "rlp_laws rlp \<Longrightarrow> as_encode rlp a \<noteq> []"
  by (simp add: as_encode_def rlp_laws_def Let_def)

lemma bump_same_root:
  assumes kec: "\<And>d. length (kec d) = 32" and rlp: "rlp_laws rlp" and fit: "psize kec t < 2 ^ 64"
    and m: "root_rep kec S m t" and m': "root_rep kec S m' t"
  shows "rel_option (same_root kec) (bump_remasc_sender kec rlp S m) (bump_remasc_sender kec rlp S m')"
proof -
  let ?key = "from_key (account_key_from_bytes kec [0x00])"
  have "get kec S m ?key = get kec S m' ?key" using get_root [of kec S _ t ?key, OF kec] m m' by simp
  moreover have "same_root kec (put kec S m ?key (as_encode rlp a)) (put kec S m' ?key (as_encode rlp a))" for a
    using put_root [of kec "as_encode rlp a" S _ t ?key, OF kec as_encode_nonempty [OF rlp] _ fit] m m'
    by (intro same_rootI) simp_all
  ultimately show ?thesis
    by (auto simp: bump_remasc_sender_def Let_def split: option.splits sum.splits)
qed

lemma slot_value_nonempty: "v \<noteq> 0 \<Longrightarrow> dropWhile (\<lambda>b. b = 0) (b256_of v) \<noteq> []"
proof
  assume "v \<noteq> 0" and none: "dropWhile (\<lambda>b. b = 0) (b256_of v) = []"
  have "from_be (b256_of v) = from_be []" by (simp only: none flip: from_be_dropWhile [of "b256_of v"])
  then show False
    using \<open>v \<noteq> 0\<close> unsigned_less [of v, where 'a = nat] by (simp add: b256_of_def from_be_to_be word_unat_eq_iff)
qed

lemma put_ops_ok: "list_all op_ok (put_ops b) \<longleftrightarrow> (\<forall>(k, v) \<in> set b. v \<noteq> [])"
  by (induction b) (auto simp: put_ops_def)

lemma account_ops_ok:
  assumes "rlp_laws rlp"
  shows "list_all op_ok (account_ops kec rlp skip (addr, acc))"
proof -
  have "list_all op_ok (put_ops (commit_created kec skip addr acc [account_info_entry kec rlp addr acc]))"
    using as_encode_nonempty [OF assms]
    by (auto simp: put_ops_ok commit_created_def account_info_entry_def Let_def split: option.splits)
  moreover have "op_ok (slot_op kec addr s)" for s
    using slot_value_nonempty [of "snd s"] by (auto simp: slot_op_def storage_entry_def case_prod_unfold)
  ultimately show ?thesis by (auto simp: account_ops_def list_all_iff)
qed

lemma commit_ops_ok: "rlp_laws rlp \<Longrightarrow> list_all op_ok (commit_ops kec rlp state markers)"
proof -
  assume "rlp_laws rlp"
  then have "list_all op_ok (concat (map (account_ops kec rlp (cm_skip_created markers)) state))"
    using account_ops_ok by (induction state) auto
  moreover have "list_all op_ok (precompile_ops kec ps)" for ps by (auto simp: precompile_ops_def put_ops_ok)
  ultimately show ?thesis by (simp add: commit_ops_def)
qed

text \<open>The overlay records the removal of a cell as \<open>None\<close>, never as an empty value.\<close>

definition raw_writes_ok :: "raw_write list \<Rightarrow> bool" where
  "raw_writes_ok ws = list_all (\<lambda>(addr, slot, v). v \<noteq> Some []) ws"

lemma drained_writes_ok: "raw_writes_ok (fst (drain (fold raw_step ops (set_reader store root rs_default))))"
proof -
  let ?inv = "\<lambda>s. raw_writes_ok (rs_committed s @ rs_pending s)"
  have "?inv (raw_step x s)" if "?inv s" for x s
    using that by (cases x) (fastforce simp: raw_writes_ok_def list_all_iff raw_put_def commit_call_def discard_call_def
        begin_tx_def discard_tx_def dest: in_set_takeD split: option.splits)+
  then have "?inv s \<Longrightarrow> ?inv (fold raw_step ops s)" for s by (induction ops arbitrary: s) simp_all
  then show ?thesis by (simp add: drain_def set_reader_def rs_default_def raw_writes_ok_def)
qed

lemma block_ops_ok: "rlp_laws rlp \<Longrightarrow> raw_writes_ok (cm_raw_storage markers) \<Longrightarrow> list_all op_ok (block_ops kec rlp state markers)"
  using commit_ops_ok [of rlp kec state markers]
  by (auto simp: block_ops_def raw_writes_ok_def raw_write_op_def list_all_iff split: option.splits)

lemma block_cost_permute:
  assumes "mset state' = mset state"
  shows "ops_cost (commit_ops kec rlp state' markers) = ops_cost (commit_ops kec rlp state markers)"
proof -
  let ?A = "account_ops kec rlp (cm_skip_created markers)"
  have "ops_cost (concat (map ?A s)) = sum_list (map (\<lambda>a. ops_cost (?A a)) s)" for s by (induction s) simp_all
  moreover have "sum_list (map (\<lambda>a. ops_cost (?A a)) state') = sum_list (map (\<lambda>a. ops_cost (?A a)) state)"
    using assms by (simp flip: sum_mset_sum_list)
  ultimately show ?thesis by (simp add: commit_ops_def)
qed

text \<open>C5. Committing a block in one batch is committing it key by key: from any root that represents a
  trie, \<open>apply_state_changes\<close>, which runs the deletions first and then all writes in one sorted
  descent, gives a root with the hash and the message of the commit that updates the trie once per key
  in the order of the loop, and the accounts may be taken in any other order; the one panics only if
  the other does.\<close>

theorem batched_commit_is_per_key:
  assumes kec: "\<And>d. length (kec d) = 32" and rlp: "rlp_laws rlp"
    and root: "root_rep kec S n t" and ok: "accounts_ok state" and perm: "mset state' = mset state"
    and raws: "raw_writes_ok (cm_raw_storage markers)"
    and fit: "tweight t + ops_cost (block_ops kec rlp state markers) < 2 ^ 63"
  shows "rel_option (same_root kec) (apply_state_changes kec rlp S n state markers)
    (per_key_commit kec rlp S n state' markers)"
proof -
  let ?ops = "commit_ops kec rlp state markers" and ?ops' = "commit_ops kec rlp state' markers"
    and ?raws = "map (raw_write_op kec) (cm_raw_storage markers)"
  let ?t2 = "fold spec_op ?ops' t" and ?t3 = "fold spec_op (?ops' @ ?raws) t"
  note oks = commit_ops_ok [OF rlp, of kec _ markers] block_ops_ok [OF rlp raws, of kec state']
  have fit': "tweight t + ops_cost (?ops' @ ?raws) < 2 ^ 63"
    using fit block_cost_permute [OF perm, of kec rlp markers] by (simp add: block_ops_def)
  have fits: "ops_fit kec (?ops' @ ?raws) t" "ops_fit kec ?raws ?t2"
    using oks(2) fit' tweight_fold_spec [of ?ops' t] by (auto simp: block_ops_def intro!: ops_fit_cost)
  have small: "psize kec ?t3 < 2 ^ 64" using psize_fold_spec [of kec "?ops' @ ?raws" t] fit' by simp
  have same: "fold spec_op ?ops t = ?t2"
    using canonical_fold_spec [OF root_rep_canonical [OF root]] oks(1) accounts_permute [of kec, OF kec ok perm]
    by (intro canonical_unique) (simp_all add: aget_fold_spec)
  obtain m2 where m2: "apply_batch kec S (fold (apply_op kec S) (deletions ?ops) n) (writes ?ops) = Some m2"
      "root_rep kec S m2 ?t2"
    using batched_root [of kec S n t ?ops, OF kec root commit_ops_spare [of kec, OF kec ok] oks(1)] fit same
    by (auto simp: block_ops_def)
  define m3 where "m3 = fold (commit_raw kec S) (cm_raw_storage markers) m2"
  have r3: "root_rep kec S m3 ?t3"
    using fold_apply_op_root [of kec S m2 ?t2 ?raws, OF kec m2(2) fits(2)] by (simp add: m3_def commit_raws)
  have r3': "root_rep kec S (fold (apply_op kec S) (?ops' @ ?raws) n) ?t3"
    by (rule fold_apply_op_root [OF kec root fits(1)])
  have "apply_state_changes kec rlp S n state markers =
      (if cm_bump_remasc_sender markers then bump_remasc_sender kec rlp S m3 else Some m3)"
    using m2(1) by (simp add: apply_state_changes_def commit_collect commit_ops_def precompile_ops_def m3_def Let_def)
  then show ?thesis
    using bump_same_root [of kec rlp ?t3 S, OF kec rlp small r3 r3'] same_rootI [OF r3 r3']
    by (simp add: per_key_commit_def block_ops_def Let_def)
qed

definition sample_account :: commit_account where
  "sample_account = \<lparr> ac_selfdestructed = True, ac_touched = True, ac_created = True, ac_created_locally = False,
     ac_nonce = 1, ac_balance = 0, ac_code = Some [0x60], ac_storage = [(1, 5), (2, 0)] \<rparr>"

definition sample_state :: "(address \<times> commit_account) list" where
  "sample_state = [(replicate 20 7, sample_account), (replicate 20 9, sample_account\<lparr> ac_touched := False \<rparr>)]"

definition sample_markers :: contract_markers where
  "sample_markers = \<lparr> cm_skip_created = [], cm_precompiles = [replicate 20 1], cm_bump_remasc_sender = True,
     cm_raw_storage = [(replicate 20 7, 1, None)] \<rparr>"

theorem batched_commit_is_per_key_witness:
  "rel_option (same_root toy_kec) (apply_state_changes toy_kec small_rlp Map.empty tn_empty sample_state sample_markers)
     (per_key_commit toy_kec small_rlp Map.empty tn_empty (rev sample_state) sample_markers)"
proof -
  have "ops_cost (account_ops toy_kec small_rlp [] (replicate 20 7, sample_account)) \<le> 5000"
      "length (storage_prefix_key toy_kec (replicate 20 1)) = 32"
    by code_simp+
  moreover have "account_ops toy_kec small_rlp [] (replicate 20 9, sample_account\<lparr> ac_touched := False \<rparr>)
      = [OpDeleteRecursive (account_key toy_kec (replicate 20 9))]"
    by (simp add: account_ops_def sample_account_def)
  ultimately have "ops_cost (block_ops toy_kec small_rlp sample_state sample_markers) \<le> 6000"
    by (simp add: block_ops_def commit_ops_def precompile_ops_def put_ops_def raw_write_op_def sample_state_def sample_markers_def)
  moreover have "accounts_ok sample_state" "raw_writes_ok (cm_raw_storage sample_markers)" by code_simp+
  ultimately show ?thesis
    by (intro batched_commit_is_per_key [OF length_toy_kec small_rlp_laws root_rep_empty]) simp_all
qed

end
