(* ===== verification/Block_Store.thy ===== *)
theory Block_Store
  imports Chain_Types
begin

text \<open>
  The block database as the position code sees it (\<open>crates/storage/src/lib.rs\<close>,
  \<open>crates/storage/src/pruner.rs\<close>): one map per column family, the metadata keys, and a write
  batch as the list of its writes. RocksDB is not modelled beyond that: a read returns what was
  last written and reads and writes do not fail, so the \<open>Result\<close> of a bare accessor is dropped.
  \<open>hh\<close> is the hash of a header.
\<close>

record prune_floor =
  pf_number :: u64
  pf_hash :: b256
  pf_total_difficulty :: u256

record block_store =
  bs_headers :: "b256 \<Rightarrow> header option"
  bs_header_numbers :: "b256 \<Rightarrow> u64 option"
  bs_numbers :: "u64 \<Rightarrow> b256 option"
  bs_td :: "b256 \<Rightarrow> u256 option"
  bs_height_index :: "(u64 \<times> b256) set"
  bs_head :: "b256 option"
  bs_exec_head :: "(b256 \<times> b256) option"
  bs_prune_floor :: "prune_floor option"
  bs_freezer :: "(u64 \<Rightarrow> header option) option"

definition empty_store :: block_store where
  "empty_store = \<lparr> bs_headers = Map.empty, bs_header_numbers = Map.empty, bs_numbers = Map.empty,
     bs_td = Map.empty, bs_height_index = {}, bs_head = None, bs_exec_head = None,
     bs_prune_floor = None, bs_freezer = None \<rparr>"

subsection \<open>Reads\<close>

definition frozen_header_by_hash :: "block_store \<Rightarrow> b256 \<Rightarrow> header option" where
  "frozen_header_by_hash s h =
     (case bs_freezer s of
        None \<Rightarrow> None
      | Some f \<Rightarrow> (case bs_header_numbers s h of None \<Rightarrow> None | Some n \<Rightarrow> f n))"

definition get_header :: "block_store \<Rightarrow> b256 \<Rightarrow> header option" where
  "get_header s h =
     (case bs_headers s h of Some hdr \<Rightarrow> Some hdr | None \<Rightarrow> frozen_header_by_hash s h)"

definition canonical_hash :: "(header \<Rightarrow> b256) \<Rightarrow> block_store \<Rightarrow> u64 \<Rightarrow> b256 option" where
  "canonical_hash hh s n =
     (case bs_numbers s n of
        Some h \<Rightarrow> Some h
      | None \<Rightarrow> (case bs_freezer s of
                   Some f \<Rightarrow> (case f n of Some hdr \<Rightarrow> Some (hh hdr) | None \<Rightarrow> None)
                 | None \<Rightarrow> None))"

definition prune_floor_number :: "block_store \<Rightarrow> u64" where
  "prune_floor_number s = (case bs_prune_floor s of Some f \<Rightarrow> pf_number f | None \<Rightarrow> 0)"

definition has_block :: "block_store \<Rightarrow> b256 \<Rightarrow> bool" where
  "has_block s h = (bs_headers s h \<noteq> None)"

subsection \<open>Writes\<close>

datatype batch_op =
    PutHeader b256 header
  | PutTd b256 u256
  | PutHeightIndex u64 b256
  | PutNumber u64 b256
  | DeleteNumber u64
  | PutHead b256
  | PutExecHead b256 b256

fun write_op :: "batch_op \<Rightarrow> block_store \<Rightarrow> block_store" where
  "write_op (PutHeader h hdr) s = s\<lparr> bs_headers := (bs_headers s)(h \<mapsto> hdr) \<rparr>"
| "write_op (PutTd h td) s = s\<lparr> bs_td := (bs_td s)(h \<mapsto> td) \<rparr>"
| "write_op (PutHeightIndex n h) s = s\<lparr> bs_height_index := insert (n, h) (bs_height_index s) \<rparr>"
| "write_op (PutNumber n h) s = s\<lparr> bs_numbers := (bs_numbers s)(n \<mapsto> h) \<rparr>"
| "write_op (DeleteNumber n) s = s\<lparr> bs_numbers := (bs_numbers s)(n := None) \<rparr>"
| "write_op (PutHead h) s = s\<lparr> bs_head := Some h \<rparr>"
| "write_op (PutExecHead h root) s = s\<lparr> bs_exec_head := Some (h, root) \<rparr>"

definition write_batch :: "batch_op list \<Rightarrow> block_store \<Rightarrow> block_store" where
  "write_batch ops s = fold write_op ops s"

definition put_header_with_hash :: "block_store \<Rightarrow> b256 \<Rightarrow> header \<Rightarrow> block_store" where
  "put_header_with_hash s h hdr = write_batch [PutHeader h hdr, PutHeightIndex (hd_number hdr) h] s"

definition put_header :: "(header \<Rightarrow> b256) \<Rightarrow> block_store \<Rightarrow> header \<Rightarrow> block_store" where
  "put_header hh s hdr = put_header_with_hash s (hh hdr) hdr"

definition put_canonical_hash :: "block_store \<Rightarrow> u64 \<Rightarrow> b256 \<Rightarrow> block_store" where
  "put_canonical_hash s n h = write_op (PutNumber n h) s"

definition delete_canonical_hash :: "block_store \<Rightarrow> u64 \<Rightarrow> block_store" where
  "delete_canonical_hash s n = write_op (DeleteNumber n) s"

definition set_head :: "block_store \<Rightarrow> b256 \<Rightarrow> block_store" where
  "set_head s h = write_op (PutHead h) s"

definition set_exec_head :: "block_store \<Rightarrow> b256 \<Rightarrow> b256 \<Rightarrow> block_store" where
  "set_exec_head s h root = write_op (PutExecHead h root) s"

definition clear_exec_head :: "block_store \<Rightarrow> block_store" where
  "clear_exec_head s = s\<lparr> bs_exec_head := None \<rparr>"

definition update_head :: "(header \<Rightarrow> b256) \<Rightarrow> block_store \<Rightarrow> header \<Rightarrow> u256 \<Rightarrow> block_store" where
  "update_head hh s hdr td =
     (let h = hh hdr;
          s1 = put_header hh s hdr;
          s2 = write_op (PutTd h td) s1;
          s3 = put_canonical_hash s2 (hd_number hdr) h
      in set_head s3 h)"

subsection \<open>Effect of a batch\<close>

lemma write_batch_Nil [simp]: "write_batch [] s = s"
  and write_batch_Cons [simp]: "write_batch (op # ops) s = write_batch ops (write_op op s)"
  and write_batch_append [simp]: "write_batch (xs @ ys) s = write_batch ys (write_batch xs s)"
  by (simp_all add: write_batch_def)

text \<open>Batches that touch only the canonical index.\<close>

fun number_op :: "batch_op \<Rightarrow> bool" where
  "number_op (PutNumber _ _) = True"
| "number_op (DeleteNumber _) = True"
| "number_op _ = False"

lemma write_numbers_ex: "list_all number_op ops \<Longrightarrow> \<exists>idx. write_batch ops s = s\<lparr> bs_numbers := idx \<rparr>"
proof (induction ops arbitrary: s)
  case Nil
  have "s = s\<lparr> bs_numbers := bs_numbers s \<rparr>" by simp
  then show ?case by (metis write_batch_Nil)
next
  case (Cons op ops)
  then obtain f where f: "write_op op s = s\<lparr> bs_numbers := f \<rparr>" by (cases op) auto
  from Cons obtain g where "write_batch ops (s\<lparr> bs_numbers := f \<rparr>) = s\<lparr> bs_numbers := f \<rparr>\<lparr> bs_numbers := g \<rparr>"
    by fastforce
  with f show ?case by auto
qed

lemma write_numbers:
  "list_all number_op ops \<Longrightarrow> write_batch ops s = s\<lparr> bs_numbers := bs_numbers (write_batch ops s) \<rparr>"
  by (drule write_numbers_ex [of _ s]) auto

lemma put_numbers:
  "bs_numbers (write_batch (map (\<lambda>(n, h). PutNumber n h) xs) s) = bs_numbers s ++ map_of (rev xs)"
proof (induction xs arbitrary: s)
  case (Cons x xs)
  then show ?case by (cases x) (auto simp: fun_eq_iff map_add_def split: option.split)
qed simp

lemma delete_numbers:
  "bs_numbers (write_batch (map DeleteNumber ns) s) = (\<lambda>n. if n \<in> set ns then None else bs_numbers s n)"
proof (induction ns arbitrary: s)
  case (Cons n ns)
  then show ?case by (auto simp: fun_eq_iff)
qed simp

lemma list_all_number_ops [simp]:
  "list_all number_op (map (\<lambda>(n, h). PutNumber n h) xs)" "list_all number_op (map DeleteNumber ns)"
  by (auto simp: list_all_iff)

end
