(* ===== verification/Remasc.thy ===== *)
theory Remasc
  imports Block_Store Raw_Storage Account_State "HOL-Library.List_Lexorder"
begin

text \<open>
  The distribution of mining fees by the REMASC contract (\<open>crates/execution/src/remasc.rs\<close>).
  The journal of the EVM library is a record of the operations the code calls, on a state of any type;
  the members of the federation come from the Bridge, whose resolution is the parameter \<open>fed\<close>. Block
  bodies are the map of their column family. \<open>None\<close> is a panic: a division by zero.
\<close>

subsection \<open>Configuration\<close>

record remasc_config =
  rm_maturity :: u64
  rm_synthetic_span :: u64
  rm_rsk_labs_divisor :: u64
  rm_federation_divisor :: u64
  rm_punishment_divisor :: u64
  rm_publishers_divisor :: u64
  rm_late_uncle_inclusion_punishment_divisor :: u64
  rm_rsk_labs_address :: address
  rm_rsk_labs_address_rskip218 :: address
  rm_rskip218_activation_height :: u64
  rm_rskip85_activation_height :: u64
  rm_minimum_payable_gas :: u64
  rm_federator_minimum_payable_gas :: u64

definition UNCLE_GENERATION_LIMIT_R :: u64 where "UNCLE_GENERATION_LIMIT_R = 7"

definition remasc_mainnet :: remasc_config where
  "remasc_mainnet = \<lparr> rm_maturity = 4000, rm_synthetic_span = 10, rm_rsk_labs_divisor = 5,
     rm_federation_divisor = 100, rm_punishment_divisor = 10, rm_publishers_divisor = 10,
     rm_late_uncle_inclusion_punishment_divisor = 20,
     rm_rsk_labs_address = [0x14, 0xd3, 0x06, 0x5c, 0x8e, 0xb8, 0x98, 0x95, 0xf4, 0xdf,
       0x12, 0x45, 0x0e, 0xc6, 0xb1, 0x30, 0x04, 0x9f, 0x80, 0x34],
     rm_rsk_labs_address_rskip218 = [0xdc, 0xb1, 0x21, 0x79, 0xba, 0x46, 0x97, 0x35, 0x0f, 0x66,
       0x22, 0x4c, 0x95, 0x9b, 0xdd, 0x9c, 0x28, 0x28, 0x18, 0xdf],
     rm_rskip218_activation_height = 3614800, rm_rskip85_activation_height = 729000,
     rm_minimum_payable_gas = 200000, rm_federator_minimum_payable_gas = 50000 \<rparr>"

definition remasc_testnet :: remasc_config where
  "remasc_testnet = \<lparr> rm_maturity = 50, rm_synthetic_span = 10, rm_rsk_labs_divisor = 5,
     rm_federation_divisor = 100, rm_punishment_divisor = 10, rm_publishers_divisor = 10,
     rm_late_uncle_inclusion_punishment_divisor = 20,
     rm_rsk_labs_address = concat (replicate 9 [0xda, 0xba]) @ [0x00, 0x03],
     rm_rsk_labs_address_rskip218 = concat (replicate 9 [0xda, 0xba]) @ [0x00, 0x03],
     rm_rskip218_activation_height = 2060500, rm_rskip85_activation_height = 0,
     rm_minimum_payable_gas = 200000, rm_federator_minimum_payable_gas = 50000 \<rparr>"

definition remasc_regtest :: remasc_config where
  "remasc_regtest = \<lparr> rm_maturity = 10, rm_synthetic_span = 5, rm_rsk_labs_divisor = 5,
     rm_federation_divisor = 100, rm_punishment_divisor = 10, rm_publishers_divisor = 10,
     rm_late_uncle_inclusion_punishment_divisor = 20,
     rm_rsk_labs_address = concat (replicate 9 [0xda, 0xba]) @ [0x00, 0x01],
     rm_rsk_labs_address_rskip218 = concat (replicate 9 [0xda, 0xba]) @ [0x00, 0x01],
     rm_rskip218_activation_height = 0, rm_rskip85_activation_height = 0,
     rm_minimum_payable_gas = 200000, rm_federator_minimum_payable_gas = 50000 \<rparr>"

definition labs_address_at :: "remasc_config \<Rightarrow> u64 \<Rightarrow> address" where
  "labs_address_at cfg n =
     (if rm_rskip218_activation_height cfg \<le> n then rm_rsk_labs_address_rskip218 cfg else rm_rsk_labs_address cfg)"

subsection \<open>Storage and transfers\<close>

definition REMASC_ADDR :: address where
  "REMASC_ADDR = replicate 16 0 @ [0x01, 0x00, 0x00, 0x08]"

definition legacy_topic :: "bytes \<Rightarrow> b256" where
  "legacy_topic name = replicate (32 - length name) 0 @ name"

definition remasc_storage_key :: "bytes \<Rightarrow> u256" where
  "remasc_storage_key name = foldl (\<lambda>acc b. acc * 256 + ucast b) 0 (replicate (32 - length name) 0 @ name)"

definition reward_key :: u256 where "reward_key = remasc_storage_key (map of_char ''rewardBalance'')"
definition burned_key :: u256 where "burned_key = remasc_storage_key (map of_char ''burnedBalance'')"
definition broken_key :: u256 where "broken_key = remasc_storage_key (map of_char ''brokenSelectionRule'')"
definition fed_key :: u256 where "fed_key = remasc_storage_key (map of_char ''federationBalance'')"

text \<open>
  What the code calls of the journal. A read is \<open>None\<close> when the database fails; a transfer says whether
  it went through.
\<close>

record 'j journal_ops =
  jo_sload :: "'j \<Rightarrow> address \<Rightarrow> u256 \<Rightarrow> u256 option \<times> 'j"
  jo_sstore :: "'j \<Rightarrow> address \<Rightarrow> u256 \<Rightarrow> u256 \<Rightarrow> 'j"
  jo_transfer :: "'j \<Rightarrow> address \<Rightarrow> address \<Rightarrow> u256 \<Rightarrow> bool \<times> 'j"
  jo_load_account :: "'j \<Rightarrow> address \<Rightarrow> 'j"
  jo_touch_account :: "'j \<Rightarrow> address \<Rightarrow> 'j"
  jo_log :: "'j \<Rightarrow> address \<Rightarrow> b256 list \<Rightarrow> bytes \<Rightarrow> 'j"

definition remasc_sload :: "'j journal_ops \<Rightarrow> u256 \<Rightarrow> 'j \<Rightarrow> u256 \<times> 'j" where
  "remasc_sload J key j =
     (case jo_sload J j REMASC_ADDR key of (Some v, j1) \<Rightarrow> (v, j1) | (None, j1) \<Rightarrow> (0, j1))"

definition remasc_sstore :: "'j journal_ops \<Rightarrow> u256 \<Rightarrow> u256 \<Rightarrow> 'j \<Rightarrow> 'j" where
  "remasc_sstore J key v j = jo_sstore J j REMASC_ADDR key v"

definition remasc_load_bool :: "'j journal_ops \<Rightarrow> u256 \<Rightarrow> 'j \<Rightarrow> bool \<times> 'j" where
  "remasc_load_bool J key j = (case remasc_sload J key j of (v, j1) \<Rightarrow> (v \<noteq> 0, j1))"

definition remasc_transfer :: "'j journal_ops \<Rightarrow> address \<Rightarrow> u256 \<Rightarrow> 'j \<Rightarrow> bool \<times> 'j" where
  "remasc_transfer J recipient amount j =
     (if amount = 0 then (True, jo_touch_account J (jo_load_account J j recipient) recipient)
      else jo_transfer J j REMASC_ADDR recipient amount)"

subsection \<open>Siblings\<close>

record sibling =
  sb_hash :: b256
  sb_coinbase :: address
  sb_paid_fees :: u256
  sb_included_block_coinbase :: address
  sb_included_height :: u64
  sb_uncle_count :: u64

type_synonym bodies = "b256 \<Rightarrow> (transaction list \<times> header list) option"

definition siblings_at :: "(header \<Rightarrow> b256) \<Rightarrow> block_store \<Rightarrow> bodies \<Rightarrow> u64 \<Rightarrow> u64 \<Rightarrow> sibling list" where
  "siblings_at hh s bodies candidate height =
     (case canonical_hash hh s height of
        None \<Rightarrow> []
      | Some h \<Rightarrow>
          (case get_header s h of
             None \<Rightarrow> []
           | Some including \<Rightarrow>
               let ommers = (case bodies h of Some (_, os) \<Rightarrow> os | None \<Rightarrow> [])
               in map (\<lambda>om. \<lparr> sb_hash = hh om, sb_coinbase = beneficiary om, sb_paid_fees = paid_fees om,
                     sb_included_block_coinbase = beneficiary including, sb_included_height = height,
                     sb_uncle_count = uncle_count om \<rparr>)
                   (filter (\<lambda>om. hd_number om = candidate) ommers)))"

definition collect_siblings :: "(header \<Rightarrow> b256) \<Rightarrow> block_store \<Rightarrow> bodies \<Rightarrow> u64 \<Rightarrow> u64 \<Rightarrow> sibling list" where
  "collect_siblings hh s bodies candidate current =
     (let last = min (candidate + UNCLE_GENERATION_LIMIT_R) current
      in concat (map (siblings_at hh s bodies candidate \<circ> of_nat) [unat (candidate + 1) ..< Suc (unat last)]))"

fun selection_loop :: "b256 \<Rightarrow> header \<Rightarrow> u64 \<Rightarrow> sibling list \<Rightarrow> bool" where
  "selection_loop ph processing mx [] = (uncle_count processing < mx)"
| "selection_loop ph processing mx (s # ss) =
     (if paid_fees processing * 2 < sb_paid_fees s then True
      else if paid_fees processing < sb_paid_fees s * 2 \<and> sb_hash s < ph then True
      else selection_loop ph processing (max mx (sb_uncle_count s)) ss)"

definition is_broken_selection_rule :: "(header \<Rightarrow> b256) \<Rightarrow> header \<Rightarrow> sibling list \<Rightarrow> bool" where
  "is_broken_selection_rule hh processing ss = selection_loop (hh processing) processing 0 ss"

subsection \<open>Payments\<close>

definition udiv :: "u256 \<Rightarrow> u256 \<Rightarrow> u256 option" where
  "udiv x d = (if d = 0 then None else Some (x div d))"

record sibling_payment =
  sp_individual_publisher_reward :: u256
  sp_publishers_surplus :: u256
  sp_individual_miner_reward :: u256
  sp_miners_surplus :: u256
  sp_punishment :: u256

definition calculate :: "u256 \<Rightarrow> bool \<Rightarrow> u64 \<Rightarrow> remasc_config \<Rightarrow> sibling_payment option" where
  "calculate full_block_reward previous_broken siblings_count cfg = do {
     publishers_reward \<leftarrow> udiv full_block_reward (ucast (rm_publishers_divisor cfg));
     let miners_reward = full_block_reward - publishers_reward;
     let n = ucast siblings_count;
     individual_publisher_reward \<leftarrow> udiv publishers_reward n;
     let publishers_surplus = publishers_reward mod n;
     let n_plus_1 = ucast (siblings_count + 1);
     individual_miner_base \<leftarrow> udiv miners_reward n_plus_1;
     let miners_surplus = miners_reward mod n_plus_1;
     p \<leftarrow> (if previous_broken then udiv individual_miner_base (ucast (rm_punishment_divisor cfg)) else Some 0);
     Some \<lparr> sp_individual_publisher_reward = individual_publisher_reward, sp_publishers_surplus = publishers_surplus,
       sp_individual_miner_reward = individual_miner_base - p, sp_miners_surplus = miners_surplus, sp_punishment = p \<rparr>
   }"

definition pay_mining_fees :: "'j journal_ops \<Rightarrow> rlp_ops \<Rightarrow> b256 \<Rightarrow> address \<Rightarrow> u256 \<Rightarrow> 'j \<Rightarrow> 'j" where
  "pay_mining_fees J rlp processing_hash payee v j =
     (let j1 = snd (remasc_transfer J payee v j);
          inner = rlp_string rlp processing_hash @ rlp_uint rlp v
      in jo_log J j1 REMASC_ADDR [legacy_topic (map of_char ''mining_fee_topic''), replicate 12 0 @ payee]
           (rlp_list_header rlp (length inner) @ inner))"

definition add_to_burned :: "'j journal_ops \<Rightarrow> u256 \<Rightarrow> 'j \<Rightarrow> 'j" where
  "add_to_burned J amount j =
     (if amount = 0 then j
      else case remasc_sload J burned_key j of (burned, j1) \<Rightarrow> remasc_sstore J burned_key (burned + amount) j1)"

fun pay_federators :: "'j journal_ops \<Rightarrow> rlp_ops \<Rightarrow> b256 \<Rightarrow> u256 \<Rightarrow> u256 \<Rightarrow> address list \<Rightarrow> 'j \<Rightarrow> 'j" where
  "pay_federators J rlp h share remainder [] j = j"
| "pay_federators J rlp h share remainder [f] j = pay_mining_fees J rlp h f (share + remainder) j"
| "pay_federators J rlp h share remainder (f # g # fs) j =
     pay_federators J rlp h share remainder (g # fs) (pay_mining_fees J rlp h f share j)"

type_synonym 'j federation = "'j \<Rightarrow> u64 \<Rightarrow> u64 \<Rightarrow> address list \<times> 'j"

definition pay_to_federation ::
  "'j journal_ops \<Rightarrow> rlp_ops \<Rightarrow> 'j federation \<Rightarrow> remasc_config \<Rightarrow> u64 \<Rightarrow> b256 \<Rightarrow> u64 \<Rightarrow> u64 \<Rightarrow> u256 \<Rightarrow> 'j
   \<Rightarrow> (u256 \<times> 'j) option" where
  "pay_to_federation J rlp fed cfg basefee h processing_number current synthetic_reward j = do {
     federation_reward \<leftarrow> udiv synthetic_reward (ucast (rm_federation_divisor cfg));
     let (stored, j1) = remasc_sload J fed_key j;
     let pay_total = stored + federation_reward;
     let (federators, j2) = fed j1 processing_number current;
     if federators = [] then Some (federation_reward, remasc_sstore J fed_key pay_total j2)
     else do {
       let n = ucast (of_nat (length federators) :: u64);
       per_federator \<leftarrow> udiv pay_total n;
       let remainder = pay_total mod n;
       let gated = rm_rskip85_activation_height cfg \<le> current;
       let min_payable = ucast basefee * ucast (rm_federator_minimum_payable_gas cfg);
       if gated \<and> per_federator < min_payable then Some (federation_reward, remasc_sstore J fed_key pay_total j2)
       else do {
         let j3 = (if gated then remasc_sstore J fed_key 0 j2 else j2);
         Some (federation_reward, pay_federators J rlp h per_federator remainder federators j3)
       }
     }
   }"

fun pay_siblings ::
  "'j journal_ops \<Rightarrow> rlp_ops \<Rightarrow> b256 \<Rightarrow> u256 \<Rightarrow> u256 \<Rightarrow> u64 \<Rightarrow> sibling list \<Rightarrow> 'j \<Rightarrow> 'j option" where
  "pay_siblings J rlp h reward late_divisor processing_number [] j = Some j"
| "pay_siblings J rlp h reward late_divisor processing_number (s # ss) j = do {
     let blocks_late = saturating_sub (sb_included_height s) (processing_number + 1);
     late_punishment \<leftarrow> udiv (reward * ucast blocks_late) late_divisor;
     let j1 = pay_mining_fees J rlp h (sb_coinbase s) (reward - late_punishment) j;
     pay_siblings J rlp h reward late_divisor processing_number ss (add_to_burned J late_punishment j1)
   }"

definition pay_with_siblings ::
  "'j journal_ops \<Rightarrow> rlp_ops \<Rightarrow> remasc_config \<Rightarrow> b256 \<Rightarrow> header \<Rightarrow> u256 \<Rightarrow> sibling list \<Rightarrow> bool \<Rightarrow> 'j \<Rightarrow> 'j option" where
  "pay_with_siblings J rlp cfg h processing full_block_reward siblings previous_broken j = do {
     calc \<leftarrow> calculate full_block_reward previous_broken (of_nat (length siblings)) cfg;
     let j1 = fold (\<lambda>s. pay_mining_fees J rlp h (sb_included_block_coinbase s) (sp_individual_publisher_reward calc)) siblings j;
     let j2 = add_to_burned J (sp_miners_surplus calc) (add_to_burned J (sp_publishers_surplus calc) j1);
     j3 \<leftarrow> pay_siblings J rlp h (sp_individual_miner_reward calc) (ucast (rm_late_uncle_inclusion_punishment_divisor cfg))
            (hd_number processing) siblings j2;
     let j4 = (if previous_broken
               then add_to_burned J (sp_punishment calc * ucast (of_nat (length siblings) + 1 :: u64)) j3 else j3);
     Some (pay_mining_fees J rlp h (beneficiary processing) (sp_individual_miner_reward calc) j4)
   }"

subsection \<open>The call\<close>

record 'j remasc_ctx =
  cx_journal :: 'j
  cx_raw :: raw_storage
  cx_number :: u256
  cx_basefee :: u64

datatype remasc_error = NoBlockStore | ProcessingBlockNotFound | ProcessingHeaderNotFound

definition pay_without_siblings ::
  "'j journal_ops \<Rightarrow> rlp_ops \<Rightarrow> remasc_config \<Rightarrow> b256 \<Rightarrow> header \<Rightarrow> u256 \<Rightarrow> bool \<Rightarrow> 'j \<Rightarrow> 'j option" where
  "pay_without_siblings J rlp cfg h processing remaining previous_broken j =
     (if previous_broken then do {
        punishment \<leftarrow> udiv remaining (ucast (rm_punishment_divisor cfg));
        Some (pay_mining_fees J rlp h (beneficiary processing) (remaining - punishment) (add_to_burned J punishment j))
      }
      else Some (pay_mining_fees J rlp h (beneficiary processing) remaining j))"

definition distribute ::
  "'j journal_ops \<Rightarrow> rlp_ops \<Rightarrow> 'j federation \<Rightarrow> remasc_config \<Rightarrow> u64 \<Rightarrow> b256 \<Rightarrow> header \<Rightarrow> u64 \<Rightarrow> u64 \<Rightarrow> sibling list
   \<Rightarrow> bool \<Rightarrow> u256 \<Rightarrow> 'j \<Rightarrow> 'j option" where
  "distribute J rlp fed cfg basefee h processing candidate current siblings previous_broken synthetic_reward j = do {
     rsk_labs_pay \<leftarrow> udiv synthetic_reward (ucast (rm_rsk_labs_divisor cfg));
     let j1 = pay_mining_fees J rlp h (labs_address_at cfg current) rsk_labs_pay j;
     let remaining = synthetic_reward - rsk_labs_pay;
     (federation_reward, j2) \<leftarrow> pay_to_federation J rlp fed cfg basefee h candidate current remaining j1;
     let remaining2 = remaining - federation_reward;
     if siblings \<noteq> [] then pay_with_siblings J rlp cfg h processing remaining2 siblings previous_broken j2
     else pay_without_siblings J rlp cfg h processing remaining2 previous_broken j2
   }"

text \<open>From the accrual of the processed block's fees on.\<close>

definition settle ::
  "'j journal_ops \<Rightarrow> rlp_ops \<Rightarrow> (header \<Rightarrow> b256) \<Rightarrow> 'j federation \<Rightarrow> remasc_config \<Rightarrow> block_store \<Rightarrow> bodies
   \<Rightarrow> u64 \<Rightarrow> u64 \<Rightarrow> b256 \<Rightarrow> header \<Rightarrow> 'j remasc_ctx \<Rightarrow> 'j remasc_ctx option" where
  "settle J rlp hh fed cfg s bodies candidate current h processing ctx =
     (let (stored, j1) = remasc_sload J reward_key (cx_journal ctx);
          reward_balance = stored + paid_fees processing;
          j2 = remasc_sstore J reward_key reward_balance j1
      in if candidate < rm_synthetic_span cfg then Some (ctx\<lparr> cx_journal := j2 \<rparr>)
         else
           let siblings = collect_siblings hh s bodies candidate current;
               (previous_broken, j3) = remasc_load_bool J broken_key j2;
               broken_now = (siblings \<noteq> [] \<and> is_broken_selection_rule hh processing siblings);
               raw1 = raw_put REMASC_ADDR broken_key (Some [if broken_now then 1 else 0]) (cx_raw ctx);
               ctx1 = ctx\<lparr> cx_journal := j3, cx_raw := raw1 \<rparr>
           in case udiv reward_balance (ucast (rm_synthetic_span cfg)) of
                None \<Rightarrow> None
              | Some synthetic_reward \<Rightarrow>
                  if rm_rskip85_activation_height cfg \<le> current
                    \<and> synthetic_reward < ucast (cx_basefee ctx) * ucast (rm_minimum_payable_gas cfg)
                  then Some ctx1
                  else
                    let j4 = remasc_sstore J reward_key (reward_balance - synthetic_reward) j3
                    in case distribute J rlp fed cfg (cx_basefee ctx) h processing candidate current
                             siblings previous_broken synthetic_reward j4 of
                         None \<Rightarrow> None
                       | Some j5 \<Rightarrow> Some (ctx1\<lparr> cx_journal := j5 \<rparr>))"

definition process_miners_fees ::
  "'j journal_ops \<Rightarrow> rlp_ops \<Rightarrow> (header \<Rightarrow> b256) \<Rightarrow> 'j federation \<Rightarrow> remasc_config \<Rightarrow> (block_store \<times> bodies) option
   \<Rightarrow> 'j remasc_ctx \<Rightarrow> ((remasc_error + unit) \<times> 'j remasc_ctx) option" where
  "process_miners_fees J rlp hh fed cfg store ctx =
     (if 2 ^ 64 \<le> cx_number ctx then None
      else
        let current = ucast (cx_number ctx) :: u64;
            candidate = current - rm_maturity cfg
        in if current < rm_maturity cfg \<or> candidate < 1 then Some (Inr (), ctx)
           else case store of
             None \<Rightarrow> Some (Inl NoBlockStore, ctx)
           | Some (s, bodies) \<Rightarrow>
               (case canonical_hash hh s candidate of
                  None \<Rightarrow> Some (Inl ProcessingBlockNotFound, ctx)
                | Some h \<Rightarrow>
                    (case get_header s h of
                       None \<Rightarrow> Some (Inl ProcessingHeaderNotFound, ctx)
                     | Some processing \<Rightarrow>
                         (case settle J rlp hh fed cfg s bodies candidate current h processing ctx of
                            None \<Rightarrow> None
                          | Some ctx1 \<Rightarrow> Some (Inr (), ctx1)))))"

end
