(* ===== verification/Remasc_Solvent.thy ===== *)
theory Remasc_Solvent
  imports Remasc
begin

text \<open>
  The distribution of fees moves coins and never makes or loses them: what the contract holds for
  later (the rewards to come, the federation's share and what is burned) together with what it pays
  grows by exactly the fees of the processed block, and a contract whose balance covers what it holds
  pays every share and still covers it.
\<close>

subsection \<open>What the journal promises\<close>

text \<open>
  The documented behaviour of the journal, seen through the balances \<open>bal\<close> and the storage \<open>sto\<close>: a
  read of the contract's own storage answers; a transfer with enough funds goes through.
\<close>

definition same_state :: "('j \<Rightarrow> address \<Rightarrow> u256) \<Rightarrow> ('j \<Rightarrow> address \<Rightarrow> u256 \<Rightarrow> u256) \<Rightarrow> 'j \<Rightarrow> 'j \<Rightarrow> bool" where
  "same_state bal sto j j' = (bal j' = bal j \<and> sto j' = sto j)"

definition journal_laws ::
  "'j journal_ops \<Rightarrow> ('j \<Rightarrow> address \<Rightarrow> u256) \<Rightarrow> ('j \<Rightarrow> address \<Rightarrow> u256 \<Rightarrow> u256) \<Rightarrow> bool" where
  "journal_laws J bal sto =
     ((\<forall>j k. fst (jo_sload J j REMASC_ADDR k) = Some (sto j REMASC_ADDR k)
          \<and> same_state bal sto j (snd (jo_sload J j REMASC_ADDR k)))
      \<and> (\<forall>j a k v. bal (jo_sstore J j a k v) = bal j \<and> sto (jo_sstore J j a k v) = (sto j)(a := (sto j a)(k := v)))
      \<and> (\<forall>j a. same_state bal sto j (jo_load_account J j a) \<and> same_state bal sto j (jo_touch_account J j a))
      \<and> (\<forall>j a ts d. same_state bal sto j (jo_log J j a ts d))
      \<and> (\<forall>j a b v. v \<le> bal j a \<and> (a = b \<or> unat (bal j b) + unat v < 2 ^ 256) \<longrightarrow>
           fst (jo_transfer J j a b v) \<and> sto (snd (jo_transfer J j a b v)) = sto j
           \<and> bal (snd (jo_transfer J j a b v)) = (if a = b then bal j else (bal j)(a := bal j a - v, b := bal j b + v))))"

definition federation_laws ::
  "'j federation \<Rightarrow> ('j \<Rightarrow> address \<Rightarrow> u256) \<Rightarrow> ('j \<Rightarrow> address \<Rightarrow> u256 \<Rightarrow> u256) \<Rightarrow> bool" where
  "federation_laws fed bal sto =
     (\<forall>j p c. same_state bal sto j (snd (fed j p c)) \<and> length (fst (fed j p c)) < 2 ^ 64)"

subsection \<open>Movements of coins\<close>

definition credit :: "address \<times> u256 \<Rightarrow> (address \<Rightarrow> u256) \<Rightarrow> address \<Rightarrow> u256" where
  "credit = (\<lambda>(a, v) m. if a = REMASC_ADDR then m else m(REMASC_ADDR := m REMASC_ADDR - v, a := m a + v))"

definition total :: "(address \<times> u256) list \<Rightarrow> nat" where
  "total ps = sum_list (map (unat \<circ> snd) ps)"

text \<open>The contract covers \<open>x\<close>, and no balance can overflow by what it pays.\<close>

definition covers :: "(address \<Rightarrow> u256) \<Rightarrow> nat \<Rightarrow> bool" where
  "covers m x = (x \<le> unat (m REMASC_ADDR) \<and> (\<forall>a. a \<noteq> REMASC_ADDR \<longrightarrow> unat (m a) + unat (m REMASC_ADDR) < 2 ^ 256))"

definition owed :: "(address \<Rightarrow> u256 \<Rightarrow> u256) \<Rightarrow> nat" where
  "owed st = unat (st REMASC_ADDR reward_key) + unat (st REMASC_ADDR fed_key) + unat (st REMASC_ADDR burned_key)"

text \<open>\<open>b\<close> coins enter and the payments \<open>ps\<close> are made.\<close>

definition moves ::
  "('j \<Rightarrow> address \<Rightarrow> u256) \<Rightarrow> ('j \<Rightarrow> address \<Rightarrow> u256 \<Rightarrow> u256) \<Rightarrow> nat \<Rightarrow> (address \<times> u256) list \<Rightarrow> 'j \<Rightarrow> 'j \<Rightarrow> bool" where
  "moves bal sto b ps j j' = (owed (sto j') + total ps = owed (sto j) + b \<and> bal j' = fold credit ps (bal j))"

lemma total_simps [simp]: "total [] = 0" "total (p # ps) = unat (snd p) + total ps" "total (ps @ qs) = total ps + total qs"
  by (simp_all add: total_def)

lemma keys_distinct: "distinct [reward_key, fed_key, burned_key]"
  by code_simp

lemma keys_neq [simp]:
  "reward_key \<noteq> fed_key" "fed_key \<noteq> reward_key" "reward_key \<noteq> burned_key" "burned_key \<noteq> reward_key"
  "fed_key \<noteq> burned_key" "burned_key \<noteq> fed_key"
  using keys_distinct by auto

lemma covers_mono: "covers m x \<Longrightarrow> y \<le> x \<Longrightarrow> covers m y"
  by (auto simp: covers_def)

lemma covers_credit:
  assumes "covers m (unat v + x)"
  shows "covers (credit (a, v) m) x"
proof (cases "a = REMASC_ADDR")
  case True
  then show ?thesis using assms by (auto simp: covers_def credit_def)
next
  case False
  have le: "v \<le> m REMASC_ADDR" using assms by (simp add: covers_def word_le_nat_alt)
  then have r: "unat (m REMASC_ADDR - v) = unat (m REMASC_ADDR) - unat v" "unat v \<le> unat (m REMASC_ADDR)"
    by (simp_all add: unat_sub word_le_nat_alt)
  have lt: "unat (m b) + unat (m REMASC_ADDR) < 2 ^ 256" if "b \<noteq> REMASC_ADDR" for b using assms that by (simp add: covers_def)
  have "unat (m a + v) = unat (m a) + unat v"
    using lt [OF False] r(2) by (subst unat_add_lem [symmetric]) simp
  then show ?thesis using False r lt assms by (auto simp: covers_def credit_def less_imp_diff_less)
qed

lemma covers_credits: "covers m (total ps + x) \<Longrightarrow> covers (fold credit ps m) x"
proof (induction ps arbitrary: m)
  case (Cons p ps)
  obtain a v where p: "p = (a, v)" by (cases p)
  show ?case using Cons.IH covers_credit [of m v "total ps + x" a] Cons.prems by (simp add: p add.assoc)
qed simp

lemma moves_covers: "moves bal sto b ps j j' \<Longrightarrow> covers (bal j) (owed (sto j) + b + x) \<Longrightarrow> covers (bal j') (owed (sto j') + x)"
  using covers_credits [of "bal j" ps "owed (sto j') + x"] by (auto simp: moves_def ac_simps)

text \<open>A step that takes \<open>b\<close> coins, where the contract covers them beside what it holds.\<close>

definition accounts ::
  "('j \<Rightarrow> address \<Rightarrow> u256) \<Rightarrow> ('j \<Rightarrow> address \<Rightarrow> u256 \<Rightarrow> u256) \<Rightarrow> nat \<Rightarrow> 'j \<Rightarrow> 'j \<Rightarrow> bool" where
  "accounts bal sto b j j' = (covers (bal j) (owed (sto j) + b) \<longrightarrow> (\<exists>ps. moves bal sto b ps j j'))"

lemma accounts_trans:
  assumes "accounts bal sto b j j'" "accounts bal sto c j' j''"
  shows "accounts bal sto (b + c) j j''"
  unfolding accounts_def
proof
  assume cov: "covers (bal j) (owed (sto j) + (b + c))"
  then have "covers (bal j) (owed (sto j) + b)" by (rule covers_mono) simp
  then obtain ps where ps: "moves bal sto b ps j j'" using assms(1) by (auto simp: accounts_def)
  then have "covers (bal j') (owed (sto j') + c)" using moves_covers [OF ps, of c] cov by (simp add: add.assoc)
  then obtain qs where "moves bal sto c qs j' j''" using assms(2) by (auto simp: accounts_def)
  then have "moves bal sto (b + c) (ps @ qs) j j''" using ps by (simp add: moves_def)
  then show "\<exists>ps. moves bal sto (b + c) ps j j''" ..
qed

lemma accounts_same: "same_state bal sto j j' \<Longrightarrow> accounts bal sto 0 j j'"
  by (auto simp: accounts_def moves_def same_state_def intro!: exI [of _ "[]"])

lemma same_state_trans: "same_state bal sto j j' \<Longrightarrow> same_state bal sto j' j'' \<Longrightarrow> same_state bal sto j j''"
  by (simp add: same_state_def)

lemma sload_laws:
  assumes "journal_laws J bal sto"
  shows "\<exists>j'. remasc_sload J k j = (sto j REMASC_ADDR k, j') \<and> same_state bal sto j j'"
proof -
  have "fst (jo_sload J j REMASC_ADDR k) = Some (sto j REMASC_ADDR k) \<and> same_state bal sto j (snd (jo_sload J j REMASC_ADDR k))"
    using conjunct1 [OF assms [unfolded journal_laws_def], THEN spec, THEN spec] .
  then show ?thesis by (cases "jo_sload J j REMASC_ADDR k") (simp add: remasc_sload_def)
qed

lemma sstore_laws:
  assumes "journal_laws J bal sto"
  shows "bal (remasc_sstore J k v j) = bal j"
    "sto (remasc_sstore J k v j) = (sto j)(REMASC_ADDR := (sto j REMASC_ADDR)(k := v))"
  using assms [unfolded journal_laws_def, THEN conjunct2, THEN conjunct1, THEN spec, of j] by (simp_all add: remasc_sstore_def)

lemma touch_laws:
  assumes "journal_laws J bal sto"
  shows "same_state bal sto j (jo_touch_account J (jo_load_account J j a) a)" "same_state bal sto j (jo_log J j b ts d)"
proof -
  note L = assms [unfolded journal_laws_def, THEN conjunct2, THEN conjunct2]
  show "same_state bal sto j (jo_touch_account J (jo_load_account J j a) a)"
    using conjunct1 [OF L] by (blast intro: same_state_trans)
  show "same_state bal sto j (jo_log J j b ts d)" using L [THEN conjunct2, THEN conjunct1] by simp
qed

lemma transfer_laws:
  assumes "journal_laws J bal sto" "v \<le> bal j a" "a = b \<or> unat (bal j b) + unat v < 2 ^ 256"
  shows "sto (snd (jo_transfer J j a b v)) = sto j"
    "bal (snd (jo_transfer J j a b v)) = (if a = b then bal j else (bal j)(a := bal j a - v, b := bal j b + v))"
  using assms(1) [unfolded journal_laws_def, THEN conjunct2, THEN conjunct2, THEN conjunct2, THEN conjunct2,
      THEN spec [of _ j], THEN spec [of _ a], THEN spec [of _ b], THEN spec [of _ v], THEN mp] assms(2,3) by simp_all

lemma pay_moves:
  assumes laws: "journal_laws J bal sto" and cov: "covers (bal j) (unat v)"
  shows "sto (pay_mining_fees J rlp h a v j) = sto j" "bal (pay_mining_fees J rlp h a v j) = credit (a, v) (bal j)"
proof -
  let ?t = "remasc_transfer J a v j"
  have "v \<le> bal j REMASC_ADDR" using cov by (simp add: covers_def word_le_nat_alt)
  moreover have "REMASC_ADDR = a \<or> unat (bal j a) + unat v < 2 ^ 256"
    using cov by (cases "a = REMASC_ADDR") (auto simp: covers_def dest!: spec [of _ a])
  ultimately have "sto (snd ?t) = sto j \<and> bal (snd ?t) = credit (a, v) (bal j)"
    using transfer_laws [OF laws, of v j REMASC_ADDR a] touch_laws(1) [OF laws, of j a]
    by (auto simp: remasc_transfer_def credit_def same_state_def)
  then show "sto (pay_mining_fees J rlp h a v j) = sto j" "bal (pay_mining_fees J rlp h a v j) = credit (a, v) (bal j)"
    using touch_laws(2) [OF laws, of "snd ?t"] by (simp_all add: pay_mining_fees_def Let_def same_state_def)
qed

lemma pay_accounts: "journal_laws J bal sto \<Longrightarrow> accounts bal sto (unat v) j (pay_mining_fees J rlp h a v j)"
  unfolding accounts_def
proof
  assume laws: "journal_laws J bal sto" and "covers (bal j) (owed (sto j) + unat v)"
  then have "covers (bal j) (unat v)" by (auto elim: covers_mono)
  from pay_moves [OF laws this, of rlp h a] show "\<exists>ps. moves bal sto (unat v) ps j (pay_mining_fees J rlp h a v j)"
    by (intro exI [of _ "[(a, v)]"]) (simp add: moves_def)
qed

lemma burn_accounts:
  assumes laws: "journal_laws J bal sto"
  shows "accounts bal sto (unat v) j (add_to_burned J v j)"
proof (cases "v = 0")
  case True
  then show ?thesis by (simp add: add_to_burned_def accounts_same same_state_def)
next
  case False
  obtain j' where j': "remasc_sload J burned_key j = (sto j REMASC_ADDR burned_key, j')" "same_state bal sto j j'"
    using sload_laws [OF laws] by blast
  let ?b = "sto j REMASC_ADDR burned_key"
  show ?thesis
    unfolding accounts_def
  proof
    assume "covers (bal j) (owed (sto j) + unat v)"
    then have "unat ?b + unat v < 2 ^ 256"
      using unsigned_less [of "bal j REMASC_ADDR", where 'a = nat] by (simp add: covers_def owed_def)
    then have "unat (?b + v) = unat ?b + unat v" by (subst unat_add_lem [symmetric]) simp
    then show "\<exists>ps. moves bal sto (unat v) ps j (add_to_burned J v j)"
      using j' False
      by (intro exI [of _ "[]"]) (simp add: add_to_burned_def moves_def sstore_laws [OF laws] same_state_def owed_def)
  qed
qed

lemma unat_sum: "unat x + unat y < 2 ^ 256 \<Longrightarrow> unat (x + y) = unat x + unat y" for x y :: u256
  by (subst unat_add_lem [symmetric]) simp

lemma unat_rest: "y \<le> x \<Longrightarrow> unat y + unat (x - y) = unat x" for x y :: u256
  by (simp add: unat_sub word_le_nat_alt)

lemma udiv_Some: "udiv x d = Some q \<longleftrightarrow> d \<noteq> 0 \<and> q = x div d"
  by (auto simp: udiv_def)

lemma div_le_word: "x div d \<le> x" for x d :: u256
  by (simp add: word_le_nat_alt unat_div)

lemma unat_widen: "unat (ucast x :: u256) = unat x" for x :: u64
proof -
  have "unat x < 2 ^ 256" using unsigned_less [of x, where 'a = nat] by simp
  then show ?thesis by (simp add: unsigned_ucast_eq take_bit_nat_eq_self)
qed

lemma widen_0 [simp]: "(ucast x :: u256) = 0 \<longleftrightarrow> x = 0" for x :: u64
  using unat_widen [of x] by (metis unat_eq_zero)

lemma publishers_account:
  assumes laws: "journal_laws J bal sto"
  shows "accounts bal sto (length ss * unat v) j (fold (\<lambda>s. pay_mining_fees J rlp h (f s) v) ss j)"
proof (induction ss arbitrary: j)
  case (Cons s ss)
  show ?case using accounts_trans [OF pay_accounts [OF laws] Cons.IH] by simp
qed (simp add: accounts_same same_state_def)

lemma federators_account:
  assumes laws: "journal_laws J bal sto" and fits: "unat share + unat r < 2 ^ 256"
  shows "fs \<noteq> [] \<Longrightarrow> accounts bal sto (length fs * unat share + unat r) j (pay_federators J rlp h share r fs j)"
proof (induction fs arbitrary: j rule: induct_list012)
  case (2 f)
  show ?case using pay_accounts [OF laws, of "share + r"] by (simp add: unat_sum [OF fits])
next
  case (3 f g fs)
  have "accounts bal sto (unat share + (length (g # fs) * unat share + unat r)) j
      (pay_federators J rlp h share r (g # fs) (pay_mining_fees J rlp h f share j))"
    using 3(2) by (intro accounts_trans [OF pay_accounts [OF laws]]) simp
  then show ?case by (simp add: algebra_simps)
qed simp

lemma federation_accounts:
  assumes laws: "journal_laws J bal sto" and fed: "federation_laws fed bal sto"
    and cfg: "rm_federation_divisor cfg \<noteq> 0"
    and gate: "rm_rskip85_activation_height cfg \<le> current \<or> sto j REMASC_ADDR fed_key = 0"
    and cov: "covers (bal j) (owed (sto j) + unat (x div ucast (rm_federation_divisor cfg)))"
  shows "\<exists>j' ps. pay_to_federation J rlp fed cfg basefee h n current x j = Some (x div ucast (rm_federation_divisor cfg), j')
    \<and> moves bal sto (unat (x div ucast (rm_federation_divisor cfg))) ps j j'"
proof -
  let ?d = "ucast (rm_federation_divisor cfg) :: u256"
  define r where "r = x div ?d"
  define f where "f = sto j REMASC_ADDR fed_key"
  have d: "?d \<noteq> 0" using cfg by simp
  obtain j1 where j1: "remasc_sload J fed_key j = (f, j1)" "same_state bal sto j j1"
    using sload_laws [OF laws] unfolding f_def by blast
  obtain fs j2 where fs: "fed j1 n current = (fs, j2)" by (cases "fed j1 n current")
  have "same_state bal sto j1 j2" "length fs < 2 ^ 64" using fed fs unfolding federation_laws_def by (metis fst_conv snd_conv)+
  then have j2: "bal j2 = bal j" "sto j2 = sto j" using j1(2) by (simp_all add: same_state_def)
  have bound: "unat f + unat r < 2 ^ 256"
    using cov unsigned_less [of "bal j REMASC_ADDR", where 'a = nat] by (simp add: covers_def owed_def f_def r_def)
  have t: "unat (f + r) = unat f + unat r" by (rule unat_sum [OF bound])
  have keep: "moves bal sto (unat r) [] j (remasc_sstore J fed_key (f + r) j2)"
    using t j2 by (simp add: moves_def sstore_laws [OF laws] owed_def f_def)
  show ?thesis
  proof (cases "fs = []")
    case True
    then show ?thesis using keep j1 fs d by (auto simp: pay_to_federation_def udiv_def r_def)
  next
    case False
    let ?n = "ucast (of_nat (length fs) :: u64) :: u256"
    have n: "unat ?n = length fs"
      using \<open>length fs < 2 ^ 64\<close> by (simp add: unat_widen unat_of_nat)
    then have n0: "?n \<noteq> 0" using False by (metis length_0_conv unat_0)
    define share where "share = (f + r) div ?n"
    define re where "re = (f + r) mod ?n"
    have split: "length fs * unat share + unat re = unat (f + r)"
      using n by (simp add: share_def re_def unat_div unat_mod)
    have "unat share \<le> length fs * unat share" using False by (cases fs) simp_all
    then have small: "unat share + unat re < 2 ^ 256" using split bound t by linarith
    note pays = federators_account [OF laws small False, of _ rlp h]
    show ?thesis
    proof (cases "rm_rskip85_activation_height cfg \<le> current")
      case True
      show ?thesis
      proof (cases "share < ucast basefee * ucast (rm_federator_minimum_payable_gas cfg)")
        case True
        then show ?thesis
          using keep j1 fs d \<open>fs \<noteq> []\<close> n0 \<open>rm_rskip85_activation_height cfg \<le> current\<close>
          by (auto simp: pay_to_federation_def udiv_def r_def share_def)
      next
        case big: False
        let ?j3 = "remasc_sstore J fed_key 0 j2"
        have h3: "owed (sto ?j3) + unat f = owed (sto j)" "bal ?j3 = bal j"
          using j2 by (simp_all add: sstore_laws [OF laws] owed_def f_def)
        then have "covers (bal ?j3) (owed (sto ?j3) + (length fs * unat share + unat re))"
          using cov split t by (auto simp: r_def [symmetric] elim: covers_mono)
        then obtain ps where "moves bal sto (length fs * unat share + unat re) ps ?j3 (pay_federators J rlp h share re fs ?j3)"
          using pays [of ?j3] by (auto simp: accounts_def)
        then have "moves bal sto (unat r) ps j (pay_federators J rlp h share re fs ?j3)"
          using h3 split t by (simp add: moves_def)
        then show ?thesis
          using j1 fs d False n0 True big by (auto simp: pay_to_federation_def udiv_def r_def share_def re_def Let_def)
      qed
    next
      case False
      then have "unat f = 0" using gate by (simp add: f_def)
      then obtain ps where "moves bal sto (unat r) ps j2 (pay_federators J rlp h share re fs j2)"
        using pays [of j2] cov split t j2 by (auto simp: accounts_def r_def [symmetric])
      then have "moves bal sto (unat r) ps j (pay_federators J rlp h share re fs j2)" using j2 by (simp add: moves_def)
      then show ?thesis
        using j1 fs d \<open>fs \<noteq> []\<close> n0 False by (auto simp: pay_to_federation_def udiv_def r_def share_def re_def Let_def)
    qed
  qed
qed

subsection \<open>The shares of the miners\<close>

definition config_ok :: "remasc_config \<Rightarrow> bool" where
  "config_ok cfg = (rm_synthetic_span cfg \<noteq> 0 \<and> rm_rsk_labs_divisor cfg \<noteq> 0 \<and> rm_federation_divisor cfg \<noteq> 0
     \<and> rm_punishment_divisor cfg \<noteq> 0 \<and> rm_publishers_divisor cfg \<noteq> 0
     \<and> 6 \<le> rm_late_uncle_inclusion_punishment_divisor cfg)"

lemma networks_ok: "config_ok remasc_mainnet" "config_ok remasc_testnet" "config_ok remasc_regtest"
  by code_simp+

text \<open>Six blocks late at most, also where the product wraps.\<close>

lemma late_punishment_le:
  fixes r :: u256 and b d :: u64
  assumes late: "unat b \<le> 6" and d: "6 \<le> d"
  shows "(r * ucast b) div ucast d \<le> r"
proof -
  have d6: "6 \<le> unat d" using d by (simp add: word_le_nat_alt)
  have u: "unat ((r * ucast b) div ucast d) = unat (r * ucast b) div unat d" by (simp add: unat_div unat_widen)
  have "unat (r * ucast b) \<le> unat r * 6"
  proof (cases "unat r * 6 < 2 ^ 256")
    case True
    have le: "unat r * unat b \<le> unat r * 6" using late by (rule mult_le_mono2)
    then have "unat r * unat (ucast b :: u256) < 2 ^ 256" unfolding unat_widen using True by (rule order.strict_trans1)
    then have "unat (r * ucast b) = unat r * unat b" by (simp add: unat_mult_lem [THEN iffD1] unat_widen)
    then show ?thesis using le by (rule ord_eq_le_trans)
  next
    case False
    have "unat (r * ucast b) < 2 ^ 256" using unsigned_less [of "r * ucast b", where 'a = nat] by simp
    then show ?thesis using False by simp
  qed
  then have "unat (r * ucast b) div unat d \<le> (unat r * 6) div 6"
    by (meson d6 div_le_mono div_le_mono2 order.trans zero_less_numeral)
  then have "unat (r * ucast b) div unat d \<le> unat r" by simp
  then show ?thesis using u by (simp add: word_le_nat_alt)
qed

lemma siblings_account:
  fixes d :: u64
  assumes laws: "journal_laws J bal sto" and d: "6 \<le> d"
  shows "\<forall>s \<in> set ss. unat (saturating_sub (sb_included_height s) (n + 1)) \<le> 6 \<Longrightarrow>
    \<exists>j'. pay_siblings J rlp h r (ucast d) n ss j = Some j' \<and> accounts bal sto (length ss * unat r) j j'"
proof (induction ss arbitrary: j)
  case Nil
  then show ?case by (simp add: accounts_same same_state_def)
next
  case (Cons s ss)
  let ?b = "saturating_sub (sb_included_height s) (n + 1)"
  let ?p = "(r * ucast ?b) div ucast d"
  have le: "?p \<le> r" using Cons.prems d by (intro late_punishment_le) simp_all
  let ?j1 = "pay_mining_fees J rlp h (sb_coinbase s) (r - ?p) j"
  obtain j' where j': "pay_siblings J rlp h r (ucast d) n ss (add_to_burned J ?p ?j1) = Some j'"
      "accounts bal sto (length ss * unat r) (add_to_burned J ?p ?j1) j'"
    using Cons.IH Cons.prems by fastforce
  have "accounts bal sto (unat (r - ?p) + unat ?p + length ss * unat r) j j'"
    by (intro accounts_trans [OF _ j'(2)] accounts_trans [OF pay_accounts [OF laws] burn_accounts [OF laws]])
  moreover have "unat (r - ?p) + unat ?p = unat r" using unat_rest [OF le] by simp
  moreover have "ucast d \<noteq> (0 :: u256)" using d by (auto simp: word_le_nat_alt)
  ultimately show ?case using j'(1) by (simp add: udiv_def Let_def)
qed

text \<open>The parts of a reward add up to it: nothing is lost to rounding.\<close>

lemma calculate_splits:
  assumes cfg: "config_ok cfg" and k: "0 < k" "Suc k < 2 ^ 64"
  shows "\<exists>c. calculate x broken (of_nat k) cfg = Some c
    \<and> k * unat (sp_individual_publisher_reward c) + unat (sp_publishers_surplus c) + unat (sp_miners_surplus c)
        + Suc k * (unat (sp_individual_miner_reward c) + unat (sp_punishment c)) = unat x
    \<and> unat (sp_punishment c * ucast (of_nat k + 1 :: u64)) = Suc k * unat (sp_punishment c)
    \<and> (broken \<or> sp_punishment c = 0)"
proof -
  let ?n = "ucast (of_nat k :: u64) :: u256" and ?m = "ucast (of_nat k + 1 :: u64) :: u256"
  define pub where "pub = x div ucast (rm_publishers_divisor cfg)"
  define mi where "mi = x - pub"
  define base where "base = mi div ?m"
  define pun where "pun = (if broken then base div ucast (rm_punishment_divisor cfg) else 0)"
  have e: "of_nat k + 1 = (of_nat (Suc k) :: u64)" by simp
  have n: "unat ?n = k" "unat ?m = Suc k"
    unfolding unat_widen e using k(2) by (simp_all add: unat_of_nat del: of_nat_Suc)
  then have n0: "?n \<noteq> 0" "?m \<noteq> 0" using k(1) by (metis less_irrefl unat_0, metis nat.distinct(1) unat_0)
  have pm: "unat pub + unat mi = unat x" by (simp add: mi_def unat_rest pub_def div_le_word)
  have pubs: "k * unat (pub div ?n) + unat (pub mod ?n) = unat pub" using n by (simp add: unat_div unat_mod)
  have mis: "Suc k * unat base + unat (mi mod ?m) = unat mi"
    using n by (simp only: base_def unat_div unat_mod mult_div_mod_eq)
  have "pun \<le> base" by (simp add: pun_def div_le_word)
  then have bp: "unat (base - pun) + unat pun = unat base" using unat_rest by fastforce
  have "unat pun * unat ?m \<le> unat base * Suc k" using bp n(2) by (simp only: mult_le_mono1 trans_le_add2)
  also have "\<dots> \<le> unat mi" using mis by (simp add: mult.commute)
  also have "\<dots> < 2 ^ 256" using unsigned_less [of mi, where 'a = nat] by simp
  finally have "unat (pun * ?m) = unat pun * unat ?m" by (simp add: unat_mult_lem [THEN iffD1])
  then have "unat (pun * ?m) = Suc k * unat pun" using n(2) by (simp only: mult.commute)
  moreover have "k * unat (pub div ?n) + unat (pub mod ?n) + unat (mi mod ?m) + Suc k * (unat (base - pun) + unat pun) = unat x"
    using pm pubs mis unfolding bp by linarith
  moreover have "calculate x broken (of_nat k) cfg = Some \<lparr> sp_individual_publisher_reward = pub div ?n,
      sp_publishers_surplus = pub mod ?n, sp_individual_miner_reward = base - pun, sp_miners_surplus = mi mod ?m, sp_punishment = pun \<rparr>"
    using cfg n0 by (simp add: calculate_def udiv_def config_ok_def Let_def pub_def mi_def base_def pun_def)
  ultimately show ?thesis by (simp add: pun_def)
qed

lemma pay_with_siblings_accounts:
  assumes laws: "journal_laws J bal sto" and cfg: "config_ok cfg"
    and ss: "ss \<noteq> []" "Suc (length ss) < 2 ^ 64"
    and late: "\<forall>s \<in> set ss. unat (saturating_sub (sb_included_height s) (hd_number p + 1)) \<le> 6"
  shows "\<exists>j'. pay_with_siblings J rlp cfg h p x ss broken j = Some j' \<and> accounts bal sto (unat x) j j'"
proof -
  let ?k = "length ss"
  obtain c where calc: "calculate x broken (of_nat ?k) cfg = Some c"
    and sum: "?k * unat (sp_individual_publisher_reward c) + unat (sp_publishers_surplus c) + unat (sp_miners_surplus c)
        + Suc ?k * (unat (sp_individual_miner_reward c) + unat (sp_punishment c)) = unat x"
    and pl: "unat (sp_punishment c * ucast (of_nat ?k + 1 :: u64)) = Suc ?k * unat (sp_punishment c)"
    and none: "broken \<or> sp_punishment c = 0"
    using calculate_splits [OF cfg, of ?k x broken] ss by blast
  let ?r = "sp_individual_miner_reward c"
  define j1 where "j1 = fold (\<lambda>s. pay_mining_fees J rlp h (sb_included_block_coinbase s) (sp_individual_publisher_reward c)) ss j"
  define j2 where "j2 = add_to_burned J (sp_miners_surplus c) (add_to_burned J (sp_publishers_surplus c) j1)"
  obtain j3 where j3: "pay_siblings J rlp h ?r (ucast (rm_late_uncle_inclusion_punishment_divisor cfg)) (hd_number p) ss j2 = Some j3"
      "accounts bal sto (?k * unat ?r) j2 j3"
    using siblings_account [OF laws _ late] cfg unfolding config_ok_def by blast
  define j4 where "j4 = (if broken then add_to_burned J (sp_punishment c * ucast (of_nat ?k + 1 :: u64)) j3 else j3)"
  have a2: "accounts bal sto (?k * unat (sp_individual_publisher_reward c) + unat (sp_publishers_surplus c) + unat (sp_miners_surplus c)) j j2"
    unfolding j1_def j2_def
    by (rule accounts_trans [OF accounts_trans [OF publishers_account [OF laws] burn_accounts [OF laws]] burn_accounts [OF laws]])
  have a4: "accounts bal sto (Suc ?k * unat (sp_punishment c)) j3 j4"
  proof (cases broken)
    case True
    then show ?thesis using burn_accounts [OF laws] by (simp add: j4_def del: mult_Suc flip: pl)
  next
    case False
    then show ?thesis using none by (simp add: j4_def accounts_same same_state_def)
  qed
  have "accounts bal sto (?k * unat (sp_individual_publisher_reward c) + unat (sp_publishers_surplus c) + unat (sp_miners_surplus c)
      + ?k * unat ?r + Suc ?k * unat (sp_punishment c) + unat ?r) j (pay_mining_fees J rlp h (beneficiary p) ?r j4)"
    by (intro accounts_trans [OF accounts_trans [OF accounts_trans [OF a2 j3(2)] a4]] pay_accounts [OF laws])
  moreover have "?k * unat (sp_individual_publisher_reward c) + unat (sp_publishers_surplus c) + unat (sp_miners_surplus c)
      + ?k * unat ?r + Suc ?k * unat (sp_punishment c) + unat ?r = unat x"
    using sum by (simp add: algebra_simps)
  moreover have "pay_with_siblings J rlp cfg h p x ss broken j = Some (pay_mining_fees J rlp h (beneficiary p) ?r j4)"
    using j3(1) calc by (simp add: pay_with_siblings_def Let_def j1_def j2_def j4_def)
  ultimately show ?thesis by simp
qed

lemma pay_without_siblings_accounts:
  assumes laws: "journal_laws J bal sto" and cfg: "config_ok cfg"
  shows "\<exists>j'. pay_without_siblings J rlp cfg h p x broken j = Some j' \<and> accounts bal sto (unat x) j j'"
proof (cases broken)
  case True
  let ?q = "x div ucast (rm_punishment_divisor cfg)"
  have "unat ?q + unat (x - ?q) = unat x" by (rule unat_rest [OF div_le_word])
  then show ?thesis
    using True cfg accounts_trans [OF burn_accounts [OF laws] pay_accounts [OF laws], of ?q "x - ?q" j rlp h "beneficiary p"]
    by (simp add: pay_without_siblings_def udiv_def config_ok_def)
next
  case False
  then show ?thesis using pay_accounts [OF laws] by (simp add: pay_without_siblings_def)
qed

lemma siblings_late:
  assumes "sb \<in> set (collect_siblings hh s bodies c current)"
  shows "unat (saturating_sub (sb_included_height sb) (c + 1)) \<le> 6"
proof -
  let ?l = "min (c + UNCLE_GENERATION_LIMIT_R) current"
  obtain i where i: "unat (c + 1) \<le> i" "i \<le> unat ?l" "sb_included_height sb = of_nat i"
    using assms by (auto simp: collect_siblings_def siblings_at_def Let_def split: option.splits)
  have "unat ?l \<le> unat (c + 1 + 6)" by (simp add: min_def UNCLE_GENERATION_LIMIT_R_def word_le_nat_alt add.assoc)
  also have "\<dots> \<le> unat (c + 1) + 6" unfolding unat_word_ariths(1) [of "c + 1" 6] by simp
  finally have "i \<le> unat (c + 1) + 6" using i(2) by simp
  moreover have "unat (of_nat i :: u64) = i"
    using i(2) unsigned_less [of ?l, where 'a = nat] by (simp add: unat_of_nat)
  ultimately show ?thesis using i by (auto simp: saturating_sub_def unat_sub word_le_nat_alt)
qed

lemma distribute_moves:
  assumes laws: "journal_laws J bal sto" and fed: "federation_laws fed bal sto" and cfg: "config_ok cfg"
    and ss: "Suc (length ss) < 2 ^ 64" "\<forall>s \<in> set ss. unat (saturating_sub (sb_included_height s) (hd_number p + 1)) \<le> 6"
    and gate: "rm_rskip85_activation_height cfg \<le> current \<or> sto j REMASC_ADDR fed_key = 0"
    and cov: "covers (bal j) (owed (sto j) + unat x)"
  shows "\<exists>j' ps. distribute J rlp fed cfg basefee h p n current ss broken x j = Some j' \<and> moves bal sto (unat x) ps j j'"
proof -
  let ?l = "x div ucast (rm_rsk_labs_divisor cfg)"
  define rem1 where "rem1 = x - ?l"
  let ?f = "rem1 div ucast (rm_federation_divisor cfg)"
  define j1 where "j1 = pay_mining_fees J rlp h (labs_address_at cfg current) ?l j"
  have x: "unat ?l + unat rem1 = unat x" "unat ?f + unat (rem1 - ?f) = unat rem1"
    unfolding rem1_def by (rule unat_rest [OF div_le_word])+
  have cl: "covers (bal j) (unat ?l)" using cov x by (auto elim: covers_mono)
  note P = pay_moves [OF laws cl, of rlp h "labs_address_at cfg current", folded j1_def]
  then have m1: "moves bal sto (unat ?l) [(labs_address_at cfg current, ?l)] j j1" by (simp add: moves_def)
  have c1: "covers (bal j1) (owed (sto j1) + unat rem1)" using moves_covers [OF m1, of "unat rem1"] cov x by (simp add: add.assoc)
  then have "covers (bal j1) (owed (sto j1) + unat ?f)" using x by (auto elim: covers_mono)
  moreover have "rm_rskip85_activation_height cfg \<le> current \<or> sto j1 REMASC_ADDR fed_key = 0" using gate P(1) by simp
  moreover have "rm_federation_divisor cfg \<noteq> 0" using cfg by (simp add: config_ok_def)
  ultimately obtain j2 ps where j2: "pay_to_federation J rlp fed cfg basefee h n current rem1 j1 = Some (?f, j2)"
      "moves bal sto (unat ?f) ps j1 j2"
    using federation_accounts [OF laws fed] by blast
  have c2: "covers (bal j2) (owed (sto j2) + unat (rem1 - ?f))"
    using moves_covers [OF j2(2), of "unat (rem1 - ?f)"] c1 x by (simp add: add.assoc)
  obtain j3 where j3: "(if ss \<noteq> [] then pay_with_siblings J rlp cfg h p (rem1 - ?f) ss broken j2
        else pay_without_siblings J rlp cfg h p (rem1 - ?f) broken j2) = Some j3"
      "accounts bal sto (unat (rem1 - ?f)) j2 j3"
    using pay_with_siblings_accounts [OF laws cfg _ ss] pay_without_siblings_accounts [OF laws cfg]
    by (cases "ss = []") (simp_all, blast+)
  then obtain qs where "moves bal sto (unat (rem1 - ?f)) qs j2 j3" using c2 by (auto simp: accounts_def)
  then have "moves bal sto (unat x) ([(labs_address_at cfg current, ?l)] @ ps @ qs) j j3"
    using m1 j2(2) x by (simp add: moves_def)
  moreover have "distribute J rlp fed cfg basefee h p n current ss broken x j = Some j3"
    using j2(1) j3(1) cfg by (simp add: distribute_def udiv_def config_ok_def Let_def rem1_def j1_def split: if_splits)
  ultimately show ?thesis by blast
qed

subsection \<open>The selection rule\<close>

lemma selection_loop_exact:
  "selection_loop ph p mx ss \<longleftrightarrow> uncle_count p < mx
     \<or> list_ex (\<lambda>s. paid_fees p * 2 < sb_paid_fees s \<or> paid_fees p < sb_paid_fees s * 2 \<and> sb_hash s < ph
         \<or> uncle_count p < sb_uncle_count s) ss"
  by (induction ss arbitrary: mx) (auto simp: less_max_iff_disj)


subsection \<open>The call\<close>

lemma settle_moves:
  assumes laws: "journal_laws J bal sto" and fed: "federation_laws fed bal sto" and cfg: "config_ok cfg"
    and num: "hd_number p = c"
    and siblings: "Suc (length (collect_siblings hh s bodies c current)) < 2 ^ 64"
    and gate: "rm_rskip85_activation_height cfg \<le> current \<or> sto (cx_journal ctx) REMASC_ADDR fed_key = 0"
    and solvent: "covers (bal (cx_journal ctx)) (owed (sto (cx_journal ctx)) + unat (paid_fees p))"
  shows "\<exists>ctx' ps. settle J rlp hh fed cfg s bodies c current h p ctx = Some ctx'
    \<and> moves bal sto (unat (paid_fees p)) ps (cx_journal ctx) (cx_journal ctx')"
proof -
  define j where "j = cx_journal ctx"
  define ss where "ss = collect_siblings hh s bodies c current"
  define stored where "stored = sto j REMASC_ADDR reward_key"
  define rb where "rb = stored + paid_fees p"
  define syn where "syn = rb div ucast (rm_synthetic_span cfg)"
  have fits: "unat stored + unat (paid_fees p) < 2 ^ 256"
    using solvent unsigned_less [of "bal j REMASC_ADDR", where 'a = nat] by (simp add: covers_def owed_def stored_def j_def)
  then have rb: "unat rb = unat stored + unat (paid_fees p)" unfolding rb_def by (rule unat_sum)
  obtain j1 where j1: "remasc_sload J reward_key j = (stored, j1)" "same_state bal sto j j1"
    using sload_laws [OF laws] unfolding stored_def by blast
  define j2 where "j2 = remasc_sstore J reward_key rb j1"
  have m2: "moves bal sto (unat (paid_fees p)) [] j j2"
    using j1(2) rb by (simp add: moves_def j2_def sstore_laws [OF laws] same_state_def owed_def stored_def)
  obtain j3 where j3: "remasc_sload J broken_key j2 = (sto j2 REMASC_ADDR broken_key, j3)" "same_state bal sto j2 j3"
    using sload_laws [OF laws] by blast
  have m3: "moves bal sto (unat (paid_fees p)) [] j j3" using m2 j3(2) by (simp add: moves_def same_state_def)
  define j4 where "j4 = remasc_sstore J reward_key (rb - syn) j3"
  have r3: "sto j3 REMASC_ADDR reward_key = rb" "sto j3 REMASC_ADDR fed_key = sto j REMASC_ADDR fed_key"
    using j1(2) j3(2) by (simp_all add: same_state_def j2_def sstore_laws [OF laws])
  have syn: "unat syn + unat (rb - syn) = unat rb" unfolding syn_def by (rule unat_rest [OF div_le_word])
  have o4: "owed (sto j4) + unat syn = owed (sto j3)" "bal j4 = bal j3" "sto j4 REMASC_ADDR fed_key = sto j REMASC_ADDR fed_key"
    using r3 syn by (simp_all add: j4_def sstore_laws [OF laws] owed_def)
  have cov: "covers (bal j) (owed (sto j) + unat (paid_fees p) + 0)" using solvent by (simp add: j_def)
  have "covers (bal j4) (owed (sto j4) + unat syn)" using moves_covers [OF m3 cov] o4 by (auto elim: covers_mono)
  moreover have "\<forall>sb \<in> set ss. unat (saturating_sub (sb_included_height sb) (hd_number p + 1)) \<le> 6"
    using siblings_late unfolding ss_def num by blast
  moreover have "rm_rskip85_activation_height cfg \<le> current \<or> sto j4 REMASC_ADDR fed_key = 0" using gate o4(3) by (simp add: j_def)
  ultimately obtain j5 ps where j5: "distribute J rlp fed cfg (cx_basefee ctx) h p c current ss (sto j2 REMASC_ADDR broken_key \<noteq> 0) syn j4 = Some j5"
      "moves bal sto (unat syn) ps j4 j5"
    using distribute_moves [OF laws fed cfg, of ss p current j4 syn] siblings unfolding ss_def by blast
  have m5: "moves bal sto (unat (paid_fees p)) ps j j5" using j5(2) m3 o4 by (simp add: moves_def)
  have "\<exists>ctx' ps. settle J rlp hh fed cfg s bodies c current h p ctx = Some ctx' \<and> moves bal sto (unat (paid_fees p)) ps j (cx_journal ctx')"
    using j1(1) j3(1) j5(1) m2 m3 m5 cfg
    by (auto simp: settle_def remasc_load_bool_def udiv_def config_ok_def Let_def j_def [symmetric] rb_def [symmetric]
        j2_def [symmetric] syn_def [symmetric] j4_def [symmetric] ss_def [symmetric])
  then show ?thesis by (simp add: j_def)
qed


text \<open>A journal that is its balances and its storage, and a store with one matured block.\<close>

type_synonym map_journal = "(address \<Rightarrow> u256) \<times> (address \<Rightarrow> u256 \<Rightarrow> u256)"

definition map_ops :: "map_journal journal_ops" where
  "map_ops = \<lparr> jo_sload = (\<lambda>j a k. (Some (snd j a k), j)),
     jo_sstore = (\<lambda>j a k v. (fst j, (snd j)(a := (snd j a)(k := v)))),
     jo_transfer = (\<lambda>j a b v. if v \<le> fst j a \<and> (a = b \<or> unat (fst j b) + unat v < 2 ^ 256)
       then (True, if a = b then j else ((fst j)(a := fst j a - v, b := fst j b + v), snd j)) else (False, j)),
     jo_load_account = (\<lambda>j a. j), jo_touch_account = (\<lambda>j a. j), jo_log = (\<lambda>j a ts d. j) \<rparr>"

lemma map_ops_laws: "journal_laws map_ops fst snd"
  by (simp add: journal_laws_def map_ops_def same_state_def)

definition no_federation :: "map_journal federation" where
  "no_federation j p c = ([], j)"

definition matured :: header where
  "matured = \<lparr> parent_hash = [], ommers_hash = [], beneficiary = replicate 20 2, state_root = [], transactions_root = [],
     receipts_root = [], logs_bloom = [], extension_data = None, difficulty = 1, hd_number = 10, gas_limit = 0, gas_used = 0,
     timestamp = 0, extra_data = [], paid_fees = 1000, minimum_gas_price = 0, uncle_count = 0, umm_root = None,
     version_fields = None, bitcoin_merged_mining_header = None, bitcoin_merged_mining_merkle_proof = None,
     bitcoin_merged_mining_coinbase_transaction = None, cached_hash = None, cached_hash_for_merged_mining = None \<rparr>"

definition one_block :: block_store where
  "one_block = empty_store\<lparr> bs_headers := [[7] \<mapsto> matured], bs_numbers := [10 \<mapsto> [7]] \<rparr>"

definition funded :: "map_journal remasc_ctx" where
  "funded = \<lparr> cx_journal = ((\<lambda>a. 0)(REMASC_ADDR := 5000), (\<lambda>a k. 0)), cx_raw = rs_default, cx_number = 20, cx_basefee = 0 \<rparr>"


end
