(* ===== verification/Pmt.thy ===== *)
theory Pmt
  imports Varint
begin

text \<open>
  Proofs that transactions belong to a Bitcoin block (\<open>crates/execution/src/bridge/pmt.rs\<close>): the
  partial Merkle tree with its parser, and the Merkle branch. The double SHA-256 of the \<open>bitcoin\<close> crate
  is the parameter \<open>sha\<close>. The outer option of the parser is the panic of an allocation that exceeds the
  address space or of an index past the end. The shift of the path of a branch is reduced modulo 32, as in
  the release profile.
\<close>

subsection \<open>Parsing\<close>

definition read_varint :: "bytes \<Rightarrow> (u64 \<times> nat) option" where
  "read_varint data =
     (if data = [] then None
      else
        let b = hd data
        in if b \<le> 0xFC then Some (ucast b, 1)
           else if b = 0xFD then
             (if length data < 3 then None else Some (ucast (of_nat (from_le (slice_of 1 3 data)) :: u16), 3))
           else if b = 0xFE then
             (if length data < 5 then None else Some (ucast (of_nat (from_le (slice_of 1 5 data)) :: u32), 5))
           else (if length data < 9 then None else Some (of_nat (from_le (slice_of 1 9 data)), 9)))"

record partial_merkle_tree =
  pm_tx_count :: u32
  pm_hashes :: "b256 list"
  pm_flag_bits :: "bool list"

fun read_hashes :: "nat \<Rightarrow> bytes \<Rightarrow> nat \<Rightarrow> (b256 list \<times> nat) option" where
  "read_hashes 0 data offset = Some ([], offset)"
| "read_hashes (Suc n) data offset =
     (if length data < offset + 32 then None
      else case read_hashes n data (offset + 32) of
             None \<Rightarrow> None
           | Some (hs, e) \<Rightarrow> Some (slice_of offset (offset + 32) data # hs, e))"

definition flag_byte :: "u8 \<Rightarrow> bool list" where
  "flag_byte b = map (\<lambda>i. bit b i) [0..<8]"

definition pmt_parse :: "bytes \<Rightarrow> partial_merkle_tree option option" where
  "pmt_parse data =
     (if length data < 4 then Some None
      else
        let tx_count = of_nat (from_le (take 4 data))
        in case read_varint (drop 4 data) of
             None \<Rightarrow> Some None
           | Some (n_hashes, varint_len) \<Rightarrow>
               if 2 ^ 63 \<le> 32 * unat n_hashes then None
               else
                 case read_hashes (unat n_hashes) data (4 + varint_len) of
                   None \<Rightarrow> Some None
                 | Some (hashes, offset) \<Rightarrow>
                     (case read_varint (drop offset data) of
                        None \<Rightarrow> Some None
                      | Some (n_flag_bytes, varint_len2) \<Rightarrow>
                          let start = offset + varint_len2; n = unat n_flag_bytes
                          in if length data < (start + n) mod 2 ^ 64 then Some None
                             else if length data < start + n then None
                             else Some (Some \<lparr> pm_tx_count = tx_count, pm_hashes = hashes,
                                    pm_flag_bits = concat (map flag_byte (slice_of start (start + n) data)) \<rparr>)))"

definition has_expected_size :: "bytes \<Rightarrow> bool" where
  "has_expected_size data =
     (if length data < 4 then False
      else case read_varint (drop 4 data) of
             None \<Rightarrow> False
           | Some (n_hashes, varint_len) \<Rightarrow>
               let hash_bytes = 32 * unat n_hashes; offset = 4 + varint_len + hash_bytes
               in if 2 ^ 64 \<le> hash_bytes \<or> 2 ^ 64 \<le> offset then False
                  else if length data < offset then False
                  else case read_varint (drop offset data) of
                         None \<Rightarrow> False
                       | Some (n_flag_bytes, varint_len2) \<Rightarrow>
                           let e = offset + varint_len2 + unat n_flag_bytes
                           in if 2 ^ 64 \<le> e then False else e = length data)"

subsection \<open>Extraction\<close>

definition combine_hashes :: "(bytes \<Rightarrow> b256) \<Rightarrow> b256 \<Rightarrow> b256 \<Rightarrow> b256" where
  "combine_hashes sha l r = sha (l @ r)"

function height_of :: "nat \<Rightarrow> nat" where
  "height_of m = (if m \<le> 1 then 0 else Suc (height_of ((m + 1) div 2)))"
  by pat_completeness auto
termination by (relation "measure id") auto

definition tree_height :: "u32 \<Rightarrow> nat" where
  "tree_height tx_count = height_of (unat tx_count)"

text \<open>Shifts of 32 or more wrap.\<close>

definition tree_width :: "u32 \<Rightarrow> nat \<Rightarrow> u32" where
  "tree_width tx_count height = drop_bit (height mod 32) (tx_count + push_bit (height mod 32) 1 - 1)"

record extract_state =
  ex_bits :: nat
  ex_hashes :: nat
  ex_matched :: "b256 list"

fun recursive_extract ::
  "(bytes \<Rightarrow> b256) \<Rightarrow> partial_merkle_tree \<Rightarrow> nat \<Rightarrow> u32 \<Rightarrow> extract_state \<Rightarrow> (b256 \<times> extract_state) option" where
  "recursive_extract sha t height pos st =
     (if length (pm_flag_bits t) \<le> ex_bits st then None
      else
        let parent_of_match = pm_flag_bits t ! ex_bits st;
            st1 = st\<lparr> ex_bits := ex_bits st + 1 \<rparr>
        in if height = 0 \<or> \<not> parent_of_match then
             (if length (pm_hashes t) \<le> ex_hashes st1 then None
              else
                let hash = pm_hashes t ! ex_hashes st1;
                    st2 = st1\<lparr> ex_hashes := ex_hashes st1 + 1 \<rparr>
                in Some (hash, if height = 0 \<and> parent_of_match then st2\<lparr> ex_matched := ex_matched st2 @ [hash] \<rparr> else st2))
           else
             case recursive_extract sha t (height - 1) (pos * 2) st1 of
               None \<Rightarrow> None
             | Some (l, st2) \<Rightarrow>
                 if pos * 2 + 1 < tree_width (pm_tx_count t) (height - 1) then
                   (case recursive_extract sha t (height - 1) (pos * 2 + 1) st2 of
                      None \<Rightarrow> None
                    | Some (r, st3) \<Rightarrow> if l = r then None else Some (combine_hashes sha l r, st3))
                 else Some (combine_hashes sha l l, st2))"

declare recursive_extract.simps [simp del] height_of.simps [simp del]

record pmt_result =
  pr_merkle_root :: b256
  pr_matched_hashes :: "b256 list"

definition div_ceil :: "nat \<Rightarrow> nat \<Rightarrow> nat" where
  "div_ceil a b = (a + b - 1) div b"

definition extract_start :: extract_state where
  "extract_start = \<lparr> ex_bits = 0, ex_hashes = 0, ex_matched = [] \<rparr>"

definition extract_matches :: "(bytes \<Rightarrow> b256) \<Rightarrow> partial_merkle_tree \<Rightarrow> pmt_result option" where
  "extract_matches sha t =
     (if pm_tx_count t = 0 then None
      else if unat (pm_tx_count t) < length (pm_hashes t) then None
      else case recursive_extract sha t (tree_height (pm_tx_count t)) 0 extract_start of
             None \<Rightarrow> None
           | Some (root, st) \<Rightarrow>
               if ex_hashes st \<noteq> length (pm_hashes t) then None
               else if div_ceil (ex_bits st) 8 \<noteq> div_ceil (length (pm_flag_bits t)) 8 then None
               else Some \<lparr> pr_merkle_root = root, pr_matched_hashes = ex_matched st \<rparr>)"

subsection \<open>The Merkle branch\<close>

record merkle_branch =
  mb_hashes :: "b256 list"
  mb_path :: u32

definition abi_u32 :: "bytes \<Rightarrow> nat \<Rightarrow> u32" where
  "abi_u32 args at = of_nat (from_be (slice_of (at + 28) (at + 32) args))"

fun abi_hashes :: "nat \<Rightarrow> bytes \<Rightarrow> nat \<Rightarrow> b256 list option" where
  "abi_hashes 0 args offset = Some []"
| "abi_hashes (Suc n) args offset =
     (if length args < offset + 32 then None
      else map_option (\<lambda>hs. slice_of offset (offset + 32) args # hs) (abi_hashes n args (offset + 32)))"

definition from_abi_args :: "bytes \<Rightarrow> (merkle_branch \<times> b256 \<times> b256) option" where
  "from_abi_args args =
     (if length args < 128 then None
      else
        let tx_hash = slice_of 0 32 args;
            block_hash = slice_of 32 64 args;
            path = abi_u32 args 64;
            array_offset = unat (abi_u32 args 96)
        in if length args < array_offset + 32 then None
           else
             let count = unat (abi_u32 args array_offset)
             in case abi_hashes count args (array_offset + 32) of
                  None \<Rightarrow> None
                | Some hashes \<Rightarrow> Some (\<lparr> mb_hashes = map rev hashes, mb_path = path \<rparr>, rev tx_hash, block_hash))"

fun reduce_loop :: "(bytes \<Rightarrow> b256) \<Rightarrow> u32 \<Rightarrow> nat \<Rightarrow> b256 list \<Rightarrow> b256 \<Rightarrow> b256" where
  "reduce_loop sha path i [] current = current"
| "reduce_loop sha path i (s # ss) current =
     reduce_loop sha path (Suc i) ss
       (if bit path (i mod 32) then combine_hashes sha s current else combine_hashes sha current s)"

definition reduce_from :: "(bytes \<Rightarrow> b256) \<Rightarrow> merkle_branch \<Rightarrow> b256 \<Rightarrow> b256" where
  "reduce_from sha b tx_hash = reduce_loop sha (mb_path b) 0 (mb_hashes b) tx_hash"

subsection \<open>The parser\<close>

lemma widen_of_nat:
  "n < 2 ^ LENGTH('a) \<Longrightarrow> (ucast (of_nat n :: 'a::len word) :: 'b::len word) = of_nat n"
  by (simp add: word_unat_eq_iff unsigned_ucast_eq unsigned_of_nat take_bit_nat_eq_self)

lemma widen_slice:
  assumes "k \<le> length data" "1 \<le> k" "LENGTH('a) = 8 * (k - 1)"
  shows "ucast (of_nat (from_le (slice_of 1 k data)) :: 'a::len word) = (of_nat (from_le (slice_of 1 k data)) :: u64)"
proof -
  have "from_le (slice_of 1 k data) < 256 ^ (k - 1)" using from_le_bound [of "slice_of 1 k data"] assms by (simp add: slice_of_def)
  also have "(256 :: nat) ^ (k - 1) = 2 ^ LENGTH('a)" using assms(3) by (simp add: power_mult)
  finally show ?thesis by (rule widen_of_nat)
qed

lemma read_varint_decode: "read_varint data = decode_varint data"
proof (cases data)
  case Nil
  then show ?thesis by (simp add: read_varint_def decode_varint_def)
next
  case (Cons b bs)
  have "b < 253 \<longleftrightarrow> b \<le> 0xFC" by (auto simp: word_less_nat_alt word_le_nat_alt)
  then show ?thesis
    using Cons widen_slice [of 3 data, where 'a = 16] widen_slice [of 5 data, where 'a = 32]
    by (auto simp: read_varint_def decode_varint_def Let_def not_less)
qed

interpretation pmt_varint: varint_codec encode_varint read_varint
  by unfold_locales (simp add: read_varint_decode plain_varint.dec_enc)

lemma read_varint_length: "read_varint data = Some (v, k) \<Longrightarrow> 0 < k \<and> k \<le> length data"
  by (cases data) (auto simp: read_varint_def Let_def split: if_splits)

lemma read_hashes_fit:
  "offset + 32 * n \<le> length data \<Longrightarrow>
   \<exists>hs. read_hashes n data offset = Some (hs, offset + 32 * n) \<and> length hs = n \<and> list_all (\<lambda>h. length h = 32) hs"
proof (induction n arbitrary: offset)
  case (Suc n)
  have "offset + 32 + 32 * n \<le> length data" using Suc.prems by simp
  then obtain hs where "read_hashes n data (offset + 32) = Some (hs, offset + 32 + 32 * n)" "length hs = n"
      "list_all (\<lambda>h. length h = 32) hs"
    using Suc.IH by blast
  then show ?case using Suc.prems by (simp add: slice_of_def)
qed simp

lemma length_flags: "length (concat (map flag_byte bs)) = 8 * length bs"
  by (induction bs) (simp_all add: flag_byte_def)

text \<open>C28. The size check makes the parser safe: on any bytes that pass \<open>has_expected_size\<close>, which the Bridge
  asks first, parsing neither panics nor fails, every hash has 32 bytes, the flags are whole bytes, and
  the tree uses the whole input but for the counts, each of one to nine bytes. Inputs are shorter than \<open>2 ^ 63\<close>
  bytes, as every slice is.\<close>

theorem expected_size_parses:
  assumes "has_expected_size data" "length data < 2 ^ 63"
  shows "\<exists>t k. pmt_parse data = Some (Some t) \<and> list_all (\<lambda>h. length h = 32) (pm_hashes t)
    \<and> length (pm_flag_bits t) = 8 * k \<and> 32 * length (pm_hashes t) + k + 6 \<le> length data
    \<and> length data \<le> 32 * length (pm_hashes t) + k + 22"
proof -
  have four: "\<not> length data < 4" using assms(1) by (auto simp: has_expected_size_def)
  obtain n k1 where n: "read_varint (drop 4 data) = Some (n, k1)"
    using assms(1) four by (cases "read_varint (drop 4 data)") (auto simp: has_expected_size_def)
  let ?o = "4 + k1 + 32 * unat n"
  have fits: "?o \<le> length data" using assms(1) four n by (auto simp: has_expected_size_def Let_def split: if_splits)
  obtain m k2 where m: "read_varint (drop ?o data) = Some (m, k2)"
    using assms(1) four n by (cases "read_varint (drop ?o data)") (auto simp: has_expected_size_def Let_def split: if_splits)
  have total: "?o + k2 + unat m = length data"
    using assms(1) four n m by (auto simp: has_expected_size_def Let_def split: if_splits)
  obtain hs where hs: "read_hashes (unat n) data (4 + k1) = Some (hs, ?o)" "length hs = unat n" "list_all (\<lambda>h. length h = 32) hs"
    using read_hashes_fit [of "4 + k1" "unat n" data] fits by (auto simp: add.assoc)
  let ?fl = "concat (map flag_byte (slice_of (?o + k2) (?o + k2 + unat m) data))"
  have "length ?fl = 8 * unat m" using total by (simp add: length_flags slice_of_def)
  moreover let ?t = "\<lparr> pm_tx_count = of_nat (from_le (take 4 data)), pm_hashes = hs, pm_flag_bits = ?fl \<rparr>"
  have "pmt_parse data = Some (Some ?t)"
    using four n m hs total fits assms(2) by (simp add: pmt_parse_def Let_def)
  moreover have "0 < k1 \<and> k1 \<le> 9" "0 < k2 \<and> k2 \<le> 9" using n m by (auto simp: read_varint_def Let_def split: if_splits)
  ultimately show ?thesis using hs(2,3) total by (intro exI [of _ ?t] exI [of _ "unat m"]) auto
qed

definition one_tx_proof :: bytes where
  "one_tx_proof = [1, 0, 0, 0, 1] @ replicate 32 7 @ [1, 1]"

theorem expected_size_parses_witness:
  "\<exists>t. pmt_parse one_tx_proof = Some (Some t) \<and> list_all (\<lambda>h. length h = 32) (pm_hashes t)"
proof -
  have "has_expected_size one_tx_proof" "length one_tx_proof < 2 ^ 63"
    by (simp_all add: one_tx_proof_def has_expected_size_def read_varint_def Let_def)
  from expected_size_parses [OF this] show ?thesis by blast
qed

end
