(* ===== verification/Pmt_Sound.thy ===== *)
theory Pmt_Sound
  imports Pmt
begin

text \<open>
  What a partial Merkle tree proves. Against the Merkle tree of a list of transaction hashes: an accepted
  proof with the tree's root matches only transactions of the list, and the proof of any selection of
  them is accepted and matches exactly the selection. The Merkle branch of any position reduces to the root.
\<close>

subsection \<open>The Merkle tree\<close>

definition width :: "nat \<Rightarrow> nat \<Rightarrow> nat" where
  "width n h = (n + 2 ^ h - 1) div 2 ^ h"

text \<open>The node at a height and a position; an odd last node is paired with itself.\<close>

fun mnode :: "(bytes \<Rightarrow> b256) \<Rightarrow> b256 list \<Rightarrow> nat \<Rightarrow> nat \<Rightarrow> b256" where
  "mnode sha txs 0 p = txs ! p"
| "mnode sha txs (Suc h) p =
     combine_hashes sha (mnode sha txs h (2 * p))
       (mnode sha txs h (if 2 * p + 1 < width (length txs) h then 2 * p + 1 else 2 * p))"

definition merkle_root :: "(bytes \<Rightarrow> b256) \<Rightarrow> b256 list \<Rightarrow> b256" where
  "merkle_root sha txs = mnode sha txs (height_of (length txs)) 0"

lemma width_0 [simp]: "width n 0 = n"
  by (simp add: width_def)

lemma width_Suc: "width n (Suc h) = (width n h + 1) div 2"
proof -
  have "(n + 2 ^ Suc h - 1) div 2 ^ Suc h = ((n + 2 * 2 ^ h - 1) div 2 ^ h) div 2"
    unfolding power_Suc2 div_mult2_eq by (simp add: mult.commute)
  also have "n + 2 * 2 ^ h - 1 = n + 2 ^ h - 1 + 2 ^ h" using one_le_power [of "2 :: nat" h] by linarith
  also have "(n + 2 ^ h - 1 + 2 ^ h) div 2 ^ h = width n h + 1" unfolding width_def by (rule div_add_self2) simp
  finally show ?thesis by (simp add: width_def)
qed

lemma width_height: "0 < n \<Longrightarrow> width n (height_of n) = 1"
proof -
  have "0 < m \<Longrightarrow> m = width n k \<Longrightarrow> width n (k + height_of m) = 1" for m k
  proof (induction m arbitrary: k rule: height_of.induct)
    case (1 m)
    show ?case
    proof (cases "m \<le> 1")
      case True
      then have "m = 1" using 1 by simp
      then show ?thesis using 1 by (simp add: height_of.simps)
    next
      case False
      then have "width n (Suc k + height_of ((m + 1) div 2)) = 1" using 1 by (intro "1.IH") (simp_all add: width_Suc)
      then show ?thesis using False by (simp add: height_of.simps [of m])
    qed
  qed
  from this [of n 0] show "0 < n \<Longrightarrow> width n (height_of n) = 1" by simp
qed

lemma below_width: "p < width n (Suc h) \<Longrightarrow> 2 * p < width n h"
  by (simp add: width_Suc)

lemma height_of_le: "n \<le> 2 ^ k \<Longrightarrow> height_of n \<le> k"
proof (induction k arbitrary: n)
  case 0
  then show ?case by (simp add: height_of.simps)
next
  case (Suc k)
  then have "height_of ((n + 1) div 2) \<le> k" by (intro Suc.IH) simp
  then show ?case by (simp add: height_of.simps [of n])
qed

lemma tree_width_nat:
  assumes "unat n < 2 ^ 31" "h < 31"
  shows "unat (tree_width n h) = width (unat n) h"
proof -
  have h: "(2 :: nat) ^ h < 2 ^ 31" using assms(2) by (intro power_strict_increasing) simp_all
  define k where "k = unat n + 2 ^ h - 1"
  have "unat n + 2 ^ h = Suc k" by (simp add: k_def)
  moreover have "n + push_bit h 1 = of_nat (unat n + 2 ^ h)" by (simp add: push_bit_eq_mult)
  ultimately have "n + push_bit h 1 - 1 = of_nat k" by (simp only: of_nat_Suc add_diff_cancel_left')
  moreover have "unat (of_nat k :: u32) = k" using assms(1) h by (simp add: unat_of_nat k_def)
  ultimately have "unat (n + push_bit h 1 - 1) = unat n + 2 ^ h - 1" by (simp only: k_def)
  moreover have "tree_width n h = drop_bit h (n + push_bit h 1 - 1)" using assms(2) by (simp add: tree_width_def)
  moreover have "unat (drop_bit h w) = unat w div 2 ^ h" for w :: u32
    unfolding unat_drop_bit_eq by (rule drop_bit_eq_div)
  ultimately show ?thesis by (simp only: width_def)
qed

subsection \<open>Soundness\<close>

text \<open>The inputs the proof hashes, and those of the tree.\<close>

fun extract_inputs ::
  "(bytes \<Rightarrow> b256) \<Rightarrow> partial_merkle_tree \<Rightarrow> nat \<Rightarrow> u32 \<Rightarrow> extract_state \<Rightarrow> bytes list" where
  "extract_inputs sha t height pos st =
     (if length (pm_flag_bits t) \<le> ex_bits st \<or> height = 0 \<or> \<not> pm_flag_bits t ! ex_bits st then []
      else
        let st1 = st\<lparr> ex_bits := ex_bits st + 1 \<rparr>
        in extract_inputs sha t (height - 1) (pos * 2) st1
           @ (case recursive_extract sha t (height - 1) (pos * 2) st1 of
                None \<Rightarrow> []
              | Some (l, st2) \<Rightarrow>
                  if pos * 2 + 1 < tree_width (pm_tx_count t) (height - 1) then
                    extract_inputs sha t (height - 1) (pos * 2 + 1) st2
                    @ (case recursive_extract sha t (height - 1) (pos * 2 + 1) st2 of
                         None \<Rightarrow> [] | Some (r, st3) \<Rightarrow> [l @ r])
                  else [l @ l]))"

declare extract_inputs.simps [simp del]

definition node_input :: "(bytes \<Rightarrow> b256) \<Rightarrow> b256 list \<Rightarrow> nat \<Rightarrow> nat \<Rightarrow> bytes" where
  "node_input sha txs h p =
     mnode sha txs h (2 * p) @ mnode sha txs h (if 2 * p + 1 < width (length txs) h then 2 * p + 1 else 2 * p)"

definition tree_inputs :: "(bytes \<Rightarrow> b256) \<Rightarrow> b256 list \<Rightarrow> bytes list" where
  "tree_inputs sha txs =
     concat (map (\<lambda>h. map (node_input sha txs h) [0..<width (length txs) (Suc h)]) [0..<height_of (length txs)])"

lemma node_input_tree:
  "h < height_of (length txs) \<Longrightarrow> p < width (length txs) (Suc h) \<Longrightarrow> node_input sha txs h p \<in> set (tree_inputs sha txs)"
  by (auto simp: tree_inputs_def intro!: bexI [of _ h])

lemma mnode_Suc: "mnode sha txs (Suc h) p = sha (node_input sha txs h p)"
  by (simp add: node_input_def combine_hashes_def)

declare mnode.simps(2) [simp del]

lemma length_mnode:
  assumes "\<And>d. length (sha d) = 32" "\<forall>x \<in> set txs. length x = 32"
  shows "p < width (length txs) h \<Longrightarrow> length (mnode sha txs h p) = 32"
  using assms by (cases h) (simp_all add: mnode_Suc)

text \<open>The three ways an extraction succeeds.\<close>

lemma recursive_extract_cases:
  assumes "recursive_extract sha t h pos st = Some (x, st')"
  obtains (leaf) "h = 0 \<or> \<not> pm_flag_bits t ! ex_bits st" "ex_hashes st < length (pm_hashes t)"
      "x = pm_hashes t ! ex_hashes st"
      "ex_matched st' = (if h = 0 \<and> pm_flag_bits t ! ex_bits st then ex_matched st @ [x] else ex_matched st)"
  | (pair) h' l r st2 where "h = Suc h'" "recursive_extract sha t h' (pos * 2) (st\<lparr> ex_bits := ex_bits st + 1 \<rparr>) = Some (l, st2)"
      "pos * 2 + 1 < tree_width (pm_tx_count t) h'" "recursive_extract sha t h' (pos * 2 + 1) st2 = Some (r, st')"
      "l \<noteq> r" "x = sha (l @ r)"
      "extract_inputs sha t h pos st = extract_inputs sha t h' (pos * 2) (st\<lparr> ex_bits := ex_bits st + 1 \<rparr>)
        @ extract_inputs sha t h' (pos * 2 + 1) st2 @ [l @ r]"
  | (single) h' l where "h = Suc h'" "recursive_extract sha t h' (pos * 2) (st\<lparr> ex_bits := ex_bits st + 1 \<rparr>) = Some (l, st')"
      "\<not> pos * 2 + 1 < tree_width (pm_tx_count t) h'" "x = sha (l @ l)"
      "extract_inputs sha t h pos st = extract_inputs sha t h' (pos * 2) (st\<lparr> ex_bits := ex_bits st + 1 \<rparr>) @ [l @ l]"
proof (cases "h = 0 \<or> \<not> pm_flag_bits t ! ex_bits st")
  case True
  then show ?thesis
    using assms by (intro leaf) (auto simp: recursive_extract.simps [of sha t h] Let_def split: if_splits)
next
  case False
  then obtain h' where h: "h = Suc h'" by (cases h) auto
  have ok: "\<not> length (pm_flag_bits t) \<le> ex_bits st" using assms by (auto simp: recursive_extract.simps [of sha t h] split: if_splits)
  let ?st1 = "st\<lparr> ex_bits := ex_bits st + 1 \<rparr>"
  obtain l st2 where l: "recursive_extract sha t h' (pos * 2) ?st1 = Some (l, st2)"
    using assms False ok by (cases "recursive_extract sha t h' (pos * 2) ?st1") (auto simp: h recursive_extract.simps [of sha t "Suc h'"])
  show ?thesis
  proof (cases "pos * 2 + 1 < tree_width (pm_tx_count t) h'")
    case True
    then obtain r st3 where r: "recursive_extract sha t h' (pos * 2 + 1) st2 = Some (r, st3)"
      using assms False ok l
      by (cases "recursive_extract sha t h' (pos * 2 + 1) st2") (auto simp: h recursive_extract.simps [of sha t "Suc h'"])
    then show ?thesis
      using assms False ok l True
      by (intro pair [OF h l True])
        (auto simp: h recursive_extract.simps [of sha t "Suc h'"] extract_inputs.simps [of sha t "Suc h'"] combine_hashes_def Let_def split: if_splits)
  next
    case False
    then show ?thesis
      using assms \<open>\<not> (h = 0 \<or> \<not> pm_flag_bits t ! ex_bits st)\<close> ok l
      by (intro single [of h' l])
        (auto simp: h recursive_extract.simps [of sha t "Suc h'"] extract_inputs.simps [of sha t "Suc h'"] combine_hashes_def Let_def)
  qed
qed

lemma width_le: "width n h \<le> n"
proof (induction h)
  case (Suc h)
  then show ?case using width_Suc [of n h] by simp
qed simp

lemma right_child:
  assumes "unat c < 2 ^ 31" "p < width (unat c) (Suc h)" "h < 31"
  shows "of_nat p * 2 + 1 < tree_width c h \<longleftrightarrow> 2 * p + 1 < width (unat c) h"
proof -
  have "2 * p + 1 < 2 ^ 32" using assms(1,2) width_le [of "unat c" "Suc h"] by simp
  moreover have "of_nat p * 2 + 1 = (of_nat (2 * p + 1) :: u32)" by simp
  ultimately have "unat (of_nat p * 2 + 1 :: u32) = 2 * p + 1" by (simp only: unat_of_nat) simp
  then show ?thesis using tree_width_nat [OF assms(1,3)] by (simp add: word_less_nat_alt)
qed

lemma length_extract:
  assumes sha: "\<And>d. length (sha d) = 32" and hs: "\<forall>x \<in> set (pm_hashes t). length x = 32"
    and "recursive_extract sha t h pos st = Some (x, st')"
  shows "length x = 32"
  using assms(3) by (cases rule: recursive_extract_cases) (simp_all add: sha hs)

text \<open>Without collisions, what hashes to a node of the tree is the pair of its children.\<close>

lemma children_known:
  assumes sha: "\<And>d. length (sha d) = 32" and txs: "\<forall>x \<in> set txs. length x = 32"
    and node: "p < width (length txs) (Suc h)" "Suc h \<le> height_of (length txs)"
    and inj: "inj_on sha (I \<union> set (tree_inputs sha txs))"
    and lr: "sha (l @ r) = mnode sha txs (Suc h) p" "l @ r \<in> I" "length l = 32"
  shows "l = mnode sha txs h (2 * p)"
    "r = mnode sha txs h (if 2 * p + 1 < width (length txs) h then 2 * p + 1 else 2 * p)"
proof -
  have "node_input sha txs h p \<in> set (tree_inputs sha txs)" using node by (intro node_input_tree) simp_all
  then have "l @ r = node_input sha txs h p"
    using inj_onD [OF inj, of "l @ r" "node_input sha txs h p"] lr by (simp add: mnode_Suc)
  moreover have "length (mnode sha txs h (2 * p)) = 32" by (rule length_mnode [OF sha txs below_width [OF node(1)]])
  ultimately show "l = mnode sha txs h (2 * p)"
    "r = mnode sha txs h (if 2 * p + 1 < width (length txs) h then 2 * p + 1 else 2 * p)"
    using lr(3) by (simp_all add: node_input_def)
qed

lemma leaves_below:
  "2 * p * 2 ^ h \<le> q \<and> q < (2 * p + 1) * 2 ^ h \<or> (2 * p + 1) * 2 ^ h \<le> q \<and> q < (2 * p + 1 + 1) * 2 ^ h \<Longrightarrow>
   p * 2 ^ Suc h \<le> q \<and> q < (p + 1) * 2 ^ Suc h" for p q h :: nat
  by (auto simp: algebra_simps)

lemma extract_sound:
  assumes sha: "\<And>d. length (sha d) = 32" and hs: "\<forall>x \<in> set (pm_hashes t). length x = 32"
    and txs: "\<forall>x \<in> set txs. length x = 32" "length txs < 2 ^ 31" "unat (pm_tx_count t) = length txs"
  shows "recursive_extract sha t h (of_nat p) st = Some (mnode sha txs h p, st') \<Longrightarrow> p < width (length txs) h \<Longrightarrow>
    h \<le> height_of (length txs) \<Longrightarrow>
    inj_on sha (set (extract_inputs sha t h (of_nat p) st) \<union> set (tree_inputs sha txs)) \<Longrightarrow>
    \<exists>ps. ex_matched st' = ex_matched st @ map ((!) txs) ps \<and> sorted_wrt (<) ps
      \<and> (\<forall>q \<in> set ps. p * 2 ^ h \<le> q \<and> q < (p + 1) * 2 ^ h \<and> q < length txs)"
proof (induction h arbitrary: p st st')
  case 0
  from "0.prems"(1) show ?case
  proof (cases rule: recursive_extract_cases)
    case leaf
    then show ?thesis
      using "0.prems"(2) by (cases "pm_flag_bits t ! ex_bits st") (auto intro: exI [of _ "[p]"])
  qed simp_all
next
  case (Suc h)
  let ?pos = "of_nat p :: u32" and ?st1 = "st\<lparr> ex_bits := ex_bits st + 1 \<rparr>"
  have low: "h < 31" using Suc.prems(3) height_of_le [of "length txs" 31] txs(2) by simp
  note rc = right_child [of "pm_tx_count t" p h, unfolded txs(3), OF txs(2) Suc.prems(2) low]
  note lt = below_width [OF Suc.prems(2)] and known = children_known [OF sha txs(1) Suc.prems(2-4)]
  have hle: "h \<le> height_of (length txs)" using Suc.prems(3) by simp
  have pos: "?pos * 2 = of_nat (2 * p)" "?pos * 2 + 1 = of_nat (2 * p + 1)" by simp_all
  from Suc.prems(1) show ?case
  proof (cases rule: recursive_extract_cases)
    case leaf
    then show ?thesis by (auto intro: exI [of _ "[]"])
  next
    case (pair h' l r st2)
    then have h': "h' = h" by simp
    have r2: "2 * p + 1 < width (length txs) h" using pair(3) rc h' by simp
    have lr: "l = mnode sha txs h (2 * p)" "r = mnode sha txs h (2 * p + 1)"
      using known [OF pair(6) [symmetric] _ length_extract [OF sha hs pair(2)]] r2 by (simp_all add: pair(7))
    note sub = Suc.prems(4) [unfolded pair(7) h', unfolded pos(2), unfolded pos(1)]
    have "recursive_extract sha t h (of_nat (2 * p)) ?st1 = Some (mnode sha txs h (2 * p), st2)"
      using pair(2) unfolding h' pos(1) lr(1) .
    from Suc.IH [OF this lt hle inj_on_subset [OF sub]] obtain ps where ps: "ex_matched st2 = ex_matched st @ map ((!) txs) ps" "sorted_wrt (<) ps"
        "\<forall>q \<in> set ps. 2 * p * 2 ^ h \<le> q \<and> q < (2 * p + 1) * 2 ^ h \<and> q < length txs"
      by auto
    have "recursive_extract sha t h (of_nat (2 * p + 1)) st2 = Some (mnode sha txs h (2 * p + 1), st')"
      using pair(4) unfolding h' pos(2) lr(2) .
    from Suc.IH [OF this r2 hle inj_on_subset [OF sub]] obtain qs where qs: "ex_matched st' = ex_matched st2 @ map ((!) txs) qs" "sorted_wrt (<) qs"
        "\<forall>q \<in> set qs. (2 * p + 1) * 2 ^ h \<le> q \<and> q < (2 * p + 1 + 1) * 2 ^ h \<and> q < length txs"
      by auto
    have "sorted_wrt (<) (ps @ qs)" using ps(2,3) qs(2,3) by (force simp: sorted_wrt_append)
    moreover have "\<forall>q \<in> set (ps @ qs). p * 2 ^ Suc h \<le> q \<and> q < (p + 1) * 2 ^ Suc h \<and> q < length txs"
      using ps(3) qs(3) leaves_below by (metis Un_iff set_append)
    ultimately show ?thesis using ps(1) qs(1) by (intro exI [of _ "ps @ qs"]) simp
  next
    case (single h' l)
    then have h': "h' = h" by simp
    have l: "l = mnode sha txs h (2 * p)"
      using known(1) [OF single(4) [symmetric] _ length_extract [OF sha hs single(2)]] by (simp add: single(5))
    note sub = Suc.prems(4) [unfolded single(5) h', unfolded pos(1)]
    have "recursive_extract sha t h (of_nat (2 * p)) ?st1 = Some (mnode sha txs h (2 * p), st')"
      using single(2) unfolding h' pos(1) l .
    from Suc.IH [OF this lt hle inj_on_subset [OF sub]] obtain ps where "ex_matched st' = ex_matched st @ map ((!) txs) ps" "sorted_wrt (<) ps"
        "\<forall>q \<in> set ps. 2 * p * 2 ^ h \<le> q \<and> q < (2 * p + 1) * 2 ^ h \<and> q < length txs"
      by auto
    then show ?thesis using leaves_below by (intro exI [of _ ps]) metis
  qed
qed

text \<open>C8. A partial Merkle tree proves membership. If an extraction succeeds with the Merkle root of a
  block's transaction hashes, as many as the tree claims, and the hash has no collision among the inputs the
  proof and the block's tree feed it, then the matched hashes are transactions of the block, in their order
  and each at its own position.\<close>

theorem pmt_sound:
  assumes sha: "\<And>d. length (sha d) = 32" and hs: "\<forall>x \<in> set (pm_hashes t). length x = 32"
    and txs: "\<forall>x \<in> set txs. length x = 32" "length txs < 2 ^ 31" "unat (pm_tx_count t) = length txs"
    and ok: "extract_matches sha t = Some r" "pr_merkle_root r = merkle_root sha txs"
    and inj: "inj_on sha (set (extract_inputs sha t (tree_height (pm_tx_count t)) 0 extract_start) \<union> set (tree_inputs sha txs))"
  shows "\<exists>ps. pr_matched_hashes r = map ((!) txs) ps \<and> sorted_wrt (<) ps \<and> (\<forall>q \<in> set ps. q < length txs)"
proof -
  let ?H = "height_of (length txs)"
  have H: "tree_height (pm_tx_count t) = ?H" by (simp add: tree_height_def txs(3))
  obtain st where st: "recursive_extract sha t ?H (of_nat 0) extract_start = Some (mnode sha txs ?H 0, st)"
      "pr_matched_hashes r = ex_matched st" "pm_tx_count t \<noteq> 0"
    using ok by (auto simp: extract_matches_def merkle_root_def H split: if_splits option.splits)
  have "0 < length txs" using st(3) txs(3) by (metis gr0I unat_eq_zero)
  then have "0 < width (length txs) ?H" by (simp add: width_height)
  from extract_sound [OF sha hs txs st(1) this order.refl] inj st(2) show ?thesis
    by (auto simp: H extract_start_def)
qed

subsection \<open>Completeness\<close>

text \<open>The proof of a selection: depth first, a subtree without a selected transaction is its hash.\<close>

fun selected :: "(nat \<Rightarrow> bool) \<Rightarrow> nat \<Rightarrow> nat \<Rightarrow> nat \<Rightarrow> bool" where
  "selected sel n 0 p = sel p"
| "selected sel n (Suc h) p = (selected sel n h (2 * p) \<or> 2 * p + 1 < width n h \<and> selected sel n h (2 * p + 1))"

fun proof_bits :: "(nat \<Rightarrow> bool) \<Rightarrow> nat \<Rightarrow> nat \<Rightarrow> nat \<Rightarrow> bool list" where
  "proof_bits sel n 0 p = [sel p]"
| "proof_bits sel n (Suc h) p =
     (if selected sel n (Suc h) p
      then True # proof_bits sel n h (2 * p) @ (if 2 * p + 1 < width n h then proof_bits sel n h (2 * p + 1) else [])
      else [False])"

fun proof_hashes :: "(bytes \<Rightarrow> b256) \<Rightarrow> (nat \<Rightarrow> bool) \<Rightarrow> b256 list \<Rightarrow> nat \<Rightarrow> nat \<Rightarrow> b256 list" where
  "proof_hashes sha sel txs 0 p = [txs ! p]"
| "proof_hashes sha sel txs (Suc h) p =
     (if selected sel (length txs) (Suc h) p
      then proof_hashes sha sel txs h (2 * p)
        @ (if 2 * p + 1 < width (length txs) h then proof_hashes sha sel txs h (2 * p + 1) else [])
      else [mnode sha txs (Suc h) p])"

fun leaves :: "nat \<Rightarrow> nat \<Rightarrow> nat \<Rightarrow> nat list" where
  "leaves n 0 p = [p]"
| "leaves n (Suc h) p = leaves n h (2 * p) @ (if 2 * p + 1 < width n h then leaves n h (2 * p + 1) else [])"

lemma selected_leaves: "selected sel n h p \<longleftrightarrow> (\<exists>q \<in> set (leaves n h p). sel q)"
  by (induction h arbitrary: p) auto

lemma less_width: "q < width n h \<longleftrightarrow> q * 2 ^ h < n"
proof -
  have "q < width n h \<longleftrightarrow> Suc q * 2 ^ h \<le> n + 2 ^ h - 1"
    unfolding width_def Suc_le_eq [symmetric] by (rule less_eq_div_iff_mult_less_eq) simp
  also have "\<dots> \<longleftrightarrow> q * 2 ^ h < n" using one_le_power [of "2 :: nat" h] by (simp only: mult_Suc) linarith
  finally show ?thesis .
qed

lemma upt_join: "a \<le> b \<Longrightarrow> b \<le> c \<Longrightarrow> [a..<b] @ [b..<c] = [a..<c]"
  using upt_add_eq_append [of a b "c - b"] by simp

lemma leaves_range: "p < width n h \<Longrightarrow> leaves n h p = [p * 2 ^ h ..< min n ((p + 1) * 2 ^ h)]"
proof (induction h arbitrary: p)
  case 0
  then show ?case by (simp add: min_def upt_rec)
next
  case (Suc h)
  note L = Suc.IH [OF below_width [OF Suc.prems]]
  show ?case
  proof (cases "2 * p + 1 < width n h")
    case True
    then have "(2 * p + 1) * 2 ^ h < n" by (simp only: less_width)
    then have "[2 * p * 2 ^ h ..< min n ((2 * p + 1) * 2 ^ h)] @ [(2 * p + 1) * 2 ^ h ..< min n ((2 * p + 1 + 1) * 2 ^ h)]
        = [2 * p * 2 ^ h ..< min n ((2 * p + 1 + 1) * 2 ^ h)]"
      by (simp add: min_def upt_join)
    then show ?thesis using True L Suc.IH [OF True] by (simp add: algebra_simps)
  next
    case False
    then have "n \<le> (2 * p + 1) * 2 ^ h" by (simp only: less_width not_less)
    then show ?thesis using False L by (simp add: algebra_simps min_def)
  qed
qed

lemma all_leaves: "0 < n \<Longrightarrow> leaves n (height_of n) 0 = [0..<n]"
proof -
  assume "0 < n"
  then have "width n (height_of n) = 1" by (rule width_height)
  moreover from this have "n \<le> 2 ^ height_of n" using less_width [of 1 n "height_of n"] by simp
  ultimately show ?thesis using leaves_range [of 0 n "height_of n"] by (simp add: min_def)
qed

text \<open>The code refuses two equal children, so no two sibling subtrees of the block may be equal.\<close>

definition siblings_differ :: "(bytes \<Rightarrow> b256) \<Rightarrow> b256 list \<Rightarrow> bool" where
  "siblings_differ sha txs =
     (\<forall>h p. h < height_of (length txs) \<longrightarrow> 2 * p + 1 < width (length txs) h \<longrightarrow> mnode sha txs h (2 * p) \<noteq> mnode sha txs h (2 * p + 1))"

definition advance :: "nat \<Rightarrow> nat \<Rightarrow> b256 list \<Rightarrow> extract_state \<Rightarrow> extract_state" where
  "advance b k ms st = \<lparr> ex_bits = ex_bits st + b, ex_hashes = ex_hashes st + k, ex_matched = ex_matched st @ ms \<rparr>"

lemma extract_pair:
  assumes "\<not> length (pm_flag_bits t) \<le> ex_bits st" "pm_flag_bits t ! ex_bits st"
    and "recursive_extract sha t h (pos * 2) (st\<lparr> ex_bits := ex_bits st + 1 \<rparr>) = Some (l, st2)"
  shows "recursive_extract sha t (Suc h) pos st =
    (if pos * 2 + 1 < tree_width (pm_tx_count t) h
     then (case recursive_extract sha t h (pos * 2 + 1) st2 of None \<Rightarrow> None
       | Some (r, st3) \<Rightarrow> if l = r then None else Some (combine_hashes sha l r, st3))
     else Some (combine_hashes sha l l, st2))"
  using assms by (simp add: recursive_extract.simps [of sha t "Suc h"] Let_def)

lemma extract_complete:
  assumes txs: "length txs < 2 ^ 31" "unat (pm_tx_count t) = length txs" and differ: "siblings_differ sha txs"
  defines "n \<equiv> length txs"
  shows "p < width n h \<Longrightarrow> h \<le> height_of n \<Longrightarrow>
    pm_flag_bits t = bs @ proof_bits sel n h p @ bs' \<Longrightarrow> ex_bits st = length bs \<Longrightarrow>
    pm_hashes t = hs @ proof_hashes sha sel txs h p @ hs' \<Longrightarrow> ex_hashes st = length hs \<Longrightarrow>
    recursive_extract sha t h (of_nat p) st =
      Some (mnode sha txs h p, advance (length (proof_bits sel n h p)) (length (proof_hashes sha sel txs h p))
        (map ((!) txs) (filter sel (leaves n h p))) st)"
proof (induction h arbitrary: p bs bs' hs hs' st)
  case 0
  then show ?case by (simp add: recursive_extract.simps nth_append advance_def Let_def)
next
  case (Suc h)
  show ?case
  proof (cases "selected sel n (Suc h) p")
    case False
    then have "filter sel (leaves n (Suc h) p) = []" unfolding selected_leaves by (auto simp: filter_empty_conv)
    then show ?thesis
      using Suc.prems(3-6) False
      by (simp add: recursive_extract.simps nth_append advance_def Let_def n_def del: leaves.simps selected.simps)
  next
    case True
    let ?lb = "proof_bits sel n h (2 * p)" and ?lh = "proof_hashes sha sel txs h (2 * p)"
    let ?rt = "2 * p + 1 < width n h"
    let ?rb = "if ?rt then proof_bits sel n h (2 * p + 1) else []" and ?rh = "if ?rt then proof_hashes sha sel txs h (2 * p + 1) else []"
    have low: "h < 31" using Suc.prems(2) height_of_le [of n 31] txs(1) by (simp add: n_def)
    note rc = right_child [of "pm_tx_count t" p h, unfolded txs(2), OF txs(1) Suc.prems(1) [unfolded n_def] low, folded n_def]
    have bits: "pm_flag_bits t = (bs @ [True]) @ ?lb @ ?rb @ bs'" "pm_flag_bits t = (bs @ True # ?lb) @ ?rb @ bs'"
      using Suc.prems(3) True by (simp_all del: selected.simps)
    have hash: "pm_hashes t = hs @ ?lh @ ?rh @ hs'" "pm_hashes t = (hs @ ?lh) @ ?rh @ hs'"
      using Suc.prems(5) True by (simp_all del: selected.simps add: n_def)
    define st1 where "st1 = st\<lparr> ex_bits := ex_bits st + 1 \<rparr>"
    define st2 where "st2 = advance (length ?lb) (length ?lh) (map ((!) txs) (filter sel (leaves n h (2 * p)))) st1"
    have l: "recursive_extract sha t h (of_nat (2 * p)) st1 = Some (mnode sha txs h (2 * p), st2)"
      unfolding st2_def using Suc.prems(2,4,6)
      by (intro Suc.IH [OF below_width [OF Suc.prems(1)] _ bits(1) _ hash(1)]) (simp_all add: st1_def)
    have r: "recursive_extract sha t h (of_nat (2 * p + 1)) st2 = Some (mnode sha txs h (2 * p + 1),
        advance (length ?rb) (length ?rh) (map ((!) txs) (filter sel (leaves n h (2 * p + 1)))) st2)" if ?rt
      using that Suc.prems(2,4,6) Suc.IH [OF that _ bits(2) [simplified that if_True] _ hash(2) [simplified that if_True], of st2]
      by (simp add: st2_def st1_def advance_def)
    have flag: "\<not> length (pm_flag_bits t) \<le> ex_bits st" "pm_flag_bits t ! ex_bits st"
      using bits(1) Suc.prems(4) by (simp_all add: nth_append)
    have pos: "of_nat p * 2 = (of_nat (2 * p) :: u32)" "of_nat p * 2 + 1 = (of_nat (2 * p + 1) :: u32)" by simp_all
    note step = extract_pair [OF flag l [folded pos(1), unfolded st1_def], unfolded rc, unfolded pos(2)]
    show ?thesis
    proof (cases ?rt)
      case rt: True
      have "mnode sha txs h (2 * p) \<noteq> mnode sha txs h (2 * p + 1)"
        using rt differ Suc.prems(2) by (simp add: siblings_differ_def n_def)
      then show ?thesis
        unfolding step r [OF rt] mnode_Suc using rt True
        by (simp add: st2_def st1_def advance_def node_input_def combine_hashes_def n_def del: selected.simps)
    next
      case False
      then show ?thesis
        unfolding step mnode_Suc using True
        by (simp add: st2_def st1_def advance_def node_input_def combine_hashes_def n_def del: selected.simps)
    qed
  qed
qed

definition pmt_of :: "(bytes \<Rightarrow> b256) \<Rightarrow> (nat \<Rightarrow> bool) \<Rightarrow> b256 list \<Rightarrow> partial_merkle_tree" where
  "pmt_of sha sel txs =
     (let bits = proof_bits sel (length txs) (height_of (length txs)) 0
      in \<lparr> pm_tx_count = of_nat (length txs), pm_hashes = proof_hashes sha sel txs (height_of (length txs)) 0,
           pm_flag_bits = bits @ replicate ((8 - length bits mod 8) mod 8) False \<rparr>)"

lemma proof_hashes_le: "length (proof_hashes sha sel txs h p) \<le> length (leaves (length txs) h p)"
proof (induction h arbitrary: p)
  case (Suc h)
  have "leaves n h p \<noteq> []" for n p by (induction h arbitrary: p) simp_all
  then have "1 \<le> length (leaves (length txs) h (2 * p))" by (simp add: Suc_le_eq)
  then show ?case
    using add_mono [OF Suc.IH [of "2 * p"] Suc.IH [of "2 * p + 1"]] Suc.IH [of "2 * p"] by simp
qed simp

lemma padded_bytes: "div_ceil (a + (8 - a mod 8) mod 8) 8 = div_ceil a 8"
proof (cases "a mod 8 = 0")
  case False
  obtain q r where a: "a = 8 * q + r" "r = a mod 8" "r < 8" by (metis mod_less_divisor mult_div_mod_eq zero_less_numeral)
  then have "(8 - a mod 8) mod 8 = 8 - r" "0 < r" using False by simp_all
  then have "div_ceil (a + (8 - a mod 8) mod 8) 8 = (8 * (q + 1) + 7) div 8" "div_ceil a 8 = (8 * (q + 1) + (r - 1)) div 8"
    using a(1,3) by (simp_all add: div_ceil_def)
  then show ?thesis using a(3) by (simp only: div_mult_self4)
qed (simp add: div_ceil_def)

text \<open>C19. The proof of any selection is accepted: for a block of at least one and less than \<open>2 ^ 31\<close>
  transactions with no two equal sibling subtrees, the tree built for the selection, padded to whole bytes,
  extracts to the Merkle root of the block and exactly the selected transactions, in order.\<close>

theorem pmt_complete:
  assumes "txs \<noteq> []" "length txs < 2 ^ 31" "siblings_differ sha txs"
  shows "extract_matches sha (pmt_of sha sel txs) =
    Some \<lparr> pr_merkle_root = merkle_root sha txs, pr_matched_hashes = map ((!) txs) (filter sel [0..<length txs]) \<rparr>"
proof -
  let ?n = "length txs" and ?t = "pmt_of sha sel txs"
  let ?b = "proof_bits sel ?n (height_of ?n) 0" and ?h = "proof_hashes sha sel txs (height_of ?n) 0"
  have n: "0 < ?n" using assms(1) by simp
  have count: "unat (pm_tx_count ?t) = ?n" using assms(2) by (simp add: pmt_of_def Let_def unat_of_nat)
  then have "pm_tx_count ?t \<noteq> 0" using n by (metis less_irrefl unat_0)
  moreover have "length ?h \<le> ?n" using proof_hashes_le [of sha sel txs "height_of ?n" 0] n by (simp add: all_leaves)
  moreover have "recursive_extract sha ?t (height_of ?n) (of_nat 0) extract_start =
      Some (merkle_root sha txs, advance (length ?b) (length ?h) (map ((!) txs) (filter sel [0..<?n])) extract_start)"
    using extract_complete [OF assms(2) count assms(3), of 0 "height_of ?n" "[]" sel
        "replicate ((8 - length ?b mod 8) mod 8) False" extract_start "[]" "[]"] n
    by (simp add: merkle_root_def all_leaves width_height pmt_of_def Let_def extract_start_def)
  moreover have "pm_hashes ?t = ?h" "div_ceil (length ?b) 8 = div_ceil (length (pm_flag_bits ?t)) 8"
    by (simp_all add: pmt_of_def Let_def padded_bytes)
  ultimately show ?thesis
    by (simp add: extract_matches_def tree_height_def count advance_def extract_start_def)
qed

subsection \<open>Branches\<close>

text \<open>The branch of a transaction: the other child at every height, and the bits of its position as the path.\<close>

definition other_child :: "(bytes \<Rightarrow> b256) \<Rightarrow> b256 list \<Rightarrow> nat \<Rightarrow> nat \<Rightarrow> b256" where
  "other_child sha txs i h =
     (let q = i div 2 ^ h
      in mnode sha txs h (if odd q then q - 1 else if q + 1 < width (length txs) h then q + 1 else q))"

definition branch_of :: "(bytes \<Rightarrow> b256) \<Rightarrow> b256 list \<Rightarrow> nat \<Rightarrow> merkle_branch" where
  "branch_of sha txs i =
     \<lparr> mb_hashes = map (other_child sha txs i) [0..<height_of (length txs)], mb_path = of_nat i \<rparr>"

lemma parent_of_child:
  assumes "i < length txs"
  shows "mnode sha txs (Suc h) (i div 2 ^ Suc h) =
    (if odd (i div 2 ^ h) then combine_hashes sha (other_child sha txs i h) (mnode sha txs h (i div 2 ^ h))
     else combine_hashes sha (mnode sha txs h (i div 2 ^ h)) (other_child sha txs i h))"
proof -
  define q where "q = i div 2 ^ h"
  have "q * 2 ^ h < length txs"
    unfolding q_def using assms by (meson div_times_less_eq_dividend order.strict_trans1)
  then have lt: "q < width (length txs) h" by (simp only: less_width)
  have half: "i div 2 ^ Suc h = q div 2" by (simp only: q_def power_Suc2 div_mult2_eq)
  show ?thesis
  proof (cases "odd q")
    case True
    then have "Suc (2 * (q div 2)) = q" "2 * (q div 2) = q - 1" by (simp_all add: odd_two_times_div_two_nat)
    then show ?thesis
      using True lt unfolding half mnode_Suc node_input_def other_child_def Let_def combine_hashes_def q_def [symmetric]
      by simp
  next
    case False
    then have "2 * (q div 2) = q" by simp
    then show ?thesis
      using False unfolding half mnode_Suc node_input_def other_child_def Let_def combine_hashes_def q_def [symmetric]
      by simp
  qed
qed

text \<open>C27. The branch of a transaction proves it: for every block of fewer than \<open>2 ^ 31\<close> transactions and every
  position in it, reducing the branch of that position from the transaction there gives the Merkle root of the
  block, also where a level of the tree has odd width and its last node is paired with itself.\<close>

theorem branch_reduces:
  assumes "i < length txs" "length txs < 2 ^ 31"
  shows "reduce_from sha (branch_of sha txs i) (txs ! i) = merkle_root sha txs"
proof -
  let ?H = "height_of (length txs)"
  have H: "?H \<le> 31" using height_of_le [of "length txs" 31] assms(2) by simp
  have bits: "bit (of_nat i :: u32) (h mod 32) \<longleftrightarrow> odd (i div 2 ^ h)" if "h < ?H" for h
    using that H by (simp only: bit_of_nat_iff) (simp add: bit_iff_odd)
  have "h + k = ?H \<Longrightarrow> reduce_loop sha (of_nat i) h (map (other_child sha txs i) [h..<?H]) (mnode sha txs h (i div 2 ^ h))
      = mnode sha txs ?H (i div 2 ^ ?H)" for h k
  proof (induction k arbitrary: h)
    case (Suc k)
    then have h: "h < ?H" by simp
    then have "[h..<?H] = h # [Suc h..<?H]" by (rule upt_conv_Cons)
    then show ?case using Suc.IH [of "Suc h"] Suc.prems bits [OF h] parent_of_child [OF assms(1), of sha h] by simp
  qed simp
  from this [of 0 ?H] have "reduce_from sha (branch_of sha txs i) (txs ! i) = mnode sha txs ?H (i div 2 ^ ?H)"
    by (simp add: reduce_from_def branch_of_def)
  moreover have "length txs \<le> 2 ^ ?H"
    using less_width [of 1 "length txs" ?H] width_height [of "length txs"] assms(1) by (cases "length txs") auto
  ultimately show ?thesis using assms(1) by (simp add: merkle_root_def)
qed

subsection \<open>Examples\<close>

definition pad_hash :: "bytes \<Rightarrow> b256" where
  "pad_hash d = take 32 (d @ replicate 32 0)"

definition two_txs :: "b256 list" where
  "two_txs = [replicate 32 1, replicate 32 2]"

definition two_proof :: partial_merkle_tree where
  "two_proof = pmt_of pad_hash (\<lambda>i. i = 1) two_txs"

theorem pmt_sound_witness:
  "\<exists>r ps. extract_matches pad_hash two_proof = Some r \<and> pr_matched_hashes r = map ((!) two_txs) ps"
proof -
  let ?r = "\<lparr> pr_merkle_root = merkle_root pad_hash two_txs, pr_matched_hashes = [replicate 32 2] \<rparr>"
  have ok: "extract_matches pad_hash two_proof = Some ?r" by code_simp
  have inputs: "extract_inputs pad_hash two_proof (tree_height (pm_tx_count two_proof)) 0 extract_start = [replicate 32 1 @ replicate 32 2]"
      "tree_inputs pad_hash two_txs = [replicate 32 1 @ replicate 32 2]"
    by code_simp+
  have sizes: "unat (pm_tx_count two_proof) = length two_txs"
      "list_all (\<lambda>x. length x = 32) (pm_hashes two_proof)" "list_all (\<lambda>x. length x = 32) two_txs"
    by code_simp+
  have sha: "length (pad_hash d) = 32" for d by (simp add: pad_hash_def)
  have small: "length two_txs < 2 ^ 31" by (simp add: two_txs_def)
  have inj: "inj_on pad_hash (set (extract_inputs pad_hash two_proof (tree_height (pm_tx_count two_proof)) 0 extract_start)
      \<union> set (tree_inputs pad_hash two_txs))"
    by (simp add: inputs)
  have "pr_merkle_root ?r = merkle_root pad_hash two_txs" by simp
  from pmt_sound [OF sha sizes(2,3) [unfolded list_all_iff] small sizes(1) ok this inj]
  obtain ps where "pr_matched_hashes ?r = map ((!) two_txs) ps" by (elim exE conjE)
  with ok show ?thesis by blast
qed

theorem pmt_complete_witness:
  "extract_matches pad_hash (pmt_of pad_hash (\<lambda>i. True) two_txs) =
    Some \<lparr> pr_merkle_root = merkle_root pad_hash two_txs, pr_matched_hashes = two_txs \<rparr>"
proof -
  have one: "height_of (Suc (Suc 0)) = 1" by code_simp
  have "siblings_differ pad_hash two_txs" by (auto simp: siblings_differ_def two_txs_def less_width one)
  moreover have "map ((!) two_txs) (filter (\<lambda>i. True) [0..<length two_txs]) = two_txs" by (simp add: map_nth)
  moreover have "two_txs \<noteq> []" "length two_txs < 2 ^ 31" by (simp_all add: two_txs_def)
  ultimately show ?thesis using pmt_complete [of two_txs pad_hash "\<lambda>i. True"] by simp
qed

definition three_txs :: "b256 list" where
  "three_txs = [replicate 32 1, replicate 32 2, replicate 32 3]"

theorem branch_reduces_witness:
  "reduce_from pad_hash (branch_of pad_hash three_txs 2) (replicate 32 3) = merkle_root pad_hash three_txs"
  using branch_reduces [of 2 three_txs pad_hash] by (simp add: three_txs_def)

end
