(* ===== verification/Position.thy ===== *)
theory Position
  imports Block_Store
begin

text \<open>
  The node's position on the chain (\<open>crates/storage/src/position.rs\<close>) and the paths of
  \<open>crates/storage/src/lib.rs\<close> that move it: proving a lineage, the three transitions, and the
  header batch that adopts a heavier head. An error that the code reports as text is a
  constructor here, with the values the text shows.
\<close>

subsection \<open>Data\<close>

record block_ref =
  br_number :: u64
  br_hash :: b256

definition mk_ref :: "u64 \<Rightarrow> b256 \<Rightarrow> block_ref" where
  "mk_ref n h = \<lparr> br_number = n, br_hash = h \<rparr>"

datatype lineage_break =
    MissingHeader u64 b256
  | ParentMismatch u64 b256 b256
  | BelowFloor b256 u64
  | BreakStorage string

record validated =
  tip :: block_ref
  lineage :: "(u64 \<times> b256) list"

record cursor =
  validated_head :: block_ref
  executed :: block_ref
  cur_state_root :: b256

definition backlog :: "cursor \<Rightarrow> u64" where
  "backlog c = saturating_sub (br_number (validated_head c)) (br_number (executed c))"

datatype transition =
    Adopt validated
  | Retreat validated
  | Executed validated b256

datatype position_error =
    HeadHeaderMissing b256
  | ExecHeaderMissing b256
  | NotCanonical block_ref
  | AboveHead block_ref block_ref
  | NoRollbackTarget block_ref u64
  | RollbackHeaderMissing block_ref b256 u64
  | TooManyAbove u64
  | Unreadable

definition ZERO_HASH :: b256 where
  "ZERO_HASH = replicate 32 0"

subsection \<open>Proving a lineage\<close>

text \<open>The loop of \<open>Validated::prove\<close>; the entries are in the order they are pushed.\<close>

function prove_walk ::
  "(header \<Rightarrow> b256) \<Rightarrow> block_store \<Rightarrow> u64 \<Rightarrow> b256 \<Rightarrow> header \<Rightarrow> (u64 \<times> b256) list
   \<Rightarrow> lineage_break + (u64 \<times> b256) list" where
  "prove_walk hh s floor cursor_hash cursor_header acc =
     (let n = hd_number cursor_header;
          already_canonical = (canonical_hash hh s n = Some cursor_hash);
          acc1 = (if \<not> already_canonical then acc @ [(n, cursor_hash)] else acc)
      in if n = 0 \<or> n \<le> floor then Inr acc1
         else
           let ph = parent_hash cursor_header
           in if n - 1 < floor then Inr acc1
              else if already_canonical \<and> canonical_hash hh s (n - 1) = Some ph then Inr acc1
              else case get_header s ph of
                     None \<Rightarrow> Inl (MissingHeader (n - 1) ph)
                   | Some parent \<Rightarrow>
                       if hd_number parent + 1 \<noteq> n
                       then Inl (ParentMismatch (hd_number parent) ph cursor_hash)
                       else prove_walk hh s floor ph parent acc1)"
  by pat_completeness auto

lemma unat_succ: "m + 1 = n \<Longrightarrow> n \<noteq> 0 \<Longrightarrow> unat n = unat m + 1" for m n :: u64
  using unatSuc [of m] by (auto simp: add.commute)

termination prove_walk
  by (relation "measure (\<lambda>(hh, s, floor, h, hdr, acc). unat (hd_number hdr))")
    (auto dest!: unat_succ)

declare prove_walk.simps [simp del]

definition prove :: "(header \<Rightarrow> b256) \<Rightarrow> block_store \<Rightarrow> b256 \<Rightarrow> lineage_break + validated" where
  "prove hh s h =
     (case get_header s h of
        None \<Rightarrow> Inl (MissingHeader u64_max h)
      | Some hdr \<Rightarrow>
          (case prove_walk hh s (prune_floor_number s) h hdr [] of
             Inl e \<Rightarrow> Inl e
           | Inr acc \<Rightarrow> Inr \<lparr> tip = mk_ref (hd_number hdr) h, lineage = rev acc \<rparr>))"

subsection \<open>The cursor\<close>

definition read_cursor :: "block_store \<Rightarrow> position_error + cursor option" where
  "read_cursor s =
     (case bs_head s of
        None \<Rightarrow> Inr None
      | Some head_hash \<Rightarrow>
          (case get_header s head_hash of
             None \<Rightarrow> Inl (HeadHeaderMissing head_hash)
           | Some hdr \<Rightarrow>
               let (exec_hash, root) = (case bs_exec_head s of Some p \<Rightarrow> p | None \<Rightarrow> (head_hash, ZERO_HASH))
               in case get_header s exec_hash of
                    None \<Rightarrow> Inl (ExecHeaderMissing exec_hash)
                  | Some eh \<Rightarrow>
                      Inr (Some \<lparr> validated_head = mk_ref (hd_number hdr) head_hash,
                                  executed = mk_ref (hd_number eh) exec_hash,
                                  cur_state_root = root \<rparr>)))"

subsection \<open>Transitions\<close>

definition MAX_DROP :: nat where
  "MAX_DROP = 100000"

function drop_loop :: "(header \<Rightarrow> b256) \<Rightarrow> block_store \<Rightarrow> u64 \<Rightarrow> nat \<Rightarrow> u64 list \<Rightarrow> nat \<times> u64 list" where
  "drop_loop hh s n dropped acc =
     (if dropped < MAX_DROP then
        (case canonical_hash hh s n of
           Some _ \<Rightarrow> drop_loop hh s (n + 1) (dropped + 1) (acc @ [n])
         | None \<Rightarrow> (dropped, acc))
      else (dropped, acc))"
  by pat_completeness auto
termination
  by (relation "measure (\<lambda>(hh, s, n, dropped, acc). MAX_DROP - dropped)") auto

declare drop_loop.simps [simp del]

definition stage_drop_above ::
  "(header \<Rightarrow> b256) \<Rightarrow> block_store \<Rightarrow> u64 \<Rightarrow> position_error + batch_op list" where
  "stage_drop_above hh s tp =
     (let (dropped, ns) = drop_loop hh s (tp + 1) 0 []
      in if MAX_DROP \<le> dropped then Inl (TooManyAbove tp) else Inr (map DeleteNumber ns))"

definition lineage_at :: "(u64 \<times> b256) list \<Rightarrow> u64 \<Rightarrow> b256 option" where
  "lineage_at xs n = map_option snd (List.find (\<lambda>(m, _). m = n) xs)"

definition or_else :: "'a option \<Rightarrow> 'a option \<Rightarrow> 'a option" where
  "or_else a b = (case a of Some x \<Rightarrow> Some x | None \<Rightarrow> b)"

definition stage_execution_after_reorg ::
  "(header \<Rightarrow> b256) \<Rightarrow> block_store \<Rightarrow> cursor option \<Rightarrow> validated \<Rightarrow> position_error + batch_op list" where
  "stage_execution_after_reorg hh s before new_head =
     (case before of
        None \<Rightarrow> Inr []
      | Some bef \<Rightarrow>
          let ex = executed bef;
              canonical_at_exec = or_else (lineage_at (lineage new_head) (br_number ex))
                                    (canonical_hash hh s (br_number ex));
              orphaned = (canonical_at_exec \<noteq> Some (br_hash ex));
              above_head = (br_number (tip new_head) < br_number ex)
          in if \<not> orphaned \<and> \<not> above_head then Inr []
             else
               let target_number =
                     (case lineage new_head of
                        (n, _) # _ \<Rightarrow> min (saturating_sub n 1) (br_number (tip new_head))
                      | [] \<Rightarrow> br_number (tip new_head));
                   target_hash = or_else (lineage_at (lineage new_head) target_number)
                                   (canonical_hash hh s target_number)
               in case target_hash of
                    None \<Rightarrow> Inl (NoRollbackTarget ex target_number)
                  | Some th \<Rightarrow>
                      (case get_header s th of
                         None \<Rightarrow> Inl (RollbackHeaderMissing ex th target_number)
                       | Some target \<Rightarrow> Inr [PutExecHead th (state_root target)]))"

text \<open>The batch of a transition; nothing is written when a stage fails.\<close>

definition stage_move ::
  "(header \<Rightarrow> b256) \<Rightarrow> block_store \<Rightarrow> cursor option \<Rightarrow> validated \<Rightarrow> position_error + batch_op list" where
  "stage_move hh s before v =
     (case stage_drop_above hh s (br_number (tip v)) of
        Inl e \<Rightarrow> Inl e
      | Inr drops \<Rightarrow>
          (case stage_execution_after_reorg hh s before v of
             Inl e \<Rightarrow> Inl e
           | Inr ex \<Rightarrow>
               Inr (map (\<lambda>(n, h). PutNumber n h) (lineage v) @ drops @ [PutHead (br_hash (tip v))] @ ex)))"

definition stage_executed ::
  "(header \<Rightarrow> b256) \<Rightarrow> block_store \<Rightarrow> cursor option \<Rightarrow> validated \<Rightarrow> b256 \<Rightarrow> position_error + batch_op list" where
  "stage_executed hh s before v root =
     (if canonical_hash hh s (br_number (tip v)) \<noteq> Some (br_hash (tip v)) then Inl (NotCanonical (tip v))
      else case before of
             Some bef \<Rightarrow>
               if br_number (validated_head bef) < br_number (tip v)
               then Inl (AboveHead (tip v) (validated_head bef))
               else Inr [PutExecHead (br_hash (tip v)) root]
           | None \<Rightarrow> Inr [PutExecHead (br_hash (tip v)) root])"

definition apply_transition ::
  "(header \<Rightarrow> b256) \<Rightarrow> block_store \<Rightarrow> transition \<Rightarrow> (position_error + cursor) \<times> block_store" where
  "apply_transition hh s tr =
     (case read_cursor s of
        Inl e \<Rightarrow> (Inl e, s)
      | Inr before \<Rightarrow>
          (case (case tr of
                   Adopt v \<Rightarrow> stage_move hh s before v
                 | Retreat v \<Rightarrow> stage_move hh s before v
                 | Executed v root \<Rightarrow> stage_executed hh s before v root) of
             Inl e \<Rightarrow> (Inl e, s)
           | Inr batch \<Rightarrow>
               let s' = write_batch batch s
               in case read_cursor s' of
                    Inl e \<Rightarrow> (Inl e, s')
                  | Inr None \<Rightarrow> (Inl Unreadable, s')
                  | Inr (Some c) \<Rightarrow> (Inr c, s')))"

datatype local_break =
    HeadOffIndex block_ref "b256 option"
  | Stranded b256 u64 block_ref
  | ExecutionAbove block_ref block_ref

definition verify_local_coherence ::
  "(header \<Rightarrow> b256) \<Rightarrow> block_store \<Rightarrow> cursor \<Rightarrow> local_break option" where
  "verify_local_coherence hh s c =
     (let vh = validated_head c; canonical_at_head = canonical_hash hh s (br_number vh)
      in if canonical_at_head \<noteq> Some (br_hash vh) then Some (HeadOffIndex vh canonical_at_head)
         else case canonical_hash hh s (br_number vh + 1) of
                Some stranded \<Rightarrow> Some (Stranded stranded (br_number vh + 1) vh)
              | None \<Rightarrow>
                  if br_number vh < br_number (executed c) then Some (ExecutionAbove (executed c) vh)
                  else None)"

subsection \<open>The header batch\<close>

definition MAX_REORG_DEPTH :: nat where
  "MAX_REORG_DEPTH = 1000"

function lineage_walk ::
  "(header \<Rightarrow> b256) \<Rightarrow> block_store \<Rightarrow> b256 \<Rightarrow> nat \<Rightarrow> batch_op list \<Rightarrow> nat \<times> batch_op list" where
  "lineage_walk hh s h depth batch =
     (case get_header s h of
        None \<Rightarrow> (depth, batch)
      | Some header \<Rightarrow>
          let n = hd_number header;
              already_canonical = (canonical_hash hh s n = Some h);
              batch1 = (if \<not> already_canonical then batch @ [PutNumber n h] else batch)
          in if n = 0 then (depth, batch1)
             else if already_canonical \<and> canonical_hash hh s (n - 1) = Some (parent_hash header)
             then (depth, batch1)
             else if MAX_REORG_DEPTH \<le> depth + 1 then (depth + 1, batch1)
             else lineage_walk hh s (parent_hash header) (depth + 1) batch1)"
  by pat_completeness auto
termination lineage_walk
  by (relation "measure (\<lambda>(hh, s, h, depth, batch). MAX_REORG_DEPTH - depth)") auto

declare lineage_walk.simps [simp del]

definition ensure_canonical_lineage ::
  "(header \<Rightarrow> b256) \<Rightarrow> block_store \<Rightarrow> b256 \<Rightarrow> nat \<times> block_store" where
  "ensure_canonical_lineage hh s h =
     (let (depth, batch) = lineage_walk hh s h 0 []
      in (depth, if batch \<noteq> [] then write_batch batch s else s))"

definition update_canonical_chain :: "(header \<Rightarrow> b256) \<Rightarrow> block_store \<Rightarrow> b256 \<Rightarrow> block_store" where
  "update_canonical_chain hh s new_head = set_head (snd (ensure_canonical_lineage hh s new_head)) new_head"

definition move_head_to ::
  "(header \<Rightarrow> b256) \<Rightarrow> block_store \<Rightarrow> b256 \<Rightarrow> b256 option \<Rightarrow> (position_error + unit) \<times> block_store" where
  "move_head_to hh s new_head previous =
     (case prove hh s new_head of
        Inl _ \<Rightarrow> (Inr (), update_canonical_chain hh s new_head)
      | Inr proved \<Rightarrow>
          let descending = (case previous of
                              None \<Rightarrow> False
                            | Some p \<Rightarrow> (case get_header s p of
                                           None \<Rightarrow> False
                                         | Some ph \<Rightarrow> br_number (tip proved) < hd_number ph));
              (r, s') = apply_transition hh s (if descending then Retreat proved else Adopt proved)
          in (case r of Inl e \<Rightarrow> Inl e | Inr _ \<Rightarrow> Inr (), s'))"

fun batch_entries ::
  "(header \<Rightarrow> b256) \<Rightarrow> (header \<times> u256) list \<Rightarrow> b256 option \<Rightarrow> u256 \<Rightarrow> batch_op list \<times> b256 option" where
  "batch_entries hh [] best_hash best_td = ([], best_hash)"
| "batch_entries hh ((header, td) # entries) best_hash best_td =
     (let h = hh header;
          (best_hash', best_td') = (if best_td < td then (Some h, td) else (best_hash, best_td));
          (ops, best) = batch_entries hh entries best_hash' best_td'
      in ([PutHeader h header, PutTd h td, PutHeightIndex (hd_number header) h] @ ops, best))"

definition store_headers_batch ::
  "(header \<Rightarrow> b256) \<Rightarrow> block_store \<Rightarrow> (header \<times> u256) list \<Rightarrow> b256 option \<Rightarrow> u256
   \<Rightarrow> (position_error + b256 option) \<times> block_store" where
  "store_headers_batch hh s entries current_head_hash current_td =
     (if entries = [] then (Inr current_head_hash, s)
      else
        let (batch, best_hash) = batch_entries hh entries current_head_hash current_td;
            s1 = write_batch batch s
        in if best_hash \<noteq> current_head_hash then
             (case best_hash of
                Some new_head \<Rightarrow>
                  (case move_head_to hh s1 new_head current_head_hash of
                     (Inl e, s2) \<Rightarrow> (Inl e, s2)
                   | (Inr _, s2) \<Rightarrow> (Inr best_hash, s2))
              | None \<Rightarrow> (Inr best_hash, s1))
           else (Inr best_hash, s1))"

subsection \<open>Repair\<close>

record canonical_repair =
  walked :: nat
  corrected :: nat
  filled :: nat
  lowest :: "u64 option"
  stopped_at_missing_header :: "b256 option"

fun repair_walk ::
  "(header \<Rightarrow> b256) \<Rightarrow> block_store \<Rightarrow> b256 \<Rightarrow> nat \<Rightarrow> canonical_repair \<Rightarrow> batch_op list
   \<Rightarrow> canonical_repair \<times> batch_op list" where
  "repair_walk hh s h 0 report batch = (report, batch)"
| "repair_walk hh s h (Suc d) report batch =
     (case get_header s h of
        None \<Rightarrow> (report\<lparr> stopped_at_missing_header := Some h \<rparr>, batch)
      | Some header \<Rightarrow>
          let n = hd_number header;
              (report1, batch1) =
                (case canonical_hash hh s n of
                   Some c \<Rightarrow> if c = h then (report, batch)
                             else (report\<lparr> corrected := corrected report + 1 \<rparr>, batch @ [PutNumber n h])
                 | None \<Rightarrow> (report\<lparr> filled := filled report + 1 \<rparr>, batch @ [PutNumber n h]));
              report2 = report1\<lparr> walked := walked report1 + 1, lowest := Some n \<rparr>
          in if n = 0 then (report2, batch1)
             else repair_walk hh s (parent_hash header) d report2 batch1)"

definition repair_canonical_lineage ::
  "(header \<Rightarrow> b256) \<Rightarrow> block_store \<Rightarrow> b256 \<Rightarrow> nat \<Rightarrow> canonical_repair \<times> block_store" where
  "repair_canonical_lineage hh s h depth =
     (let (report, batch) =
            repair_walk hh s h depth \<lparr> walked = 0, corrected = 0, filled = 0, lowest = None,
                                       stopped_at_missing_header = None \<rparr> []
      in (report, if batch \<noteq> [] then write_batch batch s else s))"

end
