(* ===== verification/Coherence.thy ===== *)
theory Coherence
  imports Position
begin

text \<open>
  The coherence relations of \<open>crates/sync/src/invariant.rs\<close>, the invariant of the block store
  they come from, and the proof that every transition of \<open>Position\<close> keeps it. The trie store is
  its \<open>get\<close>.
\<close>

subsection \<open>The check\<close>

datatype scope = Delta u64 u64 | Full

definition heights :: "scope \<Rightarrow> u64 \<Rightarrow> u64 \<Rightarrow> u64 list" where
  "heights sc floor head =
     (case sc of
        Full \<Rightarrow> map of_nat [unat floor ..< Suc (unat head)]
      | Delta from to \<Rightarrow> map of_nat [unat (max from floor) ..< Suc (unat (min to head))])"

datatype violation =
    NoCanonicalEntry u64
  | CanonicalHeaderMissing u64 b256
  | ParentOffChain u64 b256 b256
  | ExecutedAboveHead u64 u64
  | ExecutedOffChain u64 b256 "b256 option"
  | CanonicalAboveHead u64 b256 u64
  | StateRootMissing u64 b256
  | HeadNotCanonical u64 b256 "b256 option"
  | StoreUnreadable string

fun relation_of :: "violation \<Rightarrow> string" where
  "relation_of (NoCanonicalEntry _) = ''I1''"
| "relation_of (CanonicalHeaderMissing _ _) = ''I2''"
| "relation_of (ParentOffChain _ _ _) = ''I3''"
| "relation_of (ExecutedAboveHead _ _) = ''I4''"
| "relation_of (ExecutedOffChain _ _ _) = ''I5''"
| "relation_of (CanonicalAboveHead _ _ _) = ''I6''"
| "relation_of (StateRootMissing _ _) = ''I7''"
| "relation_of (HeadNotCanonical _ _ _) = ''I8''"
| "relation_of (StoreUnreadable _) = ''??''"

fun violation_at :: "violation \<Rightarrow> u64 option" where
  "violation_at (NoCanonicalEntry n) = Some n"
| "violation_at (CanonicalHeaderMissing n _) = Some n"
| "violation_at (ParentOffChain n _ _) = Some n"
| "violation_at (ExecutedAboveHead n _) = Some n"
| "violation_at (ExecutedOffChain n _ _) = Some n"
| "violation_at (CanonicalAboveHead n _ _) = Some n"
| "violation_at (StateRootMissing n _) = Some n"
| "violation_at (HeadNotCanonical n _ _) = Some n"
| "violation_at (StoreUnreadable _) = None"

definition derive_cursor :: "block_store \<Rightarrow> violation + cursor option" where
  "derive_cursor s =
     (case bs_head s of
        None \<Rightarrow> Inr None
      | Some head_hash \<Rightarrow>
          (case get_header s head_hash of
             None \<Rightarrow> Inl (CanonicalHeaderMissing u64_max head_hash)
           | Some hdr \<Rightarrow>
               let (exec_hash, root) = (case bs_exec_head s of Some p \<Rightarrow> p | None \<Rightarrow> (head_hash, ZERO_HASH))
               in case get_header s exec_hash of
                    None \<Rightarrow> Inl (CanonicalHeaderMissing u64_max exec_hash)
                  | Some eh \<Rightarrow>
                      Inr (Some \<lparr> validated_head = mk_ref (hd_number hdr) head_hash,
                                  executed = mk_ref (hd_number eh) exec_hash,
                                  cur_state_root = root \<rparr>)))"

text \<open>Relations I1 to I3 at one height.\<close>

definition check_height :: "(header \<Rightarrow> b256) \<Rightarrow> block_store \<Rightarrow> u64 \<Rightarrow> u64 \<Rightarrow> violation option" where
  "check_height hh s floor h =
     (case canonical_hash hh s h of
        None \<Rightarrow> Some (NoCanonicalEntry h)
      | Some c \<Rightarrow>
          (case get_header s c of
             None \<Rightarrow> Some (CanonicalHeaderMissing h c)
           | Some hdr \<Rightarrow>
               if floor < h \<and> 0 < h then
                 (case canonical_hash hh s (h - 1) of
                    None \<Rightarrow> Some (NoCanonicalEntry (h - 1))
                  | Some below \<Rightarrow>
                      if parent_hash hdr \<noteq> below then Some (ParentOffChain h (parent_hash hdr) below) else None)
               else None))"

fun check_heights :: "(header \<Rightarrow> b256) \<Rightarrow> block_store \<Rightarrow> u64 \<Rightarrow> u64 list \<Rightarrow> violation option" where
  "check_heights hh s floor [] = None"
| "check_heights hh s floor (h # hs) =
     (case check_height hh s floor h of Some v \<Rightarrow> Some v | None \<Rightarrow> check_heights hh s floor hs)"

definition check_with_cursor ::
  "(header \<Rightarrow> b256) \<Rightarrow> block_store \<Rightarrow> (bytes \<Rightarrow> bytes option) option \<Rightarrow> scope \<Rightarrow> cursor \<Rightarrow> violation option" where
  "check_with_cursor hh s trie sc c =
     (let floor = prune_floor_number s;
          head = br_number (validated_head c);
          ex = executed c
      in case check_heights hh s floor (heights sc floor head) of
           Some v \<Rightarrow> Some v
         | None \<Rightarrow>
             if head < br_number ex then Some (ExecutedAboveHead (br_number ex) head)
             else if floor \<le> br_number ex \<and> canonical_hash hh s (br_number ex) \<noteq> Some (br_hash ex)
             then Some (ExecutedOffChain (br_number ex) (br_hash ex) (canonical_hash hh s (br_number ex)))
             else case canonical_hash hh s (head + 1) of
                    Some h \<Rightarrow> Some (CanonicalAboveHead (head + 1) h head)
                  | None \<Rightarrow>
                      if floor \<le> head \<and> canonical_hash hh s head \<noteq> Some (br_hash (validated_head c))
                      then Some (HeadNotCanonical head (br_hash (validated_head c)) (canonical_hash hh s head))
                      else case trie of
                             None \<Rightarrow> None
                           | Some get \<Rightarrow>
                               if cur_state_root c \<noteq> ZERO_HASH \<and> get (cur_state_root c) = None
                               then Some (StateRootMissing (br_number ex) (cur_state_root c))
                               else None)"

definition check ::
  "(header \<Rightarrow> b256) \<Rightarrow> block_store \<Rightarrow> (bytes \<Rightarrow> bytes option) option \<Rightarrow> scope \<Rightarrow> violation option" where
  "check hh s trie sc =
     (case derive_cursor s of
        Inl v \<Rightarrow> Some v
      | Inr None \<Rightarrow> None
      | Inr (Some c) \<Rightarrow> check_with_cursor hh s trie sc c)"

subsection \<open>The invariant\<close>

text \<open>
  Every canonical entry at or above the floor names a held header of that height whose parent is
  the entry below, the head is the highest entry, and execution is on the chain and not above it.
\<close>

definition linked :: "block_store \<Rightarrow> (u64 \<Rightarrow> b256 option) \<Rightarrow> u64 \<Rightarrow> bool" where
  "linked s idx n =
     (\<exists>h b. idx n = Some h \<and> bs_headers s h = Some b \<and> hd_number b = n
        \<and> (prune_floor_number s < n \<longrightarrow> idx (n - 1) = Some (parent_hash b)))"

definition index_linked :: "block_store \<Rightarrow> bool" where
  "index_linked s = (\<forall>n. prune_floor_number s \<le> n \<longrightarrow> bs_numbers s n \<noteq> None \<longrightarrow> linked s (bs_numbers s) n)"

definition index_placed :: "block_store \<Rightarrow> bool" where
  "index_placed s =
     (\<forall>n h b. bs_numbers s n = Some h \<longrightarrow> bs_headers s h = Some b \<longrightarrow> hd_number b = n)"

definition exec_on_chain :: "block_store \<Rightarrow> u64 \<Rightarrow> bool" where
  "exec_on_chain s tp =
     (case bs_exec_head s of
        None \<Rightarrow> True
      | Some (e, root) \<Rightarrow>
          \<exists>b. bs_headers s e = Some b \<and> hd_number b \<le> tp
            \<and> (prune_floor_number s \<le> hd_number b \<longrightarrow> bs_numbers s (hd_number b) = Some e))"

definition head_on_top :: "block_store \<Rightarrow> bool" where
  "head_on_top s =
     (case bs_head s of
        None \<Rightarrow> bs_exec_head s = None \<and> bs_numbers s = Map.empty
      | Some h \<Rightarrow>
          \<exists>b. bs_headers s h = Some b \<and> prune_floor_number s \<le> hd_number b
            \<and> bs_numbers s (hd_number b) = Some h \<and> (\<forall>n > hd_number b. bs_numbers s n = None)
            \<and> exec_on_chain s (hd_number b))"

definition heights_bounded :: "block_store \<Rightarrow> bool" where
  "heights_bounded s = (\<forall>h b. bs_headers s h = Some b \<longrightarrow> hd_number b \<noteq> u64_max)"

definition coherent :: "block_store \<Rightarrow> bool" where
  "coherent s = (bs_freezer s = None \<and> heights_bounded s \<and> index_linked s \<and> index_placed s \<and> head_on_top s)"

lemma no_freezer [simp]:
  "bs_freezer s = None \<Longrightarrow> canonical_hash hh s n = bs_numbers s n"
  "bs_freezer s = None \<Longrightarrow> get_header s h = bs_headers s h"
  by (auto simp: canonical_hash_def get_header_def frozen_header_by_hash_def split: option.splits)

lemma coherentD:
  assumes "coherent s"
  shows "bs_freezer s = None" "heights_bounded s" "index_linked s" "index_placed s" "head_on_top s"
  using assms by (auto simp: coherent_def)

lemma u64_above_max: "\<not> u64_max < n"
  by (simp add: u64_max_def not_less)

subsection \<open>The walk of a proof\<close>

text \<open>
  The entries the walk adds: going down from the block, one per height; over the old index they
  make every height from the floor to the block linked.
\<close>

lemma unat_pred: "n \<noteq> 0 \<Longrightarrow> unat n = unat (n - 1) + 1" for n :: u64
  by (rule unat_succ) simp_all

lemma pred_less: "n \<noteq> 0 \<Longrightarrow> n - 1 < n" for n :: u64
  using unat_pred [of n] by (simp add: word_less_nat_alt)

lemma le_pred: "m < n \<Longrightarrow> m \<le> n - 1" for n :: u64
  using unat_pred [of n] by (cases "n = 0") (auto simp: word_less_nat_alt word_le_nat_alt)

lemma less_succ: "n \<noteq> u64_max \<Longrightarrow> n < n + 1" for n :: u64
  using pred_less [of "n + 1"] by (auto simp: u64_max_def add_eq_0_iff2)

lemma succ_le: "n < m \<Longrightarrow> n + 1 \<le> m" for n :: u64
  by (metis add_diff_cancel_right' le_pred not_less pred_less)

lemma unat_up: "n \<noteq> u64_max \<Longrightarrow> unat (n + 1) = unat n + 1" for n :: u64
  using unat_succ [OF refl, of n] by (auto simp: u64_max_def add_eq_0_iff2)

lemma linked_cong:
  assumes "idx n = idx' n" "prune_floor_number s < n \<Longrightarrow> idx (n - 1) = idx' (n - 1)"
  shows "linked s idx n = linked s idx' n"
  using assms by (auto simp: linked_def)

lemma index_linked_below:
  assumes "index_linked s" "bs_numbers s n \<noteq> None" "prune_floor_number s \<le> m" "m \<le> n"
  shows "linked s (bs_numbers s) m"
  using assms
proof (induction "unat n - unat m" arbitrary: n)
  case 0
  then have "m = n" by (simp add: word_le_nat_alt word_unat_eq_iff)
  with 0 show ?case by (auto simp: index_linked_def)
next
  case (Suc k)
  from Suc.hyps(2) have "m < n" by (simp add: word_less_nat_alt)
  then have "n \<noteq> 0" "m \<le> n - 1" "prune_floor_number s < n"
    using Suc.prems(3) by (auto intro: le_pred)
  moreover from Suc.prems have "linked s (bs_numbers s) n" by (auto simp: index_linked_def)
  ultimately have "bs_numbers s (n - 1) \<noteq> None" by (auto simp: linked_def)
  moreover have "k = unat (n - 1) - unat m"
    using Suc.hyps(2) unat_pred [OF \<open>n \<noteq> 0\<close>] by simp
  ultimately show ?case using Suc \<open>m \<le> n - 1\<close> by auto
qed

text \<open>What a walk that starts at a block of height \<open>n\<close> with hash \<open>h\<close> has found.\<close>

definition walk_found :: "block_store \<Rightarrow> u64 \<Rightarrow> b256 \<Rightarrow> (u64 \<times> b256) list \<Rightarrow> bool" where
  "walk_found s n h ext =
     ((\<forall>e \<in> set ext. prune_floor_number s \<le> fst e \<and> fst e \<le> n)
      \<and> sorted_wrt (\<lambda>x y. fst y < fst x) ext
      \<and> (bs_numbers s ++ map_of ext) n = Some h
      \<and> (\<forall>m. prune_floor_number s \<le> m \<longrightarrow> m \<le> n \<longrightarrow> linked s (bs_numbers s ++ map_of ext) m))"

lemma map_of_above: "(\<forall>e \<in> set ext. fst e \<le> n) \<Longrightarrow> n < m \<Longrightarrow> map_of ext m = None" for n m :: u64
  by (auto simp: map_of_eq_None_iff)

lemma walk_found_floor:
  assumes "bs_headers s h = Some b" "hd_number b = prune_floor_number s"
    "ext = (if bs_numbers s (hd_number b) = Some h then [] else [(hd_number b, h)])"
  shows "walk_found s (hd_number b) h ext"
proof -
  have "m = hd_number b" if "prune_floor_number s \<le> m" "m \<le> hd_number b" for m
    using that assms(2) by simp
  then show ?thesis using assms by (auto simp: walk_found_def linked_def)
qed

lemma walk_found_canonical:
  assumes "index_linked s" "bs_numbers s n = Some h"
  shows "walk_found s n h []"
  using assms index_linked_below [of s n] by (auto simp: walk_found_def)

lemma walk_found_step:
  assumes found: "walk_found s (n - 1) (parent_hash b) ext"
    and b: "bs_headers s h = Some b" "hd_number b = n" and n: "prune_floor_number s < n"
    and e0: "e0 = (if bs_numbers s n = Some h then [] else [(n, h)])"
  shows "walk_found s n h (e0 @ ext)"
proof -
  let ?new = "bs_numbers s ++ map_of (e0 @ ext)" and ?old = "bs_numbers s ++ map_of ext"
  have "n \<noteq> 0" using n by auto
  then have pred: "n - 1 < n" by (rule pred_less)
  have bound: "\<forall>e \<in> set ext. prune_floor_number s \<le> fst e \<and> fst e \<le> n - 1"
    using found by (simp add: walk_found_def)
  have below: "?new m = ?old m" if "m < n" for m
    using that e0 by (auto simp: map_add_def)
  have "map_of ext n = None" using bound pred by (intro map_of_above [of _ "n - 1"]) auto
  then have at: "?new n = Some h" using e0 by (auto simp: map_add_def)
  have par: "?new (n - 1) = Some (parent_hash b)"
    using found below [OF pred] by (simp add: walk_found_def)
  have "linked s ?new m" if m: "prune_floor_number s \<le> m" "m \<le> n" for m
  proof (cases "m = n")
    case True
    with at par b show ?thesis by (auto simp: linked_def)
  next
    case False
    with m have "m < n" by simp
    then have "linked s ?old m" using found m le_pred by (simp add: walk_found_def)
    moreover have "m - 1 < n" if "prune_floor_number s < m"
      using pred_less [of m] that \<open>m < n\<close> by (cases "m = 0") auto
    ultimately show ?thesis
      using below \<open>m < n\<close> by (subst linked_cong [of _ _ ?old]) auto
  qed
  moreover have "fst e < n" if "e \<in> set ext" for e
    using bound that pred by fastforce
  moreover have "sorted_wrt (\<lambda>x y. fst y < fst x) ext" using found by (simp add: walk_found_def)
  moreover have "\<forall>e \<in> set (e0 @ ext). prune_floor_number s \<le> fst e \<and> fst e \<le> n"
    using bound n pred e0 by (auto intro: order.trans [OF _ order.strict_implies_order [OF pred]])
  ultimately show ?thesis
    using at by (simp add: walk_found_def e0)
qed

lemma prove_walk_found:
  assumes s: "bs_freezer s = None" "index_linked s"
  shows "prove_walk hh s (prune_floor_number s) h b acc = Inr acc' \<Longrightarrow> bs_headers s h = Some b
    \<Longrightarrow> prune_floor_number s \<le> hd_number b
    \<Longrightarrow> \<exists>ext. acc' = acc @ ext \<and> walk_found s (hd_number b) h ext"
proof (induction "unat (hd_number b)" arbitrary: h b acc rule: less_induct)
  case less
  define n fl where "n = hd_number b" and "fl = prune_floor_number s"
  define e0 where "e0 = (if bs_numbers s n = Some h then [] else [(n, h)])"
  have walk: "prove_walk hh s fl h b acc = Inr acc'" using less.prems by (simp add: fl_def)
  have e0_acc: "(if \<not> bs_numbers s n = Some h then acc @ [(n, h)] else acc) = acc @ e0"
    by (simp add: e0_def)
  show ?case
  proof (cases "n = 0 \<or> n \<le> fl")
    case True
    then have "n = fl" using less.prems(3) by (auto simp: n_def fl_def)
    moreover have "acc' = acc @ e0"
      using walk True s(1) by (simp add: prove_walk.simps Let_def n_def e0_def split: if_splits)
    ultimately show ?thesis
      using walk_found_floor [OF less.prems(2)] by (auto simp: n_def fl_def e0_def)
  next
    case high: False
    then have n0: "n \<noteq> 0" and fl: "fl < n" by auto
    then have nfl: "\<not> n - 1 < fl" using le_pred [OF fl] by simp
    show ?thesis
    proof (cases "bs_numbers s n = Some h \<and> bs_numbers s (n - 1) = Some (parent_hash b)")
      case True
      then have "acc' = acc @ []"
        using walk high nfl s(1) by (simp add: prove_walk.simps Let_def n_def)
      then show ?thesis using walk_found_canonical [OF s(2)] True by (auto simp: n_def)
    next
      case False
      then obtain p where p: "bs_headers s (parent_hash b) = Some p" "hd_number p + 1 = n"
        and rec: "prove_walk hh s fl (parent_hash b) p (acc @ e0) = Inr acc'"
        using walk high nfl s(1)
        by (auto simp: prove_walk.simps [of hh s fl h b] Let_def n_def e0_def
            split: option.splits if_splits)
      have "hd_number p = n - 1" using p(2) by (simp add: eq_diff_eq)
      moreover have "unat (hd_number p) < unat (hd_number b)"
        using unat_succ [OF p(2) n0] by (simp add: n_def)
      moreover have "fl \<le> hd_number p" using le_pred [OF fl] p by auto
      ultimately obtain ext where "acc' = (acc @ e0) @ ext" "walk_found s (n - 1) (parent_hash b) ext"
        using less.hyps [of p "parent_hash b" "acc @ e0"] p rec by (auto simp: fl_def)
      then show ?thesis
        using walk_found_step [OF _ less.prems(2) _ _ e0_def] fl by (fastforce simp: n_def fl_def)
    qed
  qed
qed

subsection \<open>Dropping the entries above the tip\<close>

lemma drop_loop_spec:
  assumes s: "bs_freezer s = None" and T: "T \<noteq> u64_max" "\<forall>m > T. bs_numbers s m = None"
  shows "drop_loop hh s n d acc = (d', acc') \<Longrightarrow> \<forall>m. n \<le> m \<longrightarrow> m \<le> T \<longrightarrow> bs_numbers s m \<noteq> None
    \<Longrightarrow> \<exists>ns. acc' = acc @ ns \<and> (\<forall>m \<in> set ns. n \<le> m)
        \<and> (d' < MAX_DROP \<longrightarrow> (\<forall>m \<ge> n. m \<in> set ns \<or> bs_numbers s m = None))
        \<and> (unat T + 1 - unat n + d < MAX_DROP \<longrightarrow> d' < MAX_DROP)"
proof (induction "MAX_DROP - d" arbitrary: n d acc rule: less_induct)
  case less
  show ?case
  proof (cases "d < MAX_DROP \<and> bs_numbers s n \<noteq> None")
    case True
    then have "\<not> T < n" using T(2) by auto
    then have "n \<le> T" by simp
    then have "n \<noteq> u64_max" using T(1) u64_above_max [of T] by (auto simp: order.order_iff_strict)
    then have up: "n < n + 1" by (rule less_succ)
    then have ge: "m = n \<or> n + 1 \<le> m" if "n \<le> m" for m
      using that succ_le [of n m] by (cases "m = n") auto
    have un: "unat (n + 1) = unat n + 1" by (rule unat_up) fact
    from True less.prems(1) s have "drop_loop hh s (n + 1) (d + 1) (acc @ [n]) = (d', acc')"
      by (auto simp: drop_loop.simps [of hh s n])
    moreover have "\<forall>m. n + 1 \<le> m \<longrightarrow> m \<le> T \<longrightarrow> bs_numbers s m \<noteq> None"
      using less.prems(2) up by (metis order.strict_trans2 order.strict_implies_order)
    moreover have "MAX_DROP - (d + 1) < MAX_DROP - d"
      using True [THEN conjunct1] by (rule diff_less_mono2 [OF less_add_one])
    ultimately obtain ns where ns: "acc' = (acc @ [n]) @ ns" "\<forall>m \<in> set ns. n + 1 \<le> m"
      "d' < MAX_DROP \<longrightarrow> (\<forall>m \<ge> n + 1. m \<in> set ns \<or> bs_numbers s m = None)"
      "unat T + 1 - unat (n + 1) + (d + 1) < MAX_DROP \<longrightarrow> d' < MAX_DROP"
      using less.hyps [of "d + 1" "n + 1" "acc @ [n]"] by blast
    have "unat T + 1 - unat (n + 1) + (d + 1) = unat T + 1 - unat n + d"
      using un \<open>n \<le> T\<close> by (simp add: word_le_nat_alt)
    moreover have "d' < MAX_DROP \<longrightarrow> (\<forall>m \<ge> n. m \<in> set (n # ns) \<or> bs_numbers s m = None)"
      using ns(3) ge by (metis list.set_intros)
    moreover have "\<forall>m \<in> set (n # ns). n \<le> m" using ns(2) up by auto
    ultimately have "acc' = acc @ (n # ns) \<and> (\<forall>m \<in> set (n # ns). n \<le> m)
        \<and> (d' < MAX_DROP \<longrightarrow> (\<forall>m \<ge> n. m \<in> set (n # ns) \<or> bs_numbers s m = None))
        \<and> (unat T + 1 - unat n + d < MAX_DROP \<longrightarrow> d' < MAX_DROP)"
      using ns(1,4) by simp
    then show ?thesis by blast
  next
    case False
    then have "d' = d" "acc' = acc"
      using less.prems(1) s by (auto simp: drop_loop.simps [of hh s n] split: if_splits)
    moreover have "bs_numbers s m = None" if "d < MAX_DROP" "n \<le> m" for m
    proof -
      from that False have "bs_numbers s n = None" by simp
      then have "T < n" using less.prems(2) not_less by blast
      then show ?thesis using that T(2) by (meson order.strict_trans2)
    qed
    ultimately show ?thesis by auto
  qed
qed

text \<open>The top of the index seen from a tip: everything between is present, nothing is above.\<close>

lemma index_top:
  assumes "coherent s" "prune_floor_number s \<le> tp" "tp \<noteq> u64_max"
  obtains T where "tp \<le> T" "T \<noteq> u64_max" "\<forall>m > T. bs_numbers s m = None"
    "\<forall>m. tp < m \<longrightarrow> m \<le> T \<longrightarrow> bs_numbers s m \<noteq> None"
    "T = tp \<or> (\<exists>h b. bs_head s = Some h \<and> bs_headers s h = Some b \<and> T = hd_number b)"
proof (cases "bs_head s")
  case None
  then have "bs_numbers s = Map.empty" using coherentD(5) [OF assms(1)] by (simp add: head_on_top_def)
  then show ?thesis using assms that [of tp] by (auto simp: not_le)
next
  case (Some h)
  then obtain b where b: "bs_headers s h = Some b" "bs_numbers s (hd_number b) = Some h"
    "\<forall>n > hd_number b. bs_numbers s n = None"
    using coherentD(5) [OF assms(1)] by (auto simp: head_on_top_def)
  show ?thesis
  proof (cases "tp \<le> hd_number b")
    case True
    have "bs_numbers s m \<noteq> None" if "tp < m" "m \<le> hd_number b" for m
      using index_linked_below [OF coherentD(3) [OF assms(1)], of "hd_number b" m] that assms(2) b
      by (auto simp: linked_def dest: order.strict_implies_order intro: order.trans)
    then show ?thesis
      using that [of "hd_number b"] True b Some coherentD(2) [OF assms(1)] by (auto simp: heights_bounded_def)
  next
    case False
    then show ?thesis using that [of tp] b(3) assms(3) by (auto simp: not_le)
  qed
qed

lemma stage_drop_above_spec:
  assumes c: "coherent s" "prune_floor_number s \<le> tp" "tp \<noteq> u64_max"
    and ops: "stage_drop_above hh s tp = Inr ops"
  obtains ns where "ops = map DeleteNumber ns" "\<forall>m \<in> set ns. tp < m"
    "\<forall>m > tp. m \<in> set ns \<or> bs_numbers s m = None"
proof -
  obtain T where T: "tp \<le> T" "T \<noteq> u64_max" "\<forall>m > T. bs_numbers s m = None"
    "\<forall>m. tp < m \<longrightarrow> m \<le> T \<longrightarrow> bs_numbers s m \<noteq> None"
    using index_top [OF c] by metis
  have up: "tp < tp + 1" by (rule less_succ [OF c(3)])
  obtain d ns where dl: "drop_loop hh s (tp + 1) 0 [] = (d, ns)" by fastforce
  from ops dl have "d < MAX_DROP" "ops = map DeleteNumber ns"
    by (auto simp: stage_drop_above_def split: if_splits)
  moreover have "\<forall>m. tp + 1 \<le> m \<longrightarrow> m \<le> T \<longrightarrow> bs_numbers s m \<noteq> None"
    using T(4) up by (meson order.strict_trans2)
  ultimately have "\<forall>m \<in> set ns. tp + 1 \<le> m" "\<forall>m \<ge> tp + 1. m \<in> set ns \<or> bs_numbers s m = None"
    using drop_loop_spec [OF coherentD(1) [OF c(1)] T(2,3) dl] by auto
  then show thesis
    using that [of ns] up \<open>ops = _\<close> by (meson succ_le order.strict_trans2)
qed

lemma stage_drop_above_total:
  assumes c: "coherent s" "prune_floor_number s \<le> tp" "tp \<noteq> u64_max"
    and short: "\<And>h b. bs_head s = Some h \<Longrightarrow> bs_headers s h = Some b \<Longrightarrow> unat (hd_number b) < unat tp + MAX_DROP"
  shows "\<exists>ops. stage_drop_above hh s tp = Inr ops"
proof -
  obtain T where T: "tp \<le> T" "T \<noteq> u64_max" "\<forall>m > T. bs_numbers s m = None"
    "\<forall>m. tp < m \<longrightarrow> m \<le> T \<longrightarrow> bs_numbers s m \<noteq> None"
    "T = tp \<or> (\<exists>h b. bs_head s = Some h \<and> bs_headers s h = Some b \<and> T = hd_number b)"
    using index_top [OF c] by metis
  have up: "tp < tp + 1" by (rule less_succ [OF c(3)])
  have "unat (tp + 1) = unat tp + 1" by (rule unat_up [OF c(3)])
  moreover have "unat T < unat tp + MAX_DROP" using T(5) short by (auto simp: MAX_DROP_def)
  moreover obtain d ns where dl: "drop_loop hh s (tp + 1) 0 [] = (d, ns)" by fastforce
  moreover have "\<forall>m. tp + 1 \<le> m \<longrightarrow> m \<le> T \<longrightarrow> bs_numbers s m \<noteq> None"
    using T(4) up by (meson order.strict_trans2)
  ultimately have "d < MAX_DROP"
    using drop_loop_spec [OF coherentD(1) [OF c(1)] T(2,3) dl] by (auto simp: MAX_DROP_def)
  then show ?thesis using dl by (simp add: stage_drop_above_def)
qed

subsection \<open>Moving the head\<close>

lemma lineage_at_map_of: "lineage_at xs n = map_of xs n"
  by (induction xs) (auto simp: lineage_at_def)

lemma map_of_rev_descending:
  "sorted_wrt (\<lambda>x y. fst y < fst x) xs \<Longrightarrow> map_of (rev xs) = map_of xs" for xs :: "(u64 \<times> b256) list"
proof (induction xs)
  case (Cons x xs)
  then have "map_of xs (fst x) = None" by (fastforce simp: map_of_eq_None_iff)
  with Cons show ?case by (cases x) (auto simp: fun_eq_iff map_add_def split: option.splits)
qed simp

lemma or_else_lineage:
  "sorted_wrt (\<lambda>x y. fst y < fst x) ext \<Longrightarrow>
     or_else (lineage_at (rev ext) n) (bs_numbers s n) = (bs_numbers s ++ map_of ext) n"
  by (simp add: lineage_at_map_of map_of_rev_descending or_else_def map_add_def split: option.splits)

text \<open>The cursor of a coherent store is always readable.\<close>

lemma read_cursor_coherent:
  assumes "coherent s" "bs_head s = Some h"
  obtains b e eb root where "bs_headers s h = Some b" "bs_headers s e = Some eb"
    "read_cursor s = Inr (Some \<lparr> validated_head = mk_ref (hd_number b) h,
                               executed = mk_ref (hd_number eb) e, cur_state_root = root \<rparr>)"
    "(bs_exec_head s = None \<and> e = h \<and> root = ZERO_HASH) \<or> bs_exec_head s = Some (e, root)"
proof -
  obtain b where b: "bs_headers s h = Some b" "exec_on_chain s (hd_number b)"
    using coherentD(5) [OF assms(1)] assms(2) by (auto simp: head_on_top_def)
  note fr = coherentD(1) [OF assms(1)]
  show ?thesis
  proof (cases "bs_exec_head s")
    case None
    then show ?thesis
      using that [of b h b ZERO_HASH] b assms(2) fr by (simp add: read_cursor_def)
  next
    case (Some p)
    then obtain e root eb where "p = (e, root)" "bs_headers s e = Some eb"
      using b(2) by (auto simp: exec_on_chain_def)
    then show ?thesis
      using that [of b e eb root] b assms(2) fr Some by (simp add: read_cursor_def)
  qed
qed

text \<open>
  A successful stage of the execution cursor leaves it alone, when it is on the chain the batch
  will write, or puts it on that chain.
\<close>

lemma stage_execution_cases:
  assumes fr: "bs_freezer s = None" and desc: "sorted_wrt (\<lambda>x y. fst y < fst x) ext"
    and v: "v = \<lparr> tip = mk_ref tn h, lineage = rev ext \<rparr>"
    and ex: "executed c = mk_ref en eh"
    and st: "stage_execution_after_reorg hh s (Some c) v = Inr ops"
  shows "(ops = [] \<and> (bs_numbers s ++ map_of ext) en = Some eh \<and> en \<le> tn)
       \<or> (\<exists>th t m. ops = [PutExecHead th (state_root t)] \<and> (bs_numbers s ++ map_of ext) m = Some th
            \<and> m \<le> tn \<and> bs_headers s th = Some t)"
proof -
  have tipn: "br_number (tip v) = tn" "lineage v = rev ext"
    "br_number (executed c) = en" "br_hash (executed c) = eh" by (simp_all add: v ex mk_ref_def)
  define m where "m = (case rev ext of (n, _) # _ \<Rightarrow> min (saturating_sub n 1) tn | [] \<Rightarrow> tn)"
  define new where "new = bs_numbers s ++ map_of ext"
  have "m \<le> tn" by (auto simp: m_def split: list.splits)
  then show ?thesis
    using st unfolding stage_execution_after_reorg_def tipn no_freezer [OF fr] or_else_lineage [OF desc]
      m_def [symmetric] new_def [symmetric] option.case Let_def
    by (auto split: if_splits option.splits)
qed

text \<open>The store after the batch of a move.\<close>

definition moved :: "block_store \<Rightarrow> b256 \<Rightarrow> (u64 \<times> b256) list \<Rightarrow> u64 list \<Rightarrow> block_store" where
  "moved s h ext ns =
     s\<lparr> bs_numbers := (\<lambda>n. if n \<in> set ns then None else (bs_numbers s ++ map_of ext) n), bs_head := Some h \<rparr>"

lemma write_move:
  "write_batch (map (\<lambda>(n, h). PutNumber n h) (rev ext) @ map DeleteNumber ns @ [PutHead h] @ ops) s
     = write_batch ops (moved s h ext ns)"
proof -
  let ?ops = "map (\<lambda>(n, h). PutNumber n h) (rev ext) @ map DeleteNumber ns"
  have idx: "bs_numbers (write_batch ?ops s)
      = (\<lambda>n. if n \<in> set ns then None else (bs_numbers s ++ map_of ext) n)"
    unfolding write_batch_append delete_numbers put_numbers by (simp cong: if_cong)
  have "list_all number_op ?ops" by simp
  from write_numbers [OF this, of s, unfolded idx]
  show ?thesis
    unfolding write_batch_append append_assoc [symmetric] by (simp add: moved_def cong: if_cong)
qed

lemma linked_same:
  "bs_headers s' = bs_headers s \<Longrightarrow> bs_prune_floor s' = bs_prune_floor s \<Longrightarrow> linked s' idx n = linked s idx n"
  by (simp add: linked_def prune_floor_number_def)

lemma moved_simps [simp]:
  "bs_headers (moved s h ext ns) = bs_headers s" "bs_freezer (moved s h ext ns) = bs_freezer s"
  "bs_head (moved s h ext ns) = Some h" "bs_exec_head (moved s h ext ns) = bs_exec_head s"
  "bs_prune_floor (moved s h ext ns) = bs_prune_floor s"
  "prune_floor_number (moved s h ext ns) = prune_floor_number s"
  "bs_td (moved s h ext ns) = bs_td s"
  by (simp_all add: moved_def prune_floor_number_def)

lemma moved_index:
  assumes c: "coherent s" and found: "walk_found s tn h ext"
    and ns: "\<forall>m \<in> set ns. tn < m" "\<forall>m > tn. m \<in> set ns \<or> bs_numbers s m = None"
  shows moved_numbers_above: "tn < n \<Longrightarrow> bs_numbers (moved s h ext ns) n = None"
    and moved_numbers_upto: "n \<le> tn \<Longrightarrow> bs_numbers (moved s h ext ns) n = (bs_numbers s ++ map_of ext) n"
proof -
  have ext: "\<forall>e \<in> set ext. fst e \<le> tn" using found by (simp add: walk_found_def)
  show "bs_numbers (moved s h ext ns) n = None" if "tn < n"
    using that ns(2) map_of_above [OF ext that] by (auto simp: moved_def map_add_def)
  show "bs_numbers (moved s h ext ns) n = (bs_numbers s ++ map_of ext) n" if "n \<le> tn"
    using that ns(1) by (auto simp: moved_def)
qed

lemma moved_linked:
  assumes c: "coherent s" and found: "walk_found s tn h ext"
    and ns: "\<forall>m \<in> set ns. tn < m" "\<forall>m > tn. m \<in> set ns \<or> bs_numbers s m = None"
  shows "index_linked (moved s h ext ns)" "index_placed (moved s h ext ns)"
proof -
  let ?s = "moved s h ext ns" and ?new = "bs_numbers s ++ map_of ext"
  note up = moved_numbers_upto [OF c found ns] and above = moved_numbers_above [OF c found ns]
  have link: "linked ?s (bs_numbers ?s) n" if n: "prune_floor_number s \<le> n" "n \<le> tn" for n
  proof -
    have "linked s ?new n" using found n by (simp add: walk_found_def)
    moreover have "n - 1 \<le> tn" if "prune_floor_number s < n"
      using that n pred_less [of n] by (cases "n = 0") auto
    ultimately show ?thesis
      using up n by (simp add: linked_same [of ?s s] linked_cong [of "bs_numbers ?s" n ?new])
  qed
  then show linked: "index_linked ?s"
    using above by (fastforce simp: index_linked_def not_le)
  have "hd_number b = n" if "bs_numbers ?s n = Some k" "bs_headers s k = Some b" for n k b
  proof (cases "prune_floor_number s \<le> n")
    case True
    then show ?thesis using linked that by (fastforce simp: index_linked_def linked_def)
  next
    case False
    then have "map_of ext n = None"
      using found by (fastforce simp: walk_found_def map_of_eq_None_iff)
    moreover have "n \<le> tn" using above that(1) by (metis not_le option.distinct(1))
    ultimately have "bs_numbers s n = Some k" using up that(1) by (simp add: map_add_def)
    then show ?thesis using coherentD(4) [OF c] that(2) by (simp add: index_placed_def)
  qed
  then show "index_placed ?s" by (simp add: index_placed_def)
qed

end
