(* ===== verification/Coherence_Steps.thy ===== *)
theory Coherence_Steps
  imports Coherence
begin

text \<open>
  Every transition of \<open>crates/storage/src/position.rs\<close> keeps the invariant of \<open>Coherence\<close>, every
  store reached by storing headers and moving the position is coherent, and a coherent store
  passes the check of \<open>crates/sync/src/invariant.rs\<close>.
\<close>

subsection \<open>Moves\<close>

lemma prove_tip:
  "prove hh s h = Inr v \<Longrightarrow> bs_freezer s = None
     \<Longrightarrow> \<exists>b. bs_headers s h = Some b \<and> tip v = mk_ref (hd_number b) h"
  by (auto simp: prove_def split: option.splits sum.splits)

lemma proveE:
  assumes "coherent s" "prove hh s h = Inr v" "prune_floor_number s \<le> br_number (tip v)"
  obtains b ext where "bs_headers s h = Some b" "v = \<lparr> tip = mk_ref (hd_number b) h, lineage = rev ext \<rparr>"
    "walk_found s (hd_number b) h ext" "hd_number b \<noteq> u64_max"
proof -
  note fr = coherentD(1) [OF assms(1)]
  from assms(2) fr obtain b acc where b: "bs_headers s h = Some b"
    "prove_walk hh s (prune_floor_number s) h b [] = Inr acc"
    "v = \<lparr> tip = mk_ref (hd_number b) h, lineage = rev acc \<rparr>"
    by (auto simp: prove_def split: option.splits sum.splits)
  moreover from b(3) assms(3) have "prune_floor_number s \<le> hd_number b" by (simp add: mk_ref_def)
  ultimately have "walk_found s (hd_number b) h acc"
    using prove_walk_found [OF fr coherentD(3) [OF assms(1)] b(2,1)] by auto
  then show ?thesis
    using that b coherentD(2) [OF assms(1)] by (auto simp: heights_bounded_def)
qed

lemma coherent_exec_update:
  "coherent (s\<lparr> bs_exec_head := x \<rparr>) =
     (bs_freezer s = None \<and> heights_bounded s \<and> index_linked s \<and> index_placed s
      \<and> head_on_top (s\<lparr> bs_exec_head := x \<rparr>))"
  by (simp add: coherent_def heights_bounded_def index_linked_def index_placed_def linked_def prune_floor_number_def)

lemma head_on_top_exec:
  assumes "bs_head s = Some h" "bs_headers s h = Some b" "prune_floor_number s \<le> hd_number b"
    "bs_numbers s (hd_number b) = Some h" "\<forall>n > hd_number b. bs_numbers s n = None"
    "bs_headers s e = Some eb" "hd_number eb \<le> hd_number b" "bs_numbers s (hd_number eb) = Some e"
  shows "head_on_top (s\<lparr> bs_exec_head := Some (e, root) \<rparr>)"
  using assms by (simp add: head_on_top_def exec_on_chain_def prune_floor_number_def)

text \<open>The stage of the execution cursor on the moved store.\<close>

lemma stage_execution_coherent:
  assumes c: "coherent s" and h: "bs_headers s h = Some b"
    and v: "v = \<lparr> tip = mk_ref (hd_number b) h, lineage = rev ext \<rparr>" "walk_found s (hd_number b) h ext"
    and fl: "prune_floor_number s \<le> hd_number b"
    and ns: "\<forall>m \<in> set ns. hd_number b < m" "\<forall>m > hd_number b. m \<in> set ns \<or> bs_numbers s m = None"
    and before: "read_cursor s = Inr before" and st: "stage_execution_after_reorg hh s before v = Inr ops"
  shows "coherent (write_batch ops (moved s h ext ns)) \<and> (ops = [] \<or> (\<exists>x r. ops = [PutExecHead x r]))"
proof -
  let ?s = "moved s h ext ns" and ?tn = "hd_number b"
  note fr = coherentD(1) [OF c]
  note above = moved_numbers_above [OF c v(2) ns] and upto = moved_numbers_upto [OF c v(2) ns]
  note inv = moved_linked [OF c v(2) ns]
  have hb: "heights_bounded ?s" using coherentD(2) [OF c] by (simp add: heights_bounded_def)
  have at: "bs_numbers ?s ?tn = Some h" using upto v(2) by (simp add: walk_found_def)
  have top: "head_on_top (?s\<lparr> bs_exec_head := Some (x, root) \<rparr>)"
    if "bs_headers s x = Some xb" "hd_number xb \<le> ?tn" "bs_numbers ?s (hd_number xb) = Some x" for x xb root
    using that h fl at above by (intro head_on_top_exec [of _ h b _ xb]) auto
  have stay: "coherent ?s" if "bs_exec_head s = None \<or> head_on_top (?s\<lparr> bs_exec_head := bs_exec_head s \<rparr>)"
  proof -
    have "?s\<lparr> bs_exec_head := bs_exec_head s \<rparr> = ?s" by (simp add: moved_def)
    with that show ?thesis
      using inv hb fr at above fl h by (auto simp: coherent_def head_on_top_def exec_on_chain_def)
  qed
  show ?thesis
  proof (cases "bs_head s")
    case None
    then have "bs_exec_head s = None" "before = None"
      using coherentD(5) [OF c] before by (auto simp: head_on_top_def read_cursor_def)
    moreover from this st have "ops = []" by (simp add: stage_execution_after_reorg_def)
    ultimately show ?thesis using stay by simp
  next
    case (Some h0)
    obtain cu x xb root where cur: "bs_headers s x = Some xb" "read_cursor s = Inr (Some cu)"
      "executed cu = mk_ref (hd_number xb) x"
      "(bs_exec_head s = None \<and> x = h0 \<and> root = ZERO_HASH) \<or> bs_exec_head s = Some (x, root)"
      by (rule read_cursor_coherent [OF c Some]) auto
    with before st have st': "stage_execution_after_reorg hh s (Some cu) v = Inr ops" by simp
    have "sorted_wrt (\<lambda>x y. fst y < fst x) ext" using v(2) by (simp add: walk_found_def)
    from stage_execution_cases [OF fr this v(1) cur(3) st'] show ?thesis
    proof (elim disjE exE conjE)
      assume "ops = []" "(bs_numbers s ++ map_of ext) (hd_number xb) = Some x" "hd_number xb \<le> ?tn"
      then show ?thesis using stay top [OF cur(1)] cur(4) upto by auto
    next
      fix th t m
      assume ops: "ops = [PutExecHead th (state_root t)]" and th: "(bs_numbers s ++ map_of ext) m = Some th"
        "m \<le> ?tn" "bs_headers s th = Some t"
      then have "bs_numbers ?s m = Some th" using upto by simp
      moreover from this th(3) inv(2) have "hd_number t = m" by (simp add: index_placed_def)
      ultimately have "head_on_top (?s\<lparr> bs_exec_head := Some (th, state_root t) \<rparr>)"
        using top [of th t] th by simp
      then show ?thesis using ops inv hb fr by (simp add: coherent_exec_update)
    qed
  qed
qed

lemma stage_move_coherent:
  assumes c: "coherent s" and v: "prove hh s h = Inr v" "prune_floor_number s \<le> br_number (tip v)"
    and before: "read_cursor s = Inr before" and st: "stage_move hh s before v = Inr batch"
  shows "coherent (write_batch batch s) \<and> bs_head (write_batch batch s) = Some h
    \<and> bs_headers (write_batch batch s) = bs_headers s \<and> bs_prune_floor (write_batch batch s) = bs_prune_floor s"
proof -
  obtain b ext where b: "bs_headers s h = Some b" "v = \<lparr> tip = mk_ref (hd_number b) h, lineage = rev ext \<rparr>"
    "walk_found s (hd_number b) h ext" "hd_number b \<noteq> u64_max"
    using proveE [OF c v] .
  have fl: "prune_floor_number s \<le> hd_number b" using v(2) b(2) by (simp add: mk_ref_def)
  from st b(2) obtain drops ops where d: "stage_drop_above hh s (hd_number b) = Inr drops"
    and e: "stage_execution_after_reorg hh s before v = Inr ops"
    and batch: "batch = map (\<lambda>(n, h). PutNumber n h) (rev ext) @ drops @ [PutHead h] @ ops"
    by (auto simp: stage_move_def mk_ref_def split: sum.splits)
  from stage_drop_above_spec [OF c fl b(4) d] obtain ns where ns: "drops = map DeleteNumber ns"
    "\<forall>m \<in> set ns. hd_number b < m" "\<forall>m > hd_number b. m \<in> set ns \<or> bs_numbers s m = None" .
  have w: "write_batch batch s = write_batch ops (moved s h ext ns)"
    unfolding batch ns(1) by (rule write_move)
  from stage_execution_coherent [OF c b(1-3) fl ns(2,3) before e]
  show ?thesis unfolding w by auto
qed

lemma stage_executed_coherent:
  assumes c: "coherent s" and v: "prove hh s h = Inr v"
    and before: "read_cursor s = Inr before" and st: "stage_executed hh s before v root = Inr batch"
  shows "coherent (write_batch batch s) \<and> write_batch batch s = s\<lparr> bs_exec_head := Some (h, root) \<rparr>"
proof -
  note fr = coherentD(1) [OF c]
  from prove_tip [OF v fr] obtain b where b: "bs_headers s h = Some b" "tip v = mk_ref (hd_number b) h"
    by auto
  from st b(2) fr have can: "bs_numbers s (hd_number b) = Some h" and batch: "batch = [PutExecHead h root]"
    by (auto simp: stage_executed_def mk_ref_def split: if_splits option.splits)
  obtain h0 where h0: "bs_head s = Some h0"
    using can coherentD(5) [OF c] by (cases "bs_head s") (auto simp: head_on_top_def)
  then obtain b0 where b0: "bs_headers s h0 = Some b0" "prune_floor_number s \<le> hd_number b0"
    "bs_numbers s (hd_number b0) = Some h0" "\<forall>n > hd_number b0. bs_numbers s n = None"
    using coherentD(5) [OF c] by (auto simp: head_on_top_def)
  then have "hd_number b \<le> hd_number b0" using can by (metis not_le option.distinct(1))
  then have "head_on_top (s\<lparr> bs_exec_head := Some (h, root) \<rparr>)"
    using head_on_top_exec [OF h0 b0 b(1) _ can] by simp
  then show ?thesis using coherentD [OF c] batch by (simp add: coherent_exec_update)
qed

text \<open>Reading the cursor of a coherent store with a head gives one that passes the local check.\<close>

lemma coherent_cursor:
  assumes c: "coherent s" and h: "bs_head s = Some h"
  shows "\<exists>b cu. read_cursor s = Inr (Some cu) \<and> bs_headers s h = Some b
    \<and> validated_head cu = mk_ref (hd_number b) h \<and> verify_local_coherence hh s cu = None"
proof -
  obtain b x xb root where cur: "bs_headers s h = Some b" "bs_headers s x = Some xb"
    "read_cursor s = Inr (Some \<lparr> validated_head = mk_ref (hd_number b) h,
                               executed = mk_ref (hd_number xb) x, cur_state_root = root \<rparr>)"
    "(bs_exec_head s = None \<and> x = h \<and> root = ZERO_HASH) \<or> bs_exec_head s = Some (x, root)"
    by (rule read_cursor_coherent [OF c h]) blast
  have on: "bs_numbers s (hd_number b) = Some h" "\<forall>n > hd_number b. bs_numbers s n = None"
    "exec_on_chain s (hd_number b)"
    using coherentD(5) [OF c] h cur(1) by (auto simp: head_on_top_def)
  have "hd_number b \<noteq> u64_max" using coherentD(2) [OF c] cur(1) by (auto simp: heights_bounded_def)
  then have "bs_numbers s (hd_number b + 1) = None" using on(2) less_succ by blast
  moreover have "hd_number xb \<le> hd_number b"
    using on(3) cur by (auto simp: exec_on_chain_def)
  ultimately show ?thesis
    using cur coherentD(1) [OF c] on(1) by (auto simp: verify_local_coherence_def mk_ref_def Let_def)
qed

fun transition_of :: "transition \<Rightarrow> validated" where
  "transition_of (Adopt v) = v"
| "transition_of (Retreat v) = v"
| "transition_of (Executed v root) = v"

lemma apply_transition_cases:
  assumes c: "coherent s" and v: "prove hh s h = Inr (transition_of tr)"
    and fl: "prune_floor_number s \<le> br_number (tip (transition_of tr))"
  shows "(\<exists>e. apply_transition hh s tr = (Inl e, s))
    \<or> (\<exists>cu s'. apply_transition hh s tr = (Inr cu, s') \<and> coherent s' \<and> read_cursor s' = Inr (Some cu)
         \<and> bs_headers s' = bs_headers s \<and> bs_prune_floor s' = bs_prune_floor s
         \<and> verify_local_coherence hh s' cu = None
         \<and> ((\<exists>root. tr = Executed (transition_of tr) root) \<or> validated_head cu = tip (transition_of tr)))"
proof -
  obtain before where before: "read_cursor s = Inr before"
    using coherent_cursor [OF c] by (cases "bs_head s") (auto simp: read_cursor_def)
  define st where "st = (case tr of
      Adopt v \<Rightarrow> stage_move hh s before v | Retreat v \<Rightarrow> stage_move hh s before v
    | Executed v root \<Rightarrow> stage_executed hh s before v root)"
  show ?thesis
  proof (cases st)
    case (Inl e)
    then show ?thesis using before by (auto simp: apply_transition_def st_def)
  next
    case (Inr batch)
    let ?s = "write_batch batch s"
    have s': "coherent ?s \<and> bs_headers ?s = bs_headers s \<and> bs_prune_floor ?s = bs_prune_floor s
        \<and> (bs_head ?s = Some h \<or> (\<exists>root. tr = Executed (transition_of tr) root) \<and> bs_head ?s = bs_head s \<and> bs_head s \<noteq> None)"
    proof (cases tr)
      case (Executed w root)
      then have ex: "stage_executed hh s before w root = Inr batch" using Inr by (simp add: st_def)
      then have "bs_numbers s \<noteq> Map.empty"
        using coherentD(1) [OF c] by (auto simp: stage_executed_def split: if_splits)
      then have "bs_head s \<noteq> None" using coherentD(5) [OF c] by (auto simp: head_on_top_def)
      moreover have "coherent ?s" "?s = s\<lparr> bs_exec_head := Some (h, root) \<rparr>"
        using stage_executed_coherent [OF c _ before ex, of h] v Executed by auto
      ultimately show ?thesis using Executed by simp
    qed (use Inr stage_move_coherent [OF c _ _ before] v fl in \<open>auto simp: st_def\<close>)
    then obtain h' b cu where h': "bs_head ?s = Some h'" "read_cursor ?s = Inr (Some cu)" "bs_headers ?s h' = Some b"
      "validated_head cu = mk_ref (hd_number b) h'" "verify_local_coherence hh ?s cu = None"
      using coherent_cursor [of ?s _ hh] by (metis option.exhaust)
    moreover have "tip (transition_of tr) = mk_ref (hd_number b) h" if "h' = h"
      using prove_tip [OF v coherentD(1) [OF c]] that h'(3) s' by simp
    moreover have "apply_transition hh s tr = (Inr cu, ?s)"
      using before Inr h'(2) by (simp add: apply_transition_def st_def)
    ultimately show ?thesis using s' by auto
  qed
qed

text \<open>C15. A transition built from a block proved against the store keeps the store coherent: either
  it is refused and nothing is written, or it lands, the position it returns is the one the store
  now records, and the local check passes on it. An adopted or retreated-to block is then the
  validated head.\<close>

theorem apply_keeps_coherence:
  assumes "coherent s" "prove hh s h = Inr (transition_of tr)"
    "prune_floor_number s \<le> br_number (tip (transition_of tr))"
  shows "case apply_transition hh s tr of
      (Inl e, s') \<Rightarrow> s' = s
    | (Inr cu, s') \<Rightarrow> coherent s' \<and> read_cursor s' = Inr (Some cu) \<and> verify_local_coherence hh s' cu = None
        \<and> (\<forall>v. tr = Adopt v \<or> tr = Retreat v \<longrightarrow> validated_head cu = tip v)"
  using apply_transition_cases [OF assms] by (elim disjE exE conjE) auto

subsection \<open>Progress\<close>

lemma stage_execution_total:
  assumes fr: "bs_freezer s = None" and fl: "prune_floor_number s = 0"
    and v: "v = \<lparr> tip = mk_ref tn h, lineage = rev ext \<rparr>" "walk_found s tn h ext"
  shows "\<exists>ops. stage_execution_after_reorg hh s before v = Inr ops"
proof (cases before)
  case None
  then show ?thesis by (simp add: stage_execution_after_reorg_def)
next
  case (Some cu)
  have desc: "sorted_wrt (\<lambda>x y. fst y < fst x) ext" using v(2) by (simp add: walk_found_def)
  have tipn: "br_number (tip v) = tn" "lineage v = rev ext" by (simp_all add: v mk_ref_def)
  define m where "m = (case rev ext of (n, _) # _ \<Rightarrow> min (saturating_sub n 1) tn | [] \<Rightarrow> tn)"
  have "m \<le> tn" by (auto simp: m_def split: list.splits)
  then have "linked s (bs_numbers s ++ map_of ext) m" using v(2) fl by (simp add: walk_found_def)
  then obtain th t where "(bs_numbers s ++ map_of ext) m = Some th" "bs_headers s th = Some t"
    unfolding linked_def by (elim exE conjE)
  then show ?thesis
    unfolding Some stage_execution_after_reorg_def tipn no_freezer [OF fr] or_else_lineage [OF desc]
      m_def [symmetric] option.case Let_def
    by auto
qed

text \<open>C16. On an unpruned store a proved block can always be adopted, however the chain forks, as long
  as fewer than \<open>MAX_DROP\<close> canonical entries sit above it: the transition lands and the block is
  the head.\<close>

theorem adopt_lands:
  assumes c: "coherent s" and fl: "prune_floor_number s = 0" and v: "prove hh s h = Inr v"
    and short: "\<And>h0 b. bs_head s = Some h0 \<Longrightarrow> bs_headers s h0 = Some b
                  \<Longrightarrow> unat (hd_number b) < unat (br_number (tip v)) + MAX_DROP"
  shows "\<exists>cu s'. apply_transition hh s (Adopt v) = (Inr cu, s') \<and> validated_head cu = tip v"
proof -
  have fl': "prune_floor_number s \<le> br_number (tip v)" using fl by simp
  obtain b ext where "bs_headers s h = Some b" and b: "v = \<lparr> tip = mk_ref (hd_number b) h, lineage = rev ext \<rparr>"
    "walk_found s (hd_number b) h ext" "hd_number b \<noteq> u64_max"
    by (rule proveE [OF c v fl'])
  then have tn: "br_number (tip v) = hd_number b" by (simp add: mk_ref_def)
  obtain before where before: "read_cursor s = Inr before"
    using coherent_cursor [OF c] by (cases "bs_head s") (auto simp: read_cursor_def)
  obtain drops where d: "stage_drop_above hh s (hd_number b) = Inr drops"
    using stage_drop_above_total [OF c _ b(3), of hh] fl short tn by auto
  obtain ops where o: "stage_execution_after_reorg hh s before v = Inr ops"
    using stage_execution_total [OF coherentD(1) [OF c] fl b(1,2)] by blast
  obtain batch where "stage_move hh s before v = Inr batch"
    using d o tn by (simp add: stage_move_def)
  then have "fst (apply_transition hh s (Adopt v)) \<noteq> Inl e" if "apply_transition hh s (Adopt v) = (Inl e, s)" for e
    using that apply_transition_cases [OF c, of hh h "Adopt v"] v fl' before
      stage_move_coherent [OF c v fl' before] coherent_cursor [of "write_batch batch s" h hh]
    by (auto simp: apply_transition_def)
  then show ?thesis
    using apply_transition_cases [OF c, of hh h "Adopt v"] v fl' by fastforce
qed

subsection \<open>The check of a coherent store\<close>

lemma heights_range:
  assumes "n \<in> set (heights sc floor head)"
  shows "floor \<le> n \<and> n \<le> head"
proof -
  have bound: "unat (of_nat x :: u64) = x" if "x \<le> unat (w :: u64)" for x w
  proof -
    have "unat w < 2 ^ LENGTH(64)" by (rule unsigned_less)
    with that show ?thesis by (simp add: unat_of_nat)
  qed
  have range: "floor \<le> of_nat x \<and> of_nat x \<le> head"
    if "x \<in> set [unat lo ..< Suc (unat hi)]" "floor \<le> lo" "hi \<le> head" for lo hi x
    using that bound [of x hi] by (auto simp: word_le_nat_alt less_Suc_eq_le)
  show ?thesis
  proof (cases sc)
    case (Delta lo hi)
    with assms obtain x where "n = of_nat x" "x \<in> set [unat (max lo floor) ..< Suc (unat (min hi head))]"
      by (auto simp: heights_def)
    then show ?thesis using range [of x "max lo floor" "min hi head"] by simp
  next
    case Full
    with assms obtain x where "n = of_nat x" "x \<in> set [unat floor ..< Suc (unat head)]"
      by (auto simp: heights_def)
    then show ?thesis using range [of x floor head] by simp
  qed
qed

lemma check_height_linked:
  assumes "bs_freezer s = None" "linked s (bs_numbers s) n"
  shows "check_height hh s (prune_floor_number s) n = None"
  using assms by (auto simp: linked_def check_height_def)

lemma check_heights_None: "(\<forall>n \<in> set ns. check_height hh s floor n = None) \<Longrightarrow> check_heights hh s floor ns = None"
  by (induction ns) auto

lemma derive_cursor_read: "read_cursor s = Inr c \<Longrightarrow> derive_cursor s = Inr c"
  by (auto simp: read_cursor_def derive_cursor_def split: option.splits prod.splits)

lemma coherent_check:
  assumes c: "coherent s"
  shows "check hh s None sc = None"
proof (cases "bs_head s")
  case None
  then show ?thesis by (simp add: check_def derive_cursor_def)
next
  case (Some h)
  obtain b x xb root where cur: "bs_headers s h = Some b" "bs_headers s x = Some xb"
    "read_cursor s = Inr (Some \<lparr> validated_head = mk_ref (hd_number b) h,
                               executed = mk_ref (hd_number xb) x, cur_state_root = root \<rparr>)"
    "(bs_exec_head s = None \<and> x = h \<and> root = ZERO_HASH) \<or> bs_exec_head s = Some (x, root)"
    by (rule read_cursor_coherent [OF c Some]) blast
  note fr = coherentD(1) [OF c]
  have on: "bs_numbers s (hd_number b) = Some h" "\<forall>n > hd_number b. bs_numbers s n = None"
    "exec_on_chain s (hd_number b)"
    using coherentD(5) [OF c] Some cur(1) by (auto simp: head_on_top_def)
  have "hd_number b \<noteq> u64_max" using coherentD(2) [OF c] cur(1) by (auto simp: heights_bounded_def)
  then have none: "bs_numbers s (hd_number b + 1) = None" using on(2) less_succ by blast
  have ex: "hd_number xb \<le> hd_number b" "prune_floor_number s \<le> hd_number xb \<longrightarrow> bs_numbers s (hd_number xb) = Some x"
    using on(1,3) cur by (auto simp: exec_on_chain_def)
  have "check_heights hh s (prune_floor_number s) (heights sc (prune_floor_number s) (hd_number b)) = None"
    using index_linked_below [OF coherentD(3) [OF c], of "hd_number b"] on(1) heights_range
    by (intro check_heights_None ballI check_height_linked fr) fastforce
  then show ?thesis
    using derive_cursor_read [OF cur(3)] ex none on(1) fr
    by (auto simp: check_def check_with_cursor_def mk_ref_def Let_def)
qed

subsection \<open>Reachable stores\<close>

text \<open>
  A header attaches to a store when its parent is held one height below it (or it is a genesis)
  and no other header has its hash.
\<close>

definition attaches :: "(header \<Rightarrow> b256) \<Rightarrow> block_store \<Rightarrow> header \<Rightarrow> bool" where
  "attaches hh s hdr =
     (hd_number hdr \<noteq> u64_max
      \<and> (hd_number hdr = 0
         \<or> (case bs_headers s (parent_hash hdr) of None \<Rightarrow> False | Some p \<Rightarrow> hd_number p + 1 = hd_number hdr))
      \<and> (case bs_headers s (hh hdr) of None \<Rightarrow> True | Some b \<Rightarrow> b = hdr))"

definition header_ops :: "(header \<Rightarrow> b256) \<Rightarrow> header \<times> u256 \<Rightarrow> batch_op list" where
  "header_ops hh = (\<lambda>(hdr, td). [PutHeader (hh hdr) hdr, PutTd (hh hdr) td, PutHeightIndex (hd_number hdr) (hh hdr)])"

fun attaches_all :: "(header \<Rightarrow> b256) \<Rightarrow> block_store \<Rightarrow> (header \<times> u256) list \<Rightarrow> bool" where
  "attaches_all hh s [] = True"
| "attaches_all hh s (e # es) = (attaches hh s (fst e) \<and> attaches_all hh (write_batch (header_ops hh e) s) es)"

inductive reachable :: "(header \<Rightarrow> b256) \<Rightarrow> block_store \<Rightarrow> bool" for hh where
  fresh: "reachable hh empty_store"
| store_header: "reachable hh s \<Longrightarrow> attaches hh s hdr \<Longrightarrow> reachable hh (put_header hh s hdr)"
| store_batch: "reachable hh s \<Longrightarrow> attaches_all hh s entries
    \<Longrightarrow> reachable hh (snd (store_headers_batch hh s entries cur td))"
| transit: "reachable hh s \<Longrightarrow> prove hh s h = Inr (transition_of tr)
    \<Longrightarrow> reachable hh (snd (apply_transition hh s tr))"

definition ancestry_closed :: "block_store \<Rightarrow> bool" where
  "ancestry_closed s =
     (\<forall>h b. bs_headers s h = Some b \<longrightarrow> hd_number b \<noteq> 0
        \<longrightarrow> (\<exists>p. bs_headers s (parent_hash b) = Some p \<and> hd_number p + 1 = hd_number b))"

definition sound_store :: "block_store \<Rightarrow> bool" where
  "sound_store s = (coherent s \<and> ancestry_closed s \<and> bs_prune_floor s = None)"

lemma floor_zero: "bs_prune_floor s = None \<Longrightarrow> prune_floor_number s = 0"
  by (simp add: prune_floor_number_def)

lemma sound_more_headers:
  assumes s: "sound_store s" and m: "bs_headers s \<subseteq>\<^sub>m bs_headers s'"
    and same: "bs_numbers s' = bs_numbers s" "bs_head s' = bs_head s" "bs_exec_head s' = bs_exec_head s"
      "bs_prune_floor s' = bs_prune_floor s" "bs_freezer s' = bs_freezer s"
    and new: "heights_bounded s'" "ancestry_closed s'"
  shows "sound_store s'"
proof -
  have more: "bs_headers s' h = Some b" if "bs_headers s h = Some b" for h b
    using m that by (force simp: map_le_def dom_def)
  have c: "coherent s" and fl: "prune_floor_number s = 0" "prune_floor_number s' = 0"
    using s same(4) by (auto simp: sound_store_def prune_floor_number_def)
  have link: "linked s' (bs_numbers s') n" if "bs_numbers s' n \<noteq> None" for n
    using coherentD(3) [OF c] that fl same(1) more by (fastforce simp: index_linked_def linked_def)
  then have "index_linked s'" "index_placed s'"
    by (fastforce simp: index_linked_def index_placed_def linked_def)+
  moreover have "head_on_top s'"
    using coherentD(5) [OF c] more same fl
    by (auto simp: head_on_top_def exec_on_chain_def split: option.splits) blast+
  ultimately show ?thesis
    using s same new by (simp add: sound_store_def coherent_def)
qed

lemma sound_attach:
  assumes s: "sound_store s" and a: "attaches hh s hdr"
    and s': "bs_headers s' = (bs_headers s)(hh hdr \<mapsto> hdr)"
      "bs_numbers s' = bs_numbers s" "bs_head s' = bs_head s" "bs_exec_head s' = bs_exec_head s"
      "bs_prune_floor s' = bs_prune_floor s" "bs_freezer s' = bs_freezer s"
  shows "sound_store s'"
proof (rule sound_more_headers [OF s _ s'(2-6)])
  show le: "bs_headers s \<subseteq>\<^sub>m bs_headers s'"
    using a s'(1) by (auto simp: map_le_def attaches_def split: option.splits)
  show "heights_bounded s'"
    using s a s'(1) by (auto simp: sound_store_def coherent_def heights_bounded_def attaches_def split: if_splits)
  show "ancestry_closed s'"
    unfolding ancestry_closed_def
  proof (intro allI impI)
    fix h b
    assume b: "bs_headers s' h = Some b" "hd_number b \<noteq> 0"
    then have "\<exists>p. bs_headers s (parent_hash b) = Some p \<and> hd_number p + 1 = hd_number b"
      using s a s'(1)
      by (cases "h = hh hdr") (auto simp: sound_store_def ancestry_closed_def attaches_def split: option.splits)
    then show "\<exists>p. bs_headers s' (parent_hash b) = Some p \<and> hd_number p + 1 = hd_number b"
      using le by (force simp: map_le_def dom_def)
  qed
qed

lemma prove_walk_total:
  assumes "bs_freezer s = None" "ancestry_closed s"
  shows "bs_headers s h = Some b \<Longrightarrow> \<exists>acc'. prove_walk hh s floor h b acc = Inr acc'"
proof (induction "unat (hd_number b)" arbitrary: h b acc rule: less_induct)
  case less
  show ?case
  proof (cases "hd_number b = 0")
    case True
    then show ?thesis by (simp add: prove_walk.simps Let_def)
  next
    case False
    then obtain p where p: "bs_headers s (parent_hash b) = Some p" "hd_number p + 1 = hd_number b"
      using assms(2) less.prems by (auto simp: ancestry_closed_def)
    have "unat (hd_number p) < unat (hd_number b)" using unat_succ [OF p(2) False] by simp
    from less.hyps [OF this p(1)] p assms(1) show ?thesis
      by (simp add: prove_walk.simps [of hh s "floor" h b] Let_def)
  qed
qed

lemma sound_prove:
  assumes "sound_store s" "bs_headers s h = Some b"
  obtains v where "prove hh s h = Inr v"
proof -
  have "bs_freezer s = None" "ancestry_closed s"
    using assms(1) by (auto simp: sound_store_def coherent_def)
  moreover from prove_walk_total [OF this assms(2)] obtain acc
    where "prove_walk hh s (prune_floor_number s) h b [] = Inr acc" by blast
  ultimately show ?thesis using assms(2) by (intro that) (simp add: prove_def)
qed

lemma sound_transit:
  assumes s: "sound_store s" and v: "prove hh s h = Inr (transition_of tr)"
  shows "sound_store (snd (apply_transition hh s tr))"
proof -
  have "coherent s" "prune_floor_number s \<le> br_number (tip (transition_of tr))"
    using s by (auto simp: sound_store_def floor_zero)
  from apply_transition_cases [OF this(1) v this(2)] s show ?thesis
    by (elim disjE exE conjE) (auto simp: sound_store_def ancestry_closed_def)
qed

lemma batch_entries_ops:
  "fst (batch_entries hh es best td) = concat (map (header_ops hh) es)
   \<and> (snd (batch_entries hh es best td) = best \<or> (\<exists>e \<in> set es. snd (batch_entries hh es best td) = Some (hh (fst e))))"
proof (induction es arbitrary: best td)
  case (Cons e es)
  obtain hdr t where e: "e = (hdr, t)" by fastforce
  show ?case
    using Cons [of "Some (hh hdr)" t] Cons [of best td]
    by (cases "td < t") (auto simp: e header_ops_def Let_def case_prod_beta)
qed simp

lemma sound_batch_headers:
  "sound_store s \<Longrightarrow> attaches_all hh s es \<Longrightarrow>
     sound_store (write_batch (concat (map (header_ops hh) es)) s)
     \<and> bs_headers s \<subseteq>\<^sub>m bs_headers (write_batch (concat (map (header_ops hh) es)) s)
     \<and> (\<forall>e \<in> set es. bs_headers (write_batch (concat (map (header_ops hh) es)) s) (hh (fst e)) \<noteq> None)"
proof (induction es arbitrary: s)
  case (Cons e es)
  obtain hdr t where e: "e = (hdr, t)" by fastforce
  let ?s = "write_batch (header_ops hh e) s"
  from Cons.prems have a: "attaches hh s hdr" and rest: "attaches_all hh ?s es" by (auto simp: e)
  have "sound_store ?s"
    by (rule sound_attach [OF Cons.prems(1) a]) (simp_all add: e header_ops_def)
  note IH = Cons.IH [OF this rest]
  have "bs_headers s \<subseteq>\<^sub>m bs_headers ?s"
    using a by (auto simp: map_le_def attaches_def e header_ops_def split: option.splits)
  moreover have "bs_headers ?s (hh hdr) = Some hdr" by (simp add: e header_ops_def)
  ultimately show ?case
    using IH by (auto simp: e intro: map_le_trans) (metis domI map_le_def option.distinct(1))
qed simp

lemma sound_batch:
  assumes s: "sound_store s" and a: "attaches_all hh s es"
  shows "sound_store (snd (store_headers_batch hh s es cur td))"
proof (cases "es = []")
  case True
  then show ?thesis using s by (simp add: store_headers_batch_def)
next
  case False
  obtain ops best where be: "batch_entries hh es cur td = (ops, best)" by fastforce
  let ?s = "write_batch ops s"
  from batch_entries_ops [of hh es cur td] be
  have ops: "ops = concat (map (header_ops hh) es)" and best: "best = cur \<or> (\<exists>e \<in> set es. best = Some (hh (fst e)))"
    by simp_all
  note s1 = sound_batch_headers [OF s a, folded ops]
  show ?thesis
  proof (cases "best = cur")
    case True
    then show ?thesis using s1 be False by (simp add: store_headers_batch_def)
  next
    case change: False
    then obtain e where e: "e \<in> set es" "best = Some (hh (fst e))" using best by auto
    then obtain b where "bs_headers ?s (hh (fst e)) = Some b" using s1 by fastforce
    then obtain v where v: "prove hh ?s (hh (fst e)) = Inr v" using sound_prove s1 by blast
    have "sound_store (snd (move_head_to hh ?s (hh (fst e)) cur))"
      using sound_transit [of ?s hh "hh (fst e)" "Adopt v"] sound_transit [of ?s hh "hh (fst e)" "Retreat v"] s1 v
      by (simp add: move_head_to_def Let_def case_prod_beta)
    then show ?thesis
      using change be False e(2)
      by (auto simp: store_headers_batch_def split: prod.splits sum.splits)
  qed
qed

lemma reachable_sound: "reachable hh s \<Longrightarrow> sound_store s"
proof (induction rule: reachable.induct)
  case fresh
  then show ?case
    by (simp add: sound_store_def coherent_def empty_store_def heights_bounded_def index_linked_def
        index_placed_def head_on_top_def ancestry_closed_def)
next
  case (store_header s hdr)
  show ?case
    by (rule sound_attach [OF store_header(3,2)]) (simp_all add: put_header_def put_header_with_hash_def)
next
  case (store_batch s entries cur td)
  then show ?case by (simp add: sound_batch)
next
  case (transit s h tr)
  then show ?case by (blast intro: sound_transit)
qed

text \<open>C3. Starting from an empty store, after any sequence of stored headers, header batches and
  transitions (adopting, retreating, recording execution) in any order, the node's position passes
  the coherence check at every scope, as long as headers are stored after their parents.\<close>

theorem reachable_check:
  assumes "reachable hh s"
  shows "check hh s None sc = None"
  using reachable_sound [OF assms] coherent_check by (simp add: sound_store_def)

subsection \<open>Repair\<close>

text \<open>A repair that is allowed to reach the genesis finds the whole lineage, whatever the index holds.\<close>

lemma repair_walk_step:
  assumes "bs_freezer s = None" "bs_headers s h = Some b"
  shows "\<exists>r1. repair_walk hh s h (Suc d) r batch =
      (let batch1 = batch @ map (\<lambda>(n, h). PutNumber n h)
                             (if bs_numbers s (hd_number b) = Some h then [] else [(hd_number b, h)])
       in if hd_number b = 0 then (r1, batch1) else repair_walk hh s (parent_hash b) d r1 batch1)
    \<and> walked r1 = walked r + 1 \<and> lowest r1 = Some (hd_number b)
    \<and> stopped_at_missing_header r1 = stopped_at_missing_header r"
  using assms by (cases "bs_numbers s (hd_number b)") (auto simp: Let_def)

lemma repair_walk_found:
  assumes s: "bs_freezer s = None" "ancestry_closed s" "prune_floor_number s = 0"
  shows "bs_headers s h = Some b \<Longrightarrow> unat (hd_number b) < d \<Longrightarrow>
    \<exists>ext r'. repair_walk hh s h d r batch = (r', batch @ map (\<lambda>(n, h). PutNumber n h) ext)
      \<and> walk_found s (hd_number b) h ext \<and> walked r' = walked r + unat (hd_number b) + 1
      \<and> lowest r' = Some 0 \<and> stopped_at_missing_header r' = stopped_at_missing_header r"
proof (induction d arbitrary: h b r batch)
  case (Suc d)
  let ?n = "hd_number b"
  define e0 where "e0 = (if bs_numbers s ?n = Some h then [] else [(?n, h)])"
  obtain r1 where r1: "walked r1 = walked r + 1" "lowest r1 = Some ?n"
    "stopped_at_missing_header r1 = stopped_at_missing_header r"
    and step: "repair_walk hh s h (Suc d) r batch =
      (let batch1 = batch @ map (\<lambda>(n, h). PutNumber n h) e0
       in if ?n = 0 then (r1, batch1) else repair_walk hh s (parent_hash b) d r1 batch1)"
    using repair_walk_step [OF s(1) Suc.prems(1), of hh d r batch, folded e0_def] by blast
  show ?case
  proof (cases "?n = 0")
    case True
    have "walk_found s ?n h e0"
      using walk_found_floor [OF Suc.prems(1) _ e0_def] True s(3) by simp
    then show ?thesis using step r1 True by (simp add: Let_def) blast
  next
    case False
    then obtain p where p: "bs_headers s (parent_hash b) = Some p" "hd_number p + 1 = ?n"
      using s(2) Suc.prems(1) by (auto simp: ancestry_closed_def)
    have up: "unat ?n = unat (hd_number p) + 1" by (rule unat_succ [OF p(2) False])
    have pn: "hd_number p = ?n - 1" using p(2) by (simp add: eq_diff_eq)
    from Suc.prems(2) up have "unat (hd_number p) < d" by simp
    from Suc.IH [OF p(1) this, of r1 "batch @ map (\<lambda>(n, h). PutNumber n h) e0"] obtain ext r' where IH:
      "repair_walk hh s (parent_hash b) d r1 (batch @ map (\<lambda>(n, h). PutNumber n h) e0)
         = (r', (batch @ map (\<lambda>(n, h). PutNumber n h) e0) @ map (\<lambda>(n, h). PutNumber n h) ext)"
      "walk_found s (hd_number p) (parent_hash b) ext" "walked r' = walked r1 + unat (hd_number p) + 1"
      "lowest r' = Some 0" "stopped_at_missing_header r' = stopped_at_missing_header r1" by blast
    have "walk_found s ?n h (e0 @ ext)"
      using walk_found_step [OF IH(2) [unfolded pn] Suc.prems(1) refl _ e0_def] s(3) False
      by (simp add: word_neq_0_conv)
    then show ?thesis
      using step IH r1 False up
      by (intro exI [of _ "e0 @ ext"] exI [of _ r']) (simp add: Let_def)
  qed
qed simp

text \<open>C32. Repairing the canonical index from a held block, with a depth that reaches the genesis and
  every ancestor held, leaves an unbroken canonical chain from the genesis to that block whatever
  the index held before, and reports one visited height per block.\<close>

theorem repair_restores_index:
  assumes "bs_freezer s = None" "ancestry_closed s" "bs_prune_floor s = None"
    "bs_headers s h = Some b" "unat (hd_number b) < depth"
    "repair_canonical_lineage hh s h depth = (report, s')"
  shows "bs_numbers s' (hd_number b) = Some h \<and> (\<forall>n \<le> hd_number b. linked s' (bs_numbers s') n)
    \<and> walked report = unat (hd_number b) + 1 \<and> stopped_at_missing_header report = None"
proof -
  let ?r = "\<lparr> walked = 0, corrected = 0, filled = 0, lowest = None, stopped_at_missing_header = None \<rparr>"
  from repair_walk_found [OF assms(1,2) floor_zero [OF assms(3)] assms(4,5), of hh ?r "[]"]
  obtain ext r' where w: "repair_walk hh s h depth ?r [] = (r', map (\<lambda>(n, h). PutNumber n h) ext)"
    "walk_found s (hd_number b) h ext" "walked r' = unat (hd_number b) + 1" "stopped_at_missing_header r' = None"
    by auto
  let ?ops = "map (\<lambda>(n, h). PutNumber n h) ext"
  have s': "report = r'" "s' = write_batch ?ops s"
    using assms(6) w(1) by (auto simp: repair_canonical_lineage_def split: if_splits)
  have desc: "sorted_wrt (\<lambda>x y. fst y < fst x) ext" using w(2) by (simp add: walk_found_def)
  have "bs_numbers s' = bs_numbers s ++ map_of ext"
    unfolding s' put_numbers map_of_rev_descending [OF desc] ..
  moreover have "s' = s\<lparr> bs_numbers := bs_numbers s' \<rparr>"
    unfolding s' by (rule write_numbers) simp
  from arg_cong [OF this, of bs_headers] arg_cong [OF this, of bs_prune_floor]
  have "bs_headers s' = bs_headers s" "bs_prune_floor s' = bs_prune_floor s" by simp_all
  ultimately show ?thesis
    using w s'(1) floor_zero [OF assms(3)] by (simp add: walk_found_def linked_same [of s' s])
qed

subsection \<open>A small chain\<close>

abbreviation (input) "genesis_0 \<equiv> sample_header 0 0 []"
abbreviation (input) "block_1a \<equiv> sample_header 1 1 [0, 0]"
abbreviation (input) "block_2a \<equiv> sample_header 2 1 [1, 1]"
abbreviation (input) "block_1b \<equiv> sample_header 1 2 [0, 0]"

definition sample_store :: block_store where
  "sample_store = snd (store_headers_batch sample_hash empty_store
     [(genesis_0, 1), (block_1a, 2), (block_2a, 3)] None 0)"

text \<open>The bound on dropped entries as a binary integer, for evaluation.\<close>

lemma drop_loop_code [code]:
  "drop_loop hh s n dropped acc =
     (if int dropped < 100000 then
        (case canonical_hash hh s n of
           Some _ \<Rightarrow> drop_loop hh s (n + 1) (dropped + 1) (acc @ [n])
         | None \<Rightarrow> (dropped, acc))
      else (dropped, acc))"
  by (subst drop_loop.simps) (simp add: MAX_DROP_def)

lemma stage_drop_above_code [code]:
  "stage_drop_above hh s tp =
     (let (dropped, ns) = drop_loop hh s (tp + 1) 0 []
      in if 100000 \<le> int dropped then Inl (TooManyAbove tp) else Inr (map DeleteNumber ns))"
  by (simp add: stage_drop_above_def MAX_DROP_def case_prod_beta)

lemmas sample_simps = sample_header_def sample_hash_def header_ops_def attaches_def u64_max_def empty_store_def
  put_header_def put_header_with_hash_def

lemma sample_store_reachable: "reachable sample_hash sample_store"
  unfolding sample_store_def
  by (rule reachable.store_batch [OF reachable.fresh]) (simp add: sample_simps)

lemma sample_store_coherent: "coherent sample_store"
  using reachable_sound [OF sample_store_reachable] by (simp add: sound_store_def)

definition sample_fork :: block_store where
  "sample_fork = put_header sample_hash sample_store block_1b"

lemma sample_fork_reachable: "reachable sample_hash sample_fork"
  unfolding sample_fork_def by (rule reachable.store_header [OF sample_store_reachable]) code_simp

lemma sample_fork_coherent: "coherent sample_fork"
  using reachable_sound [OF sample_fork_reachable] by (simp add: sound_store_def)

definition sample_proof :: validated where
  "sample_proof = \<lparr> tip = mk_ref 1 [1, 2], lineage = [(1, [1, 2])] \<rparr>"

lemma sample_fork_prove: "prove sample_hash sample_fork [1, 2] = Inr sample_proof"
  by code_simp

text \<open>Adopting the sibling of the canonical block 1 while block 2 is the head.\<close>

theorem apply_keeps_coherence_witness:
  "case apply_transition sample_hash sample_fork (Adopt sample_proof) of
     (Inl _, _) \<Rightarrow> False
   | (Inr cu, s') \<Rightarrow> coherent s' \<and> validated_head cu = mk_ref 1 [1, 2]"
proof -
  have "isl (fst (apply_transition sample_hash sample_fork (Adopt sample_proof))) = False" by code_simp
  moreover have "tip sample_proof = mk_ref 1 [1, 2]" by (simp add: sample_proof_def)
  moreover have "prune_floor_number sample_fork = 0" by code_simp
  ultimately show ?thesis
    using apply_keeps_coherence [OF sample_fork_coherent, of sample_hash "[1, 2]" "Adopt sample_proof"]
      sample_fork_prove
    by (auto split: prod.splits sum.splits)
qed

theorem adopt_lands_witness:
  "\<exists>cu s'. apply_transition sample_hash sample_fork (Adopt sample_proof) = (Inr cu, s')
     \<and> validated_head cu = tip sample_proof"
proof (rule adopt_lands [OF sample_fork_coherent _ sample_fork_prove])
  show "prune_floor_number sample_fork = 0" by code_simp
  have "bs_head sample_fork = Some [2, 1]" by code_simp
  moreover have "map_option hd_number (bs_headers sample_fork [2, 1]) = Some 2" by code_simp
  ultimately show "unat (hd_number b) < unat (br_number (tip sample_proof)) + MAX_DROP"
    if "bs_head sample_fork = Some h0" "bs_headers sample_fork h0 = Some b" for h0 b
    using that by (auto simp: MAX_DROP_def)
qed

theorem reachable_check_witness: "check sample_hash sample_fork None Full = None"
  by (rule reachable_check [OF sample_fork_reachable])

text \<open>An index that has lost every entry is rebuilt from the head.\<close>

theorem repair_restores_index_witness:
  "bs_numbers (snd (repair_canonical_lineage sample_hash (sample_store\<lparr> bs_numbers := Map.empty \<rparr>) [2, 1] 3)) 2
     = Some [2, 1]"
proof -
  let ?s = "sample_store\<lparr> bs_numbers := Map.empty \<rparr>"
  have "bs_freezer ?s = None" "ancestry_closed ?s" "bs_prune_floor ?s = None"
    using reachable_sound [OF sample_store_reachable]
    by (auto simp: sound_store_def coherent_def ancestry_closed_def)
  moreover have "bs_headers ?s [2, 1] = Some block_2a" by code_simp
  moreover have "hd_number block_2a = 2" by (simp add: sample_header_def)
  ultimately show ?thesis
    using repair_restores_index [OF _ _ _ _ _ prod.collapse [symmetric], of ?s "[2, 1]" block_2a 3 sample_hash]
    by simp
qed

end
