(* ===== verification/Validation.thy ===== *)
theory Validation
  imports Chain_Types
begin

text \<open>
  The consensus rules that need a header, a header and its parent, or a block
  (\<open>crates/core/src/validation\<close>: \<open>mod.rs\<close>, \<open>header_rules.rs\<close>, \<open>difficulty.rs\<close>,
  \<open>block_rules.rs\<close>). A rule accepts, rejects with the error the code returns, or panics (a
  division by a zero parameter). The clock is an argument, as in the \<open>_at\<close> variants of the code.
\<close>

subsection \<open>Errors and verdicts\<close>

datatype validation_error =
    InvalidBlockNumber u64 u64
  | ParentHashMismatch b256 b256
  | TimestampInFuture u64 u64
  | TimestampOlderThanParent u64 u64
  | SystemTimeError
  | GasUsedExceedsLimit u64 u64
  | GasLimitOverflow
  | GasLimitOutOfBounds u64 u64 u64
  | GasLimitInvalid u64 u64
  | DifficultyMismatch u256 u256
  | DifficultyZero
  | BitcoinHeaderDecodeError
  | BitcoinTimestampTooFar u64 u64 u64
  | BitcoinCoinbaseDecodeError
  | BitcoinMerkleProofDecodeError
  | BitcoinPowInvalid b256 u256
  | BitcoinMerkleProofInvalid
  | BitcoinCoinbaseTagInvalid
  | MerkleProofTooLarge nat nat
  | TxGasPriceBelowMinimum u256 u256
  | TxGasPriceAboveCap u256 u256
  | RemascTxMissing
  | ExtraDataTooLarge nat nat
  | MinGasPriceOutOfRange u256 u256 u256
  | TooManyUncles nat nat
  | UncleIsAncestor b256
  | UncleAlreadyUsed b256
  | UncleRepeated b256
  | UncleIsSiblingOrDescendant b256
  | UncleTooOld b256 u64
  | UncleHasNoCommonParent b256
  | ForkDetectionDataMismatch bytes bytes
  | ForkDetectionDataUnreadable
  | InvalidSublistEdges string

datatype verdict = Accept | Reject validation_error | Panics

text \<open>The \<open>?\<close> operator: the first verdict that is not an acceptance.\<close>

definition and_then :: "verdict \<Rightarrow> verdict \<Rightarrow> verdict" where
  "and_then a b = (case a of Accept \<Rightarrow> b | _ \<Rightarrow> a)"

fun all_rules :: "('r \<Rightarrow> verdict) \<Rightarrow> 'r list \<Rightarrow> verdict" where
  "all_rules f [] = Accept"
| "all_rules f (r # rs) = and_then (f r) (all_rules f rs)"

lemma and_then_Accept [simp]: "and_then a b = Accept \<longleftrightarrow> a = Accept \<and> b = Accept"
  by (auto simp: and_then_def split: verdict.splits)

lemma all_rules_Accept: "all_rules f rs = Accept \<longleftrightarrow> (\<forall>r \<in> set rs. f r = Accept)"
  by (induction rs) auto

subsection \<open>Header rules\<close>

definition gas_limit_as_u64 :: "u256 \<Rightarrow> u64 option" where
  "gas_limit_as_u64 g = (if unat g < 2 ^ 64 then Some (ucast g) else None)"

definition block_number_rule :: "header \<Rightarrow> header \<Rightarrow> verdict" where
  "block_number_rule h parent =
     (if hd_number h \<noteq> hd_number parent + 1
      then Reject (InvalidBlockNumber (hd_number parent + 1) (hd_number h)) else Accept)"

definition parent_hash_rule :: "(header \<Rightarrow> b256) \<Rightarrow> header \<Rightarrow> header \<Rightarrow> verdict" where
  "parent_hash_rule hh h parent =
     (if parent_hash h \<noteq> hh parent then Reject (ParentHashMismatch (hh parent) (parent_hash h)) else Accept)"

definition timestamp_validate_at :: "u64 \<Rightarrow> u64 \<Rightarrow> header \<Rightarrow> verdict" where
  "timestamp_validate_at max_future_offset now h =
     (if max_future_offset = 0 then Accept
      else if now + max_future_offset < timestamp h then Reject (TimestampInFuture now (timestamp h))
      else Accept)"

definition timestamp_with_parent_at :: "u64 \<Rightarrow> u64 \<Rightarrow> header \<Rightarrow> header \<Rightarrow> verdict" where
  "timestamp_with_parent_at max_future_offset now h parent =
     (if max_future_offset = 0 then Accept
      else and_then (timestamp_validate_at max_future_offset now h)
        (if timestamp h \<le> timestamp parent
         then Reject (TimestampOlderThanParent (timestamp parent) (timestamp h)) else Accept))"

definition timestamp_rule :: "u64 \<Rightarrow> u64 option \<Rightarrow> header \<Rightarrow> header \<Rightarrow> verdict" where
  "timestamp_rule max_future_offset clock h parent =
     (case clock of None \<Rightarrow> Reject SystemTimeError
      | Some now \<Rightarrow> timestamp_with_parent_at max_future_offset now h parent)"

definition gas_used_rule :: "header \<Rightarrow> verdict" where
  "gas_used_rule h =
     (case gas_limit_as_u64 (gas_limit h) of
        None \<Rightarrow> Reject GasLimitOverflow
      | Some limit \<Rightarrow> if limit < gas_used h then Reject (GasUsedExceedsLimit (gas_used h) limit) else Accept)"

definition gas_limit_bounds_rule :: "u64 \<Rightarrow> u64 \<Rightarrow> header \<Rightarrow> verdict" where
  "gas_limit_bounds_rule lo hi h =
     (case gas_limit_as_u64 (gas_limit h) of
        None \<Rightarrow> Reject GasLimitOverflow
      | Some limit \<Rightarrow> if limit < lo \<or> hi < limit then Reject (GasLimitOutOfBounds lo hi limit) else Accept)"

definition parent_gas_limit_rule :: "chain_config \<Rightarrow> header \<Rightarrow> header \<Rightarrow> verdict" where
  "parent_gas_limit_rule config h parent =
     (case gas_limit_as_u64 (gas_limit h) of
        None \<Rightarrow> Reject GasLimitOverflow
      | Some limit \<Rightarrow>
          (case gas_limit_as_u64 (gas_limit parent) of
             None \<Rightarrow> Reject GasLimitOverflow
           | Some parent_limit \<Rightarrow>
               let divisor = gas_limit_bound_divisor config
               in if divisor = 0 then Panics
                  else
                    let delta = parent_limit div divisor
                    in if limit < parent_limit - delta \<or> parent_limit + delta < limit
                       then Reject (GasLimitInvalid parent_limit limit) else Accept))"

subsection \<open>Difficulty\<close>

definition RSKIP156_DIFFICULTY_DIVISOR :: u256 where "RSKIP156_DIFFICULTY_DIVISOR = 400"
definition TEN_MINUTES :: u64 where "TEN_MINUTES = 600"

definition rskip97_active :: "chain_config \<Rightarrow> header \<Rightarrow> bool" where
  "rskip97_active config h =
     (case rskip97 (activations config) of Some height \<Rightarrow> height \<le> hd_number h | None \<Rightarrow> False)"

definition calculate_expected_difficulty :: "chain_config \<Rightarrow> header \<Rightarrow> header \<Rightarrow> u256 option" where
  "calculate_expected_difficulty config h parent =
     (let delta = saturating_sub (timestamp h) (timestamp parent);
          calc_dur = (1 + uncle_count h) * duration_limit config;
          divisor = (if papyrus200 (activations config) \<le> hd_number h
                     then RSKIP156_DIFFICULTY_DIVISOR else difficulty_divisor config);
          pd = difficulty parent
      in if \<not> rskip97_active config h \<and> TEN_MINUTES \<le> delta then Some (min_difficulty config)
         else if timestamp h < timestamp parent then Some pd
         else if calc_dur = delta then Some pd
         else if divisor = 0 then None
         else
           let quotient = pd div divisor;
               from_parent = (if delta < calc_dur then pd + quotient
                              else if quotient < pd then pd - quotient else 0)
           in Some (if from_parent < min_difficulty config then min_difficulty config else from_parent))"

definition difficulty_for_child :: "chain_config \<Rightarrow> header \<Rightarrow> u64 \<Rightarrow> u64 \<Rightarrow> u64 \<Rightarrow> u256 option" where
  "difficulty_for_child config parent number ts uncles =
     (let probe = parent\<lparr> hd_number := number, timestamp := ts, uncle_count := uncles \<rparr>
      in calculate_expected_difficulty config probe parent)"

definition difficulty_rule :: "chain_config \<Rightarrow> header \<Rightarrow> header \<Rightarrow> verdict" where
  "difficulty_rule config h parent =
     (case calculate_expected_difficulty config h parent of
        None \<Rightarrow> Panics
      | Some expected \<Rightarrow>
          if difficulty h \<noteq> expected then Reject (DifficultyMismatch expected (difficulty h)) else Accept)"

subsection \<open>Block rules\<close>

definition REMASC_ADDR :: address where
  "REMASC_ADDR = replicate 16 0 @ [0x01, 0x00, 0x00, 0x08]"

definition is_remasc_tx :: "transaction \<Rightarrow> bool" where
  "is_remasc_tx tx = (tx_v tx = 0 \<and> tx_r tx = 0 \<and> tx_s tx = 0 \<and> tx_gas_limit tx = 0
     \<and> length (tx_to tx) = 20 \<and> tx_to tx = REMASC_ADDR)"

fun min_gas_price_loop :: "u256 \<Rightarrow> transaction list \<Rightarrow> verdict" where
  "min_gas_price_loop mn [] = Accept"
| "min_gas_price_loop mn (tx # txs) =
     (if is_remasc_tx tx then min_gas_price_loop mn txs
      else if tx_gas_price tx < mn then Reject (TxGasPriceBelowMinimum (tx_gas_price tx) mn)
      else min_gas_price_loop mn txs)"

definition txs_min_gas_price_rule :: "block \<Rightarrow> verdict" where
  "txs_min_gas_price_rule b = min_gas_price_loop (minimum_gas_price (blk_header b)) (blk_transactions b)"

definition FOR_BLOCK_MULTIPLIER :: u256 where "FOR_BLOCK_MULTIPLIER = 100"

fun max_gas_price_loop :: "u256 \<Rightarrow> transaction list \<Rightarrow> verdict" where
  "max_gas_price_loop cap [] = Accept"
| "max_gas_price_loop cap (tx # txs) =
     (if is_remasc_tx tx then max_gas_price_loop cap txs
      else if cap < tx_gas_price tx then Reject (TxGasPriceAboveCap (tx_gas_price tx) cap)
      else max_gas_price_loop cap txs)"

definition txs_max_gas_price_rule :: "u64 \<Rightarrow> block \<Rightarrow> verdict" where
  "txs_max_gas_price_rule rskip252_height b =
     (if hd_number (blk_header b) < rskip252_height then Accept
      else let mn = minimum_gas_price (blk_header b)
           in if mn = 0 then Accept
              else max_gas_price_loop (saturating_mul mn FOR_BLOCK_MULTIPLIER) (blk_transactions b))"

definition remasc_validation_rule :: "block \<Rightarrow> verdict" where
  "remasc_validation_rule b =
     (if blk_transactions b \<noteq> [] \<and> is_remasc_tx (last (blk_transactions b)) then Accept
      else Reject RemascTxMissing)"

definition extra_data_rule :: "nat \<Rightarrow> header \<Rightarrow> verdict" where
  "extra_data_rule max_size h =
     (if max_size < length (extra_data h) then Reject (ExtraDataTooLarge max_size (length (extra_data h)))
      else Accept)"

definition min_gas_price_range :: "u256 \<Rightarrow> u256 \<times> u256" where
  "min_gas_price_range center =
     (let delta0 = center div 100;
          delta = (if delta0 = 0 then 1 else delta0)
      in (saturating_sub center delta, saturating_add center delta))"

definition prev_min_gas_price_rule :: "header \<Rightarrow> header \<Rightarrow> verdict" where
  "prev_min_gas_price_rule h parent =
     (if hd_number h = 0 then Accept
      else
        let (lower, upper) = min_gas_price_range (minimum_gas_price parent);
            got = minimum_gas_price h
        in if got < lower \<or> upper < got then Reject (MinGasPriceOutOfRange lower upper got) else Accept)"

definition TX_EXECUTION_THREADS :: nat where "TX_EXECUTION_THREADS = 2"

fun ascending_edges :: "int list \<Rightarrow> bool" where
  "ascending_edges (a # b # es) = (a < b \<and> ascending_edges (b # es))"
| "ascending_edges _ = True"

text \<open>Edges are read as signed 16-bit integers; the message of a rejection is its first words.\<close>

definition validate_tx_execution_sublists_edges :: "16 word list option \<Rightarrow> nat \<Rightarrow> bool \<Rightarrow> verdict" where
  "validate_tx_execution_sublists_edges edges transaction_count active =
     (if \<not> active then Accept
      else case edges of
        None \<Rightarrow> Accept
      | Some es \<Rightarrow>
          if es = [] then Accept
          else if TX_EXECUTION_THREADS < length es
          then Reject (InvalidSublistEdges ''number of execution list edges'')
          else if sint (hd es) \<le> 0 then Reject (InvalidSublistEdges ''first edge'')
          else if \<not> ascending_edges (map sint es) then Reject (InvalidSublistEdges ''ascending order'')
          else if int transaction_count - 1 < sint (last es) then Reject (InvalidSublistEdges ''out of bounds'')
          else Accept)"

end
