(* ===== verification/Merged_Mining.thy ===== *)
theory Merged_Mining
  imports Validation
begin

text \<open>
  Merged mining (\<open>crates/core/src/validation/merged_mining.rs\<close>): SHA-256 as the code spells it
  out, resuming a digest from a midstate, compressing a coinbase, and the two rules that read the
  Bitcoin header. \<open>sha\<close> is the digest of the \<open>sha2\<close> crate, \<open>dec\<close> the header decoder
  of the \<open>bitcoin\<close> crate, \<open>hmm\<close> the hash a header is merged-mined under.
\<close>

subsection \<open>SHA-256\<close>

definition K256 :: "u32 list" where
  "K256 = concat [
    [0x428a2f98, 0x71374491, 0xb5c0fbcf, 0xe9b5dba5],
    [0x3956c25b, 0x59f111f1, 0x923f82a4, 0xab1c5ed5],
    [0xd807aa98, 0x12835b01, 0x243185be, 0x550c7dc3],
    [0x72be5d74, 0x80deb1fe, 0x9bdc06a7, 0xc19bf174],
    [0xe49b69c1, 0xefbe4786, 0x0fc19dc6, 0x240ca1cc],
    [0x2de92c6f, 0x4a7484aa, 0x5cb0a9dc, 0x76f988da],
    [0x983e5152, 0xa831c66d, 0xb00327c8, 0xbf597fc7],
    [0xc6e00bf3, 0xd5a79147, 0x06ca6351, 0x14292967],
    [0x27b70a85, 0x2e1b2138, 0x4d2c6dfc, 0x53380d13],
    [0x650a7354, 0x766a0abb, 0x81c2c92e, 0x92722c85],
    [0xa2bfe8a1, 0xa81a664b, 0xc24b8b70, 0xc76c51a3],
    [0xd192e819, 0xd6990624, 0xf40e3585, 0x106aa070],
    [0x19a4c116, 0x1e376c08, 0x2748774c, 0x34b0bcb5],
    [0x391c0cb3, 0x4ed8aa4a, 0x5b9cca4f, 0x682e6ff3],
    [0x748f82ee, 0x78a5636f, 0x84c87814, 0x8cc70208],
    [0x90befffa, 0xa4506ceb, 0xbef9a3f7, 0xc67178f2]]"

definition SHA256_INITIAL_STATE :: "u32 list" where
  "SHA256_INITIAL_STATE = [0x6a09e667, 0xbb67ae85, 0x3c6ef372, 0xa54ff53a,
    0x510e527f, 0x9b05688c, 0x1f83d9ab, 0x5be0cd19]"

definition u32_from_be :: "bytes \<Rightarrow> u32" where
  "u32_from_be bs = of_nat (from_be bs)"

definition u32_to_be :: "u32 \<Rightarrow> bytes" where
  "u32_to_be w = to_be 4 (unat w)"

definition u64_to_be :: "u64 \<Rightarrow> bytes" where
  "u64_to_be w = to_be 8 (unat w)"

text \<open>The remainder that \<open>chunks_exact\<close> leaves out is dropped.\<close>

function chunks_exact :: "nat \<Rightarrow> 'a list \<Rightarrow> 'a list list" where
  "chunks_exact n xs =
     (if n = 0 \<or> length xs < n then [] else take n xs # chunks_exact n (drop n xs))"
  by pat_completeness auto
termination
  by (relation "measure (\<lambda>(n, xs). length xs)") auto

declare chunks_exact.simps [simp del]

fun extend_schedule :: "nat \<Rightarrow> u32 list \<Rightarrow> u32 list" where
  "extend_schedule 0 w = w"
| "extend_schedule (Suc k) w =
     (let i = length w;
          s0 = word_rotr 7 (w ! (i - 15)) XOR word_rotr 18 (w ! (i - 15)) XOR drop_bit 3 (w ! (i - 15));
          s1 = word_rotr 17 (w ! (i - 2)) XOR word_rotr 19 (w ! (i - 2)) XOR drop_bit 10 (w ! (i - 2))
      in extend_schedule k (w @ [w ! (i - 16) + s0 + w ! (i - 7) + s1]))"

fun sha256_round :: "u32 \<times> u32 \<Rightarrow> u32 list \<Rightarrow> u32 list" where
  "sha256_round (k, w) [a, b, c, d, e, f, g, h] =
     (let s1 = word_rotr 6 e XOR word_rotr 11 e XOR word_rotr 25 e;
          ch = (e AND f) XOR ((NOT e) AND g);
          temp1 = h + s1 + ch + k + w;
          s0 = word_rotr 2 a XOR word_rotr 13 a XOR word_rotr 22 a;
          maj = (a AND b) XOR (a AND c) XOR (b AND c);
          temp2 = s0 + maj
      in [temp1 + temp2, a, b, c, d + temp1, e, f, g])"
| "sha256_round _ st = st"

definition sha256_compress :: "u32 list \<Rightarrow> bytes \<Rightarrow> u32 list" where
  "sha256_compress state block =
     (let w = extend_schedule 48 (map u32_from_be (chunks_exact 4 block));
          out = fold sha256_round (zip K256 w) state
      in map2 (+) state out)"

function pad_zeros :: "nat \<Rightarrow> bytes \<Rightarrow> bytes" where
  "pad_zeros byte_count padded =
     (if (byte_count + length padded) mod 64 \<noteq> 56 then pad_zeros byte_count (padded @ [0]) else padded)"
  by pat_completeness auto
termination
  by (relation "measure (\<lambda>(byte_count, padded).
        let r = (byte_count + length padded) mod 64 in if r \<le> 56 then 56 - r else 120 - r)")
    (auto simp: mod_Suc Let_def)

declare pad_zeros.simps [simp del]

text \<open>
  The byte count enters the padding only modulo 64, so reading it as a natural number agrees with
  the wrapping addition of the code.
\<close>

definition sha256_from_midstate :: "u32 list \<Rightarrow> u64 \<Rightarrow> bytes \<Rightarrow> bytes" where
  "sha256_from_midstate state byte_count tail =
     (let total_len = byte_count + of_nat (length tail);
          total_bits = total_len * 8;
          padded = pad_zeros (unat byte_count) (tail @ [0x80]) @ u64_to_be total_bits;
          h = foldl sha256_compress state (chunks_exact 64 padded)
      in concat (map u32_to_be h))"

subsection \<open>Merkle proof\<close>

definition combine_left_right :: "(bytes \<Rightarrow> b256) \<Rightarrow> b256 \<Rightarrow> b256 \<Rightarrow> b256" where
  "combine_left_right sha left right = rev (sha (sha (rev left @ rev right)))"

definition rskip92_merkle_root :: "(bytes \<Rightarrow> b256) \<Rightarrow> b256 \<Rightarrow> bytes \<Rightarrow> b256" where
  "rskip92_merkle_root sha coinbase_hash proof_bytes =
     foldl (combine_left_right sha) coinbase_hash (chunks_exact 32 proof_bytes)"

subsection \<open>The coinbase\<close>

definition RSK_TAG :: bytes where
  "RSK_TAG = [0x52, 0x53, 0x4B, 0x42, 0x4C, 0x4F, 0x43, 0x4B, 0x3A]"

definition MIDSTATE_SIZE_TRIMMED :: nat where "MIDSTATE_SIZE_TRIMMED = 40"
definition BLOCK_HEADER_HASH_SIZE :: nat where "BLOCK_HEADER_HASH_SIZE = 32"
definition MAX_BYTES_AFTER_MERGED_MINING_HASH :: nat where "MAX_BYTES_AFTER_MERGED_MINING_HASH = 128"
definition HASH_FOR_MERGED_MINING_PREFIX_LENGTH :: nat where "HASH_FOR_MERGED_MINING_PREFIX_LENGTH = 20"
definition MAX_RSK_TAG_POSITION_IN_TAIL :: nat where "MAX_RSK_TAG_POSITION_IN_TAIL = 64"
definition MAX_MERGED_MINING_MERKLE_PROOF_LENGTH :: nat where "MAX_MERGED_MINING_MERKLE_PROOF_LENGTH = 960"
definition FORK_DETECTION_DATA_LENGTH :: nat where "FORK_DETECTION_DATA_LENGTH = 12"

text \<open>The positions where \<open>needle\<close> is a window of \<open>haystack\<close>, in ascending order.\<close>

definition window_positions :: "bytes \<Rightarrow> bytes \<Rightarrow> nat list" where
  "window_positions haystack needle =
     filter (\<lambda>i. take (length needle) (drop i haystack) = needle)
       [0 ..< length haystack - length needle + 1]"

definition find_last_subsequence :: "bytes \<Rightarrow> bytes \<Rightarrow> nat option" where
  "find_last_subsequence haystack needle =
     (if length haystack < length needle then None
      else case rev (window_positions haystack needle) of [] \<Rightarrow> None | i # _ \<Rightarrow> Some i)"

definition find_first_subsequence :: "bytes \<Rightarrow> bytes \<Rightarrow> nat option" where
  "find_first_subsequence haystack needle =
     (if length haystack < length needle then None
      else case window_positions haystack needle of [] \<Rightarrow> None | i # _ \<Rightarrow> Some i)"

definition compute_coinbase_hash :: "(bytes \<Rightarrow> b256) \<Rightarrow> bytes \<Rightarrow> b256 option" where
  "compute_coinbase_hash sha compressed =
     (if length compressed < MIDSTATE_SIZE_TRIMMED then None
      else
        let trimmed = take MIDSTATE_SIZE_TRIMMED compressed;
            tail = drop MIDSTATE_SIZE_TRIMMED compressed;
            byte_count = of_nat (from_be (take 8 trimmed));
            state = map u32_from_be (chunks_exact 4 (drop 8 trimmed));
            one_round = sha256_from_midstate state byte_count tail
        in Some (rev (sha one_round)))"

datatype coinbase_compression_error =
    TagNotFound
  | TagTooDeepInTail nat nat
  | HashTruncated nat nat
  | TooMuchTrailingData nat nat

definition compress_coinbase :: "bytes \<Rightarrow> bool \<Rightarrow> coinbase_compression_error + bytes" where
  "compress_coinbase coinbase last_occurrence =
     (case (if last_occurrence then find_last_subsequence coinbase RSK_TAG
            else find_first_subsequence coinbase RSK_TAG) of
        None \<Rightarrow> Inl TagNotFound
      | Some tag_position \<Rightarrow>
          let after_tag = tag_position + length RSK_TAG;
              available = length coinbase - after_tag
          in if available < BLOCK_HEADER_HASH_SIZE then Inl (HashTruncated available BLOCK_HEADER_HASH_SIZE)
             else
               let trailing = available - BLOCK_HEADER_HASH_SIZE
               in if MAX_BYTES_AFTER_MERGED_MINING_HASH < trailing
                  then Inl (TooMuchTrailingData trailing MAX_BYTES_AFTER_MERGED_MINING_HASH)
                  else
                    let bytes_to_hash = (tag_position div 64) * 64;
                        tail_tag_position = tag_position - bytes_to_hash
                    in if MAX_RSK_TAG_POSITION_IN_TAIL \<le> tail_tag_position
                       then Inl (TagTooDeepInTail tail_tag_position MAX_RSK_TAG_POSITION_IN_TAIL)
                       else
                         let state = foldl sha256_compress SHA256_INITIAL_STATE
                                       (chunks_exact 64 (take bytes_to_hash coinbase))
                         in Inr (u64_to_be (of_nat bytes_to_hash) @ concat (map u32_to_be state)
                                 @ drop bytes_to_hash coinbase))"

subsection \<open>Resuming a digest\<close>

lemma chunks_exact_append:
  assumes "n dvd length xs" "0 < n"
  shows "chunks_exact n (xs @ ys) = chunks_exact n xs @ chunks_exact n ys"
  using assms
proof (induction "length xs" arbitrary: xs rule: less_induct)
  case less
  show ?case
  proof (cases "xs = []")
    case True
    then show ?thesis using less.prems(2) by (simp add: chunks_exact.simps [of n "[]"])
  next
    case False
    then have len: "n \<le> length xs" using less.prems by (auto dest: dvd_imp_le)
    have "chunks_exact n (drop n xs @ ys) = chunks_exact n (drop n xs) @ chunks_exact n ys"
      using less.prems len False by (intro less.hyps) (auto simp: dvd_diff_nat)
    then show ?thesis
      using len less.prems(2) by (simp add: chunks_exact.simps [of n "xs @ ys"] chunks_exact.simps [of n xs])
  qed
qed

lemma chunks_exact_Cons_word [simp]:
  "length x = n \<Longrightarrow> 0 < n \<Longrightarrow> chunks_exact n (x @ ys) = x # chunks_exact n ys"
  by (simp add: chunks_exact.simps [of n "x @ ys"])

lemma chunks_exact_Nil [simp]: "chunks_exact n [] = []"
  by (subst chunks_exact.simps) auto

lemma pad_zeros_append: "pad_zeros bc (xs @ p) = xs @ pad_zeros (bc + length xs) p"
proof (induction "bc + length xs" p rule: pad_zeros.induct)
  case (1 p)
  have eq: "(bc + length (xs @ p)) mod 64 = (bc + length xs + length p) mod 64" by (simp add: ac_simps)
  show ?case
  proof (cases "(bc + length xs + length p) mod 64 = 56")
    case True
    then show ?thesis by (simp add: pad_zeros.simps [of bc] pad_zeros.simps [of "bc + length xs"] ac_simps)
  next
    case False
    with 1 have "pad_zeros bc (xs @ p @ [0]) = xs @ pad_zeros (bc + length xs) (p @ [0])" by simp
    with False eq show ?thesis
      by (simp add: pad_zeros.simps [of bc "xs @ p"] pad_zeros.simps [of "bc + length xs" p])
  qed
qed

text \<open>The digest of a whole message, from the initial state.\<close>

definition sha256 :: "bytes \<Rightarrow> b256" where
  "sha256 m = sha256_from_midstate SHA256_INITIAL_STATE 0 m"

lemma midstate_resume:
  assumes "64 dvd length xs" "length xs < 2 ^ 64"
  shows "sha256_from_midstate (foldl sha256_compress st (chunks_exact 64 xs)) (of_nat (length xs)) ys
    = sha256_from_midstate st 0 (xs @ ys)"
proof -
  have "unat (of_nat (length xs) :: u64) = length xs" using assms(2) by (simp add: unat_of_nat)
  moreover have "pad_zeros 0 (xs @ ys @ [0x80]) = xs @ pad_zeros (length xs) (ys @ [0x80])"
    using pad_zeros_append [of 0 xs "ys @ [0x80]"] by simp
  ultimately show ?thesis
    using chunks_exact_append [OF assms(1), of "pad_zeros (length xs) (ys @ [0x80]) @ rest" for rest]
    by (simp add: sha256_from_midstate_def Let_def)
qed

subsection \<open>Compression inverts the verifier\<close>

lemma u32_round_trip [simp]: "u32_from_be (u32_to_be w) = w"
proof -
  have "unat w < 2 ^ LENGTH(32)" by (rule unsigned_less)
  then show ?thesis by (simp add: u32_from_be_def u32_to_be_def from_be_to_be)
qed

lemma length_u32_to_be [simp]: "length (u32_to_be w) = 4"
  by (simp add: u32_to_be_def)

lemma state_round_trip: "map u32_from_be (chunks_exact 4 (concat (map u32_to_be st))) = st"
  by (induction st) simp_all

lemma length_sha256_round [simp]: "length (sha256_round kw st) = length st"
  by (induction kw st rule: sha256_round.induct) (auto simp: Let_def)

lemma length_fold_round [simp]: "length (fold sha256_round kws st) = length st"
  by (induction kws arbitrary: st) auto

lemma length_sha256_compress [simp]: "length (sha256_compress st blk) = length st"
  by (simp add: sha256_compress_def Let_def)

lemma length_foldl_compress [simp]: "length (foldl sha256_compress st blks) = length st"
  by (induction blks arbitrary: st) auto

lemma length_concat_u32 [simp]: "length (concat (map u32_to_be st)) = 4 * length st"
  by (induction st) simp_all

text \<open>C24. Compressing a coinbase loses nothing the verifier needs: the hash computed by resuming from
  the midstate is the double digest of the whole coinbase, for every alignment of the tag and
  whichever of several tags was chosen.\<close>

theorem compress_coinbase_hash:
  assumes "compress_coinbase coinbase last_occurrence = Inr compressed" "length coinbase < 2 ^ 64"
  shows "compute_coinbase_hash sha compressed = Some (rev (sha (sha256 coinbase)))"
proof -
  from assms(1) obtain p where p: "compressed = (let n = (p div 64) * 64 in
      u64_to_be (of_nat n)
        @ concat (map u32_to_be (foldl sha256_compress SHA256_INITIAL_STATE (chunks_exact 64 (take n coinbase))))
        @ drop n coinbase)" "(p div 64) * 64 \<le> length coinbase"
    by (auto simp: compress_coinbase_def Let_def RSK_TAG_def BLOCK_HEADER_HASH_SIZE_def
        split: option.splits if_splits)
  define n where "n = (p div 64) * 64"
  let ?xs = "take n coinbase"
  let ?st = "foldl sha256_compress SHA256_INITIAL_STATE (chunks_exact 64 ?xs)"
  have len: "length ?xs = n" "n < 2 ^ 64" using p(2) assms(2) by (auto simp: n_def)
  then have cnt: "of_nat (from_be (u64_to_be (of_nat n))) = (of_nat n :: u64)" "length (u64_to_be (of_nat n)) = 8"
    by (simp_all add: u64_to_be_def from_be_to_be unat_of_nat)
  have c: "compressed = u64_to_be (of_nat n) @ concat (map u32_to_be ?st) @ drop n coinbase"
    using p(1) by (simp add: n_def Let_def)
  have l8: "length ?st = 8" by (simp add: SHA256_INITIAL_STATE_def)
  have "64 dvd length ?xs" using len by (simp add: n_def)
  from midstate_resume [OF this, of SHA256_INITIAL_STATE "drop n coinbase"] len
  have "sha256_from_midstate ?st (of_nat n) (drop n coinbase) = sha256 coinbase"
    by (simp add: sha256_def)
  then show ?thesis
    using l8 cnt by (simp add: c compute_coinbase_hash_def MIDSTATE_SIZE_TRIMMED_def Let_def state_round_trip)
qed

subsection \<open>Evaluation on words\<close>

fun word_to_le :: "nat \<Rightarrow> 'a::len word \<Rightarrow> bytes" where
  "word_to_le 0 w = []"
| "word_to_le (Suc n) w = ucast w # word_to_le n (drop_bit 8 w)"

lemma to_le_word: "to_le n (unat w) = word_to_le n w"
proof (induction n arbitrary: w)
  case (Suc n)
  have "unat (drop_bit 8 w) = drop_bit 8 (unat w)" 
    by (simp add: unsigned_drop_bit_eq take_bit_nat_eq_self unsigned_less)
  also have "\<dots> = unat w div 2 ^ 8" by (rule drop_bit_eq_div)
  finally have "unat w div 256 = unat (drop_bit 8 w)" by simp
  moreover have "(of_nat (n mod 256) :: u8) = of_nat n" for n
    by (rule word_unat_eq_iff [THEN iffD2]) (simp add: unat_of_nat)
  then have "(of_nat (unat w mod 256) :: u8) = ucast w" by (simp add: of_nat_unat)
  ultimately show ?case using Suc [of "drop_bit 8 w"] by simp
qed simp

lemma word_bytes_code [code]:
  "u32_to_be w = rev (word_to_le 4 w)" "u64_to_be v = rev (word_to_le 8 v)"
  by (simp_all add: u32_to_be_def u64_to_be_def to_be_def to_le_word)

lemma from_be_foldl: "of_nat (from_be bs) = foldl (\<lambda>acc b. acc * 256 + ucast b) (0 :: 'a::len word) bs"
proof (induction bs rule: rev_induct)
  case (snoc b bs)
  have "(of_nat (unat b) :: 'a word) = ucast b" by (rule of_nat_unat)
  then show ?case using snoc by (simp add: from_be_snoc mult.commute)
qed simp

lemma u32_from_be_code [code]: "u32_from_be bs = foldl (\<lambda>acc b. acc * 256 + ucast b) 0 bs"
  by (simp add: u32_from_be_def from_be_foldl)

lemma sha256_abc:
  "sha256 [0x61, 0x62, 0x63] =
     [0xba, 0x78, 0x16, 0xbf, 0x8f, 0x01, 0xcf, 0xea, 0x41, 0x41, 0x40, 0xde, 0x5d, 0xae, 0x22, 0x23,
      0xb0, 0x03, 0x61, 0xa3, 0x96, 0x17, 0x7a, 0x9c, 0xb4, 0x10, 0xff, 0x61, 0xf2, 0x00, 0x15, 0xad]"
  by code_simp

text \<open>A tag in the second block of the coinbase, so that a whole block goes into the midstate.\<close>

theorem compress_coinbase_hash_witness:
  "\<exists>c. compress_coinbase (replicate 70 0xAB @ RSK_TAG @ replicate 32 0xCD) True = Inr c
     \<and> compute_coinbase_hash sha256 c = Some (rev (sha256 (sha256 (replicate 70 0xAB @ RSK_TAG @ replicate 32 0xCD))))"
proof -
  let ?cb = "replicate 70 0xAB @ RSK_TAG @ replicate 32 0xCD :: bytes"
  have "find_last_subsequence ?cb RSK_TAG = Some 70" by code_simp
  then obtain c where "compress_coinbase ?cb True = Inr c"
    by (simp add: compress_coinbase_def Let_def BLOCK_HEADER_HASH_SIZE_def
        MAX_BYTES_AFTER_MERGED_MINING_HASH_def MAX_RSK_TAG_POSITION_IN_TAIL_def RSK_TAG_def)
  then show ?thesis using compress_coinbase_hash [of ?cb True c sha256] by (simp add: RSK_TAG_def)
qed

end
