(* ===== verification/Mining_Rules.thy ===== *)
theory Mining_Rules
  imports Merged_Mining
begin

text \<open>
  The two header rules on merged mining and the fork-detection data
  (\<open>crates/core/src/validation/merged_mining.rs\<close>, \<open>fork_detection.rs\<close>), and the verifier that
  runs the header rules (\<open>mod.rs\<close>).
\<close>

subsection \<open>Rules\<close>

record btc_header =
  btc_time :: u32
  btc_merkle_root :: b256
  btc_block_hash :: b256

definition DEFAULT_MAX_TIMESTAMPS_DIFF_IN_SECS :: u64 where "DEFAULT_MAX_TIMESTAMPS_DIFF_IN_SECS = 300"
definition TESTNET_MAX_TIMESTAMPS_DIFF_IN_SECS :: u64 where "TESTNET_MAX_TIMESTAMPS_DIFF_IN_SECS = 7200"
definition TESTNET_CHAIN_ID :: u8 where "TESTNET_CHAIN_ID = 31"

definition max_timestamps_diff :: "chain_config \<Rightarrow> u64 \<Rightarrow> u64" where
  "max_timestamps_diff config number =
     (if chain_id config = TESTNET_CHAIN_ID \<and> hop400 (activations config) \<le> number
      then TESTNET_MAX_TIMESTAMPS_DIFF_IN_SECS else DEFAULT_MAX_TIMESTAMPS_DIFF_IN_SECS)"

definition abs_diff :: "u64 \<Rightarrow> u64 \<Rightarrow> u64" where
  "abs_diff a b = (if a < b then b - a else a - b)"

definition bitcoin_timestamp_rule :: "(bytes \<Rightarrow> btc_header option) \<Rightarrow> chain_config \<Rightarrow> header \<Rightarrow> verdict" where
  "bitcoin_timestamp_rule dec config h =
     (if hd_number h < iris300 (activations config) then Accept
      else case bitcoin_merged_mining_header h of
        None \<Rightarrow> Reject BitcoinHeaderDecodeError
      | Some raw \<Rightarrow>
          (case dec raw of
             None \<Rightarrow> Reject BitcoinHeaderDecodeError
           | Some btc_h \<Rightarrow>
               let btc = ucast (btc_time btc_h); rsk = timestamp h; mx = max_timestamps_diff config (hd_number h)
               in if mx \<le> abs_diff rsk btc then Reject (BitcoinTimestampTooFar rsk btc mx) else Accept))"

text \<open>The coinbase part of the rule: the tag, its position and what follows it.\<close>

definition check_coinbase_tag :: "bytes \<Rightarrow> bytes \<Rightarrow> verdict" where
  "check_coinbase_tag tail expected_tag =
     (case find_last_subsequence tail expected_tag of
        None \<Rightarrow> Reject BitcoinCoinbaseTagInvalid
      | Some pos \<Rightarrow>
          if MAX_RSK_TAG_POSITION_IN_TAIL \<le> pos then Reject BitcoinCoinbaseTagInvalid
          else case find_last_subsequence tail RSK_TAG of
            None \<Rightarrow> Reject BitcoinCoinbaseTagInvalid
          | Some last_tag \<Rightarrow>
              if pos \<noteq> last_tag then Reject BitcoinCoinbaseTagInvalid
              else if length tail < pos + length RSK_TAG + BLOCK_HEADER_HASH_SIZE
              then Reject BitcoinCoinbaseTagInvalid
              else if MAX_BYTES_AFTER_MERGED_MINING_HASH
                        < length tail - pos - length RSK_TAG - BLOCK_HEADER_HASH_SIZE
              then Reject BitcoinCoinbaseTagInvalid
              else Accept)"

definition check_merkle_proof ::
  "(bytes \<Rightarrow> b256) \<Rightarrow> chain_config \<Rightarrow> header \<Rightarrow> bytes \<Rightarrow> b256 \<Rightarrow> verdict" where
  "check_merkle_proof sha config h compressed root =
     (case compute_coinbase_hash sha compressed of
        None \<Rightarrow> Panics
      | Some coinbase_hash \<Rightarrow>
          (case bitcoin_merged_mining_merkle_proof h of
             None \<Rightarrow> Reject BitcoinMerkleProofDecodeError
           | Some pf \<Rightarrow>
               if iris300 (activations config) \<le> hd_number h \<and> MAX_MERGED_MINING_MERKLE_PROOF_LENGTH < length pf
               then Reject (MerkleProofTooLarge MAX_MERGED_MINING_MERKLE_PROOF_LENGTH (length pf))
               else if length pf mod 32 \<noteq> 0 then Reject BitcoinMerkleProofDecodeError
               else
                 let computed_root = rskip92_merkle_root sha coinbase_hash pf
                 in if computed_root \<noteq> root \<and> rev computed_root \<noteq> root
                    then Reject BitcoinMerkleProofInvalid else Accept))"

definition expected_tag_of :: "(header \<Rightarrow> b256) \<Rightarrow> chain_config \<Rightarrow> header \<Rightarrow> bytes" where
  "expected_tag_of hmm config h =
     (if wasabi100 (activations config) \<le> hd_number h
      then RSK_TAG @ take HASH_FOR_MERGED_MINING_PREFIX_LENGTH (hmm h) else RSK_TAG @ hmm h)"

definition merged_mining_rule ::
  "(bytes \<Rightarrow> btc_header option) \<Rightarrow> (bytes \<Rightarrow> b256) \<Rightarrow> (header \<Rightarrow> b256) \<Rightarrow> chain_config \<Rightarrow> header \<Rightarrow> verdict" where
  "merged_mining_rule dec sha hmm config h =
     (if hd_number h < orchid (activations config) then Accept
      else case bitcoin_merged_mining_header h of
        None \<Rightarrow> Reject BitcoinHeaderDecodeError
      | Some raw \<Rightarrow>
          (case dec raw of
             None \<Rightarrow> Reject BitcoinHeaderDecodeError
           | Some btc \<Rightarrow>
               if difficulty h = 0 then Reject DifficultyZero
               else
                 let target = (if (- 1) < difficulty h then 0 else (- 1) div difficulty h);
                     btc_hash = of_nat (from_le (btc_block_hash btc))
                 in if target < btc_hash then Reject (BitcoinPowInvalid (btc_block_hash btc) target)
                    else case bitcoin_merged_mining_coinbase_transaction h of
                      None \<Rightarrow> Reject BitcoinCoinbaseDecodeError
                    | Some compressed \<Rightarrow>
                        if length compressed < MIDSTATE_SIZE_TRIMMED + 1
                        then Reject BitcoinCoinbaseDecodeError
                        else and_then
                          (check_coinbase_tag (drop MIDSTATE_SIZE_TRIMMED compressed) (expected_tag_of hmm config h))
                          (check_merkle_proof sha config h compressed (btc_merkle_root btc))))"

definition extract_fork_detection_data :: "(header \<Rightarrow> b256) \<Rightarrow> header \<Rightarrow> bytes option" where
  "extract_fork_detection_data hmm h =
     (case bitcoin_merged_mining_coinbase_transaction h of
        None \<Rightarrow> None
      | Some compressed \<Rightarrow>
          if length compressed < MIDSTATE_SIZE_TRIMMED + 1 then None
          else
            let tail = drop MIDSTATE_SIZE_TRIMMED compressed;
                prefix = RSK_TAG @ take HASH_FOR_MERGED_MINING_PREFIX_LENGTH (hmm h)
            in case find_last_subsequence tail prefix of
                 None \<Rightarrow> None
               | Some position \<Rightarrow>
                   let from = position + length prefix; upto = from + FORK_DETECTION_DATA_LENGTH
                   in if length tail < upto then None else Some (slice_of from upto tail))"

subsection \<open>Fork detection\<close>

definition CPV_SIZE :: nat where "CPV_SIZE = 7"
definition CPV_JUMP_FACTOR :: u64 where "CPV_JUMP_FACTOR = 64"
definition NUMBER_OF_UNCLES :: nat where "NUMBER_OF_UNCLES = 32"
definition REQUIRED_BLOCKS :: u64 where "REQUIRED_BLOCKS = 449"

definition btc_hash_least_significant_byte :: "(bytes \<Rightarrow> btc_header option) \<Rightarrow> header \<Rightarrow> u8 option" where
  "btc_hash_least_significant_byte dec h =
     (case bitcoin_merged_mining_header h of
        None \<Rightarrow> None
      | Some raw \<Rightarrow> (case dec raw of None \<Rightarrow> None | Some btc \<Rightarrow> Some (hd (btc_block_hash btc))))"

fun cpv_bytes :: "(bytes \<Rightarrow> btc_header option) \<Rightarrow> header list \<Rightarrow> u64 \<Rightarrow> nat list \<Rightarrow> bytes option" where
  "cpv_bytes dec headers offset [] = Some []"
| "cpv_bytes dec headers offset (i # is) =
     (let index = offset + of_nat i * CPV_JUMP_FACTOR
      in if length headers \<le> unat index then None
         else case btc_hash_least_significant_byte dec (headers ! unat index) of
                None \<Rightarrow> None
              | Some b \<Rightarrow> map_option ((#) b) (cpv_bytes dec headers offset is))"

definition calculate_fork_data :: "(bytes \<Rightarrow> btc_header option) \<Rightarrow> header list \<Rightarrow> bytes option" where
  "calculate_fork_data dec headers =
     (if of_nat (length headers) < REQUIRED_BLOCKS then None
      else
        let best_height = hd_number (headers ! 0);
            cpv_start = (best_height div CPV_JUMP_FACTOR) * CPV_JUMP_FACTOR
        in case cpv_bytes dec headers (best_height - cpv_start) [0 ..< CPV_SIZE] of
             None \<Rightarrow> None
           | Some cpv \<Rightarrow>
               let uncle_sum = sum_list (map uncle_count (take NUMBER_OF_UNCLES headers));
                   uncle_byte = ucast (min uncle_sum 255);
                   height_being_mined = (ucast (best_height + 1) :: u32)
               in Some (cpv @ [uncle_byte] @ u32_to_be height_being_mined))"

definition validate_fork_data ::
  "(bytes \<Rightarrow> btc_header option) \<Rightarrow> (b256 \<Rightarrow> u64 \<Rightarrow> header list) \<Rightarrow> header \<Rightarrow> bytes option \<Rightarrow> u64 \<Rightarrow> verdict" where
  "validate_fork_data dec headers_from h actual rskip110_height =
     (if hd_number h < rskip110_height then Accept
      else if hd_number h < REQUIRED_BLOCKS
      then (case actual of Some _ \<Rightarrow> Reject ForkDetectionDataUnreadable | None \<Rightarrow> Accept)
      else case actual of
        None \<Rightarrow> Reject ForkDetectionDataUnreadable
      | Some got \<Rightarrow>
          (case calculate_fork_data dec (headers_from (parent_hash h) REQUIRED_BLOCKS) of
             None \<Rightarrow> Reject ForkDetectionDataUnreadable
           | Some expected \<Rightarrow>
               if expected \<noteq> got then Reject (ForkDetectionDataMismatch expected got) else Accept))"

subsection \<open>The verifiers\<close>

record header_verifier =
  static_rules :: "(header \<Rightarrow> verdict) list"
  parent_rules :: "(header \<Rightarrow> header \<Rightarrow> verdict) list"

definition hv_new :: header_verifier where
  "hv_new = \<lparr> static_rules = [], parent_rules = [] \<rparr>"

definition with_static_rule :: "(header \<Rightarrow> verdict) \<Rightarrow> header_verifier \<Rightarrow> header_verifier" where
  "with_static_rule r v = v\<lparr> static_rules := static_rules v @ [r] \<rparr>"

definition with_parent_rule :: "(header \<Rightarrow> header \<Rightarrow> verdict) \<Rightarrow> header_verifier \<Rightarrow> header_verifier" where
  "with_parent_rule r v = v\<lparr> parent_rules := parent_rules v @ [r] \<rparr>"

definition default_rsk ::
  "(bytes \<Rightarrow> btc_header option) \<Rightarrow> (bytes \<Rightarrow> b256) \<Rightarrow> (header \<Rightarrow> b256) \<Rightarrow> u64 option \<Rightarrow> chain_config
   \<Rightarrow> header_verifier" where
  "default_rsk dec sha hmm clock config =
     with_parent_rule (difficulty_rule config)
     (with_parent_rule prev_min_gas_price_rule
     (with_parent_rule (parent_gas_limit_rule config)
     (with_parent_rule (timestamp_rule (max_future_block_time config) clock)
     (with_parent_rule block_number_rule
     (with_static_rule (extra_data_rule 32)
     (with_static_rule (bitcoin_timestamp_rule dec config)
     (with_static_rule (merged_mining_rule dec sha hmm config)
     (with_static_rule (gas_limit_bounds_rule (min_gas_limit config) (max_gas_limit config))
     (with_static_rule gas_used_rule hv_new)))))))))"

definition verify_against_parent :: "header_verifier \<Rightarrow> header \<Rightarrow> header \<Rightarrow> verdict" where
  "verify_against_parent v h parent = all_rules (\<lambda>r. r h parent) (parent_rules v)"

definition verify :: "header_verifier \<Rightarrow> header \<Rightarrow> header option \<Rightarrow> verdict" where
  "verify v h parent =
     and_then (all_rules (\<lambda>r. r h) (static_rules v))
       (case parent of None \<Rightarrow> Accept | Some p \<Rightarrow> all_rules (\<lambda>r. r h p) (parent_rules v))"

definition block_rules :: "chain_config \<Rightarrow> (block \<Rightarrow> verdict) list" where
  "block_rules config =
     [txs_min_gas_price_rule, txs_max_gas_price_rule (fingerroot500 (activations config)), remasc_validation_rule]"

definition verify_block :: "(block \<Rightarrow> verdict) list \<Rightarrow> block \<Rightarrow> verdict" where
  "verify_block rules b = all_rules (\<lambda>r. r b) rules"

subsection \<open>Finding the tag\<close>

definition occurs_at :: "bytes \<Rightarrow> bytes \<Rightarrow> nat \<Rightarrow> bool" where
  "occurs_at hs nd i = (i + length nd \<le> length hs \<and> take (length nd) (drop i hs) = nd)"

lemma last_of_filter:
  "(case rev (filter P [0 ..< n]) of [] \<Rightarrow> None | i # _ \<Rightarrow> Some i) = Some k
     \<longleftrightarrow> k < n \<and> P k \<and> (\<forall>j. k < j \<longrightarrow> j < n \<longrightarrow> \<not> P j)"
  by (induction n) (auto simp: less_Suc_eq)

lemma find_last_iff:
  "find_last_subsequence hs nd = Some i \<longleftrightarrow> occurs_at hs nd i \<and> (\<forall>j > i. \<not> occurs_at hs nd j)"
proof (cases "length hs < length nd")
  case True
  then show ?thesis by (auto simp: find_last_subsequence_def occurs_at_def)
next
  case False
  then have rng: "j < length hs - length nd + 1 \<longleftrightarrow> j + length nd \<le> length hs" for j by auto
  have "find_last_subsequence hs nd = Some i
    \<longleftrightarrow> i + length nd \<le> length hs \<and> take (length nd) (drop i hs) = nd
      \<and> (\<forall>j. i < j \<longrightarrow> j + length nd \<le> length hs \<longrightarrow> take (length nd) (drop j hs) \<noteq> nd)"
    unfolding find_last_subsequence_def window_positions_def if_not_P [OF False] last_of_filter rng ..
  then show ?thesis by (auto simp only: occurs_at_def)
qed

lemma occurs_at_drop: "m \<le> length hs \<Longrightarrow> occurs_at (drop m hs) nd j \<longleftrightarrow> occurs_at hs nd (m + j)"
  by (auto simp: occurs_at_def ac_simps)

lemma occurs_at_prefix: "occurs_at hs (a @ b) i \<Longrightarrow> occurs_at hs a i"
  by (auto simp: occurs_at_def take_add)

lemma find_last_drop:
  assumes "find_last_subsequence hs nd = Some p" "m \<le> p"
  shows "find_last_subsequence (drop m hs) nd = Some (p - m)"
proof -
  have "m \<le> length hs" using assms by (auto simp: find_last_iff occurs_at_def)
  with assms show ?thesis by (auto simp: find_last_iff occurs_at_drop)
qed

lemma find_last_longer:
  assumes "find_last_subsequence hs a = Some p" "occurs_at hs (a @ b) p"
  shows "find_last_subsequence hs (a @ b) = Some p"
  using assms by (auto simp: find_last_iff dest: occurs_at_prefix)

text \<open>What a successful compression keeps.\<close>

lemma compress_coinbaseE:
  assumes "compress_coinbase cb True = Inr cc"
  obtains p m where "find_last_subsequence cb RSK_TAG = Some p" "m \<le> p" "p < m + 64"
    "p + 41 \<le> length cb" "length cb \<le> p + 169" "drop 40 cc = drop m cb" "41 \<le> length cc"
proof -
  from assms obtain p where p: "find_last_subsequence cb RSK_TAG = Some p"
    "p + 41 \<le> length cb" "length cb \<le> p + 169"
    "cc = u64_to_be (of_nat (p div 64 * 64))
       @ concat (map u32_to_be (foldl sha256_compress SHA256_INITIAL_STATE (chunks_exact 64 (take (p div 64 * 64) cb))))
       @ drop (p div 64 * 64) cb"
    by (auto simp: compress_coinbase_def Let_def RSK_TAG_def BLOCK_HEADER_HASH_SIZE_def
        MAX_BYTES_AFTER_MERGED_MINING_HASH_def split: option.splits if_splits)
  let ?m = "p div 64 * 64"
  have "length (u64_to_be (of_nat ?m)) = 8" by (simp add: u64_to_be_def)
  then have "drop 40 cc = drop ?m cb" "41 \<le> length cc"
    using p(2,4) by (auto simp: SHA256_INITIAL_STATE_def)
  moreover have "?m \<le> p" "p < ?m + 64" by auto
  ultimately show ?thesis using that p(1-3) by blast
qed

lemma tag_in_compressed:
  assumes c: "compress_coinbase cb True = Inr cc" and p: "find_last_subsequence cb RSK_TAG = Some p"
    and x: "take (length x) (drop (p + 9) cb) = x" "length x \<le> 32"
  shows "check_coinbase_tag (drop 40 cc) (RSK_TAG @ x) = Accept"
    and "\<exists>i. find_last_subsequence (drop 40 cc) (RSK_TAG @ x) = Some i
           \<and> (\<forall>k. drop (i + k) (drop 40 cc) = drop (p + k) cb)"
proof -
  obtain m where m: "m \<le> p" "p < m + 64" "p + 41 \<le> length cb" "length cb \<le> p + 169"
    "drop 40 cc = drop m cb"
    using compress_coinbaseE [OF c] p by (metis option.inject)
  have tag: "length RSK_TAG = 9" by (simp add: RSK_TAG_def)
  have "occurs_at cb RSK_TAG p" using p by (simp add: find_last_iff)
  moreover have "take (length x) (drop (9 + p) cb) = x" using x(1) by (simp add: add.commute)
  ultimately have "occurs_at cb (RSK_TAG @ x) p"
    using x(2) m(3) tag by (auto simp: occurs_at_def take_add)
  then have f: "find_last_subsequence (drop m cb) (RSK_TAG @ x) = Some (p - m)"
    "find_last_subsequence (drop m cb) RSK_TAG = Some (p - m)"
    using find_last_longer [OF p] find_last_drop m(1) p by auto
  then show "check_coinbase_tag (drop 40 cc) (RSK_TAG @ x) = Accept"
    using m tag by (auto simp: check_coinbase_tag_def MAX_RSK_TAG_POSITION_IN_TAIL_def
        BLOCK_HEADER_HASH_SIZE_def MAX_BYTES_AFTER_MERGED_MINING_HASH_def)
  show "\<exists>i. find_last_subsequence (drop 40 cc) (RSK_TAG @ x) = Some i
           \<and> (\<forall>k. drop (i + k) (drop 40 cc) = drop (p + k) cb)"
    using f(1) m(1,5) by (intro exI [of _ "p - m"]) (simp add: add.commute)
qed

subsection \<open>A mined header is accepted\<close>

text \<open>C23. A header mined the way the node mines passes the merged-mining rule: its coinbase is
  compressed by the node, carries after the last tag the hash the header is mined under (its first
  20 bytes from wasabi on), the Bitcoin block meets the difficulty and the proof leads from the
  coinbase to its Merkle root. The fork-detection bytes read back are the 12 that follow.\<close>

theorem mined_header_accepted:
  assumes btc: "bitcoin_merged_mining_header h = Some raw" "dec raw = Some btc"
    and pow: "difficulty h \<noteq> 0" "of_nat (from_le (btc_block_hash btc)) \<le> (- 1) div difficulty h"
    and cb: "compress_coinbase cb True = Inr compressed"
      "bitcoin_merged_mining_coinbase_transaction h = Some compressed" "length cb < 2 ^ 64"
    and tag: "find_last_subsequence cb RSK_TAG = Some p" "length (hmm h) = 32"
      "take k (drop (p + 9) cb) = take k (hmm h)"
      "k = (if wasabi100 (activations config) \<le> hd_number h then 20 else 32)"
    and pf: "bitcoin_merged_mining_merkle_proof h = Some pf" "length pf \<le> 960" "length pf mod 32 = 0"
      "rskip92_merkle_root sha (rev (sha (sha256 cb))) pf = btc_merkle_root btc"
  shows "merged_mining_rule dec sha hmm config h = Accept
    \<and> (take 20 (drop (p + 9) cb) = take 20 (hmm h)
         \<longrightarrow> extract_fork_detection_data hmm h = Some (take 12 (drop (p + 29) cb)))"
proof -
  define x where "x = take k (hmm h)"
  have k: "k \<le> 32" using tag(4) by auto
  have x: "take (length x) (drop (p + 9) cb) = x" "length x \<le> 32" "expected_tag_of hmm config h = RSK_TAG @ x"
    using tag k by (auto simp: x_def expected_tag_of_def HASH_FOR_MERGED_MINING_PREFIX_LENGTH_def)
  have long: "41 \<le> length compressed" "p + 41 \<le> length cb"
    using compress_coinbaseE [OF cb(1)] tag(1) by (metis option.inject)+
  have "check_coinbase_tag (drop 40 compressed) (expected_tag_of hmm config h) = Accept"
    using tag_in_compressed(1) [OF cb(1) tag(1) x(1,2)] x(3) by simp
  moreover have "check_merkle_proof sha config h compressed (btc_merkle_root btc) = Accept"
    using compress_coinbase_hash [OF cb(1,3)] pf
    by (simp add: check_merkle_proof_def MAX_MERGED_MINING_MERKLE_PROOF_LENGTH_def)
  ultimately have "merged_mining_rule dec sha hmm config h = Accept"
    using btc pow cb(2) long
    by (auto simp: merged_mining_rule_def Let_def MIDSTATE_SIZE_TRIMMED_def not_less)
  moreover have "extract_fork_detection_data hmm h = Some (take 12 (drop (p + 29) cb))"
    if eq: "take 20 (drop (p + 9) cb) = take 20 (hmm h)"
  proof -
    let ?y = "take 20 (hmm h)"
    have y: "length ?y = 20" using tag(2) by simp
    then obtain i where i: "find_last_subsequence (drop 40 compressed) (RSK_TAG @ ?y) = Some i"
      "\<forall>n. drop (i + n) (drop 40 compressed) = drop (p + n) cb"
      using tag_in_compressed(2) [OF cb(1) tag(1), of ?y] eq by auto
    have "length (drop (i + 29) (drop 40 compressed)) = length cb - (p + 29)"
      using i(2) by (metis length_drop)
    then have "i + 41 \<le> length (drop 40 compressed)" using long(2) by simp
    moreover have "length RSK_TAG = 9" by (simp add: RSK_TAG_def)
    moreover have "drop (i + 69) compressed = drop (p + 29) cb"
      using i(2) [THEN spec, of 29] by (simp add: ac_simps)
    ultimately show ?thesis
      using cb(2) long(1) i(1) y
      by (simp add: extract_fork_detection_data_def Let_def MIDSTATE_SIZE_TRIMMED_def slice_of_def
          HASH_FOR_MERGED_MINING_PREFIX_LENGTH_def FORK_DETECTION_DATA_LENGTH_def ac_simps)
  qed
  ultimately show ?thesis by auto
qed

definition sample_coinbase :: bytes where
  "sample_coinbase = RSK_TAG @ replicate 32 0xCD"

definition sample_mined :: header where
  "sample_mined = (sample_header 1 1 [])\<lparr> bitcoin_merged_mining_header := Some [],
     bitcoin_merged_mining_merkle_proof := Some [],
     bitcoin_merged_mining_coinbase_transaction := Some (projr (compress_coinbase sample_coinbase True)) \<rparr>"

theorem mined_header_accepted_witness:
  "merged_mining_rule (\<lambda>_. Some \<lparr> btc_time = 0, btc_merkle_root = replicate 32 0, btc_block_hash = replicate 32 0 \<rparr>)
     (\<lambda>_. replicate 32 0) (\<lambda>_. replicate 32 0xCD) config_regtest sample_mined = Accept"
proof -
  let ?btc = "\<lparr> btc_time = 0, btc_merkle_root = replicate 32 0, btc_block_hash = replicate 32 0 \<rparr>"
  have f: "find_last_subsequence sample_coinbase RSK_TAG = Some 0" by code_simp
  then have c: "compress_coinbase sample_coinbase True = Inr (projr (compress_coinbase sample_coinbase True))"
    by (simp add: compress_coinbase_def Let_def BLOCK_HEADER_HASH_SIZE_def sample_coinbase_def
        MAX_BYTES_AFTER_MERGED_MINING_HASH_def MAX_RSK_TAG_POSITION_IN_TAIL_def RSK_TAG_def)
  have w: "wasabi100 (activations config_regtest) \<le> hd_number sample_mined" by code_simp
  show ?thesis
    by (rule mined_header_accepted [where btc = ?btc and raw = "[]" and cb = sample_coinbase and p = 0 and pf = "[]"
          and compressed = "projr (compress_coinbase sample_coinbase True)" and k = 20, THEN conjunct1])
      (use f c w in \<open>simp_all add: sample_mined_def sample_header_def sample_coinbase_def RSK_TAG_def
         rskip92_merkle_root_def\<close>)
qed

subsection \<open>What an accepted header satisfies\<close>

lemma gas_limit_as_u64_Some: "gas_limit_as_u64 g = Some l \<Longrightarrow> unat l = unat g"
  by (auto simp: gas_limit_as_u64_def unsigned_ucast_eq unsigned_take_bit_eq take_bit_nat_eq_self split: if_splits)

lemma gas_limits_accepted:
  assumes "gas_used_rule h = Accept" "gas_limit_bounds_rule lo hi h = Accept"
  shows "unat (gas_used h) \<le> unat (gas_limit h)" "unat lo \<le> unat (gas_limit h)" "unat (gas_limit h) \<le> unat hi"
  using assms
  by (auto simp: gas_used_rule_def gas_limit_bounds_rule_def word_less_nat_alt not_less
      dest!: gas_limit_as_u64_Some split: option.splits if_splits)

lemma unat_add_small: "unat a + unat b < 2 ^ LENGTH('a) \<Longrightarrow> unat (a + b) = unat a + unat b" for a b :: "'a::len word"
  by (simp add: unat_word_ariths)

lemma parent_gas_limit_accepted:
  assumes r: "parent_gas_limit_rule config h p = Accept"
    and small: "unat (gas_limit p) + unat (gas_limit p) div unat (gas_limit_bound_divisor config) < 2 ^ 64"
  shows "unat (gas_limit p) \<le> unat (gas_limit h) + unat (gas_limit p) div unat (gas_limit_bound_divisor config)"
    "unat (gas_limit h) \<le> unat (gas_limit p) + unat (gas_limit p) div unat (gas_limit_bound_divisor config)"
proof -
  let ?d = "gas_limit_bound_divisor config"
  from r obtain l pl where l: "unat l = unat (gas_limit h)" "unat pl = unat (gas_limit p)"
    and ok: "pl - pl div ?d \<le> l" "l \<le> pl + pl div ?d"
    by (auto simp: parent_gas_limit_rule_def Let_def not_less dest!: gas_limit_as_u64_Some
        split: option.splits if_splits)
  have q: "unat (pl div ?d) = unat (gas_limit p) div unat ?d" using l by (simp add: unat_div)
  have "unat (pl - pl div ?d) = unat pl - unat (pl div ?d)"
    by (rule unat_sub) (simp add: word_le_nat_alt unat_div)
  then show "unat (gas_limit p) \<le> unat (gas_limit h) + unat (gas_limit p) div unat ?d"
    using ok(1) l q by (simp add: word_le_nat_alt)
  have "unat (pl + pl div ?d) = unat pl + unat (pl div ?d)"
    using small l q by (intro unat_add_small) simp
  then show "unat (gas_limit h) \<le> unat (gas_limit p) + unat (gas_limit p) div unat ?d"
    using ok(2) l q by (simp add: word_le_nat_alt)
qed

lemma min_gas_price_accepted:
  assumes "prev_min_gas_price_rule h p = Accept" "hd_number h \<noteq> 0"
  shows "unat (minimum_gas_price p) \<le> unat (minimum_gas_price h) + max 1 (unat (minimum_gas_price p) div 100)"
    "unat (minimum_gas_price h) \<le> unat (minimum_gas_price p) + max 1 (unat (minimum_gas_price p) div 100)"
proof -
  let ?c = "minimum_gas_price p"
  define delta where "delta = (if ?c div 100 = 0 then 1 else ?c div 100)"
  have q: "unat (?c div 100) = unat ?c div 100" by (simp add: unat_div)
  then have d: "unat delta = max 1 (unat ?c div 100)"
    by (auto simp: delta_def word_unat_eq_iff)
  have "saturating_sub ?c delta \<le> minimum_gas_price h" "minimum_gas_price h \<le> saturating_add ?c delta"
    using assms by (auto simp: prev_min_gas_price_rule_def min_gas_price_range_def Let_def delta_def not_less
        split: if_splits)
  then show "unat ?c \<le> unat (minimum_gas_price h) + max 1 (unat ?c div 100)"
    "unat (minimum_gas_price h) \<le> unat ?c + max 1 (unat ?c div 100)"
    by (simp_all add: word_le_nat_alt unat_saturating_sub unat_saturating_add d)
qed

lemma merged_mining_work:
  assumes "merged_mining_rule dec sha hmm config h = Accept" "orchid (activations config) \<le> hd_number h"
    "\<And>raw b. dec raw = Some b \<Longrightarrow> length (btc_block_hash b) = 32"
  shows "\<exists>raw btc. bitcoin_merged_mining_header h = Some raw \<and> dec raw = Some btc
    \<and> from_le (btc_block_hash btc) * unat (difficulty h) < 2 ^ 256 \<and> difficulty h \<noteq> 0"
proof -
  from assms(1,2) obtain raw btc where b: "bitcoin_merged_mining_header h = Some raw" "dec raw = Some btc"
    "difficulty h \<noteq> 0" "(of_nat (from_le (btc_block_hash btc)) :: u256) \<le> (- 1) div difficulty h"
    by (auto simp: merged_mining_rule_def Let_def not_less split: option.splits if_splits)
  let ?x = "from_le (btc_block_hash btc)"
  have "?x < 2 ^ 256" using from_le_bound [of "btc_block_hash btc"] assms(3) [OF b(2)] by simp
  then have "unat (of_nat ?x :: u256) = ?x" by (simp add: unat_of_nat)
  then have "?x \<le> unat ((- 1) div difficulty h)" using b(4) by (metis word_le_nat_alt)
  then have "?x \<le> (2 ^ 256 - 1) div unat (difficulty h)"
    by (simp only: unat_div unat_minus_one_word_max) simp
  then have "?x * unat (difficulty h) \<le> 2 ^ 256 - 1"
    using b(3) by (meson div_times_less_eq_dividend mult_le_mono1 order.trans)
  then have "?x * unat (difficulty h) < 2 ^ 256" by (simp add: le_imp_less_Suc)
  then show ?thesis using b by blast
qed


lemma gas_limit_as_u64_code [code]:
  "gas_limit_as_u64 g = (if g < 0x10000000000000000 then Some (ucast g) else None)"
  by (simp add: gas_limit_as_u64_def word_less_nat_alt)

definition sample_child :: header where
  "sample_child = (sample_header 1 1 [0, 0])\<lparr> gas_limit := 3000000, timestamp := 14 \<rparr>"

definition sample_parent :: header where
  "sample_parent = (sample_header 0 0 [])\<lparr> gas_limit := 3000000 \<rparr>"


subsection \<open>Difficulty\<close>

definition divisor_of :: "chain_config \<Rightarrow> header \<Rightarrow> nat" where
  "divisor_of config h =
     (if papyrus200 (activations config) \<le> hd_number h then 400 else unat (difficulty_divisor config))"

lemma difficulty_cong:
  "hd_number h' = hd_number h \<Longrightarrow> timestamp h' = timestamp h \<Longrightarrow> uncle_count h' = uncle_count h
     \<Longrightarrow> calculate_expected_difficulty config h' p = calculate_expected_difficulty config h p"
  by (simp add: calculate_expected_difficulty_def rskip97_active_def Let_def cong: option.case_cong if_cong)



end
