(* ===== verification/Uncles.thy ===== *)
theory Uncles
  imports Mining_Rules
begin

text \<open>
  The uncle rule (\<open>crates/core/src/validation/uncles.rs\<close>). The store behind the trait
  \<open>AncestorSource\<close> is a pair of functions, the header of a hash and the uncles of a block. The
  two walks follow parent hashes with no bound of their own: on a store whose parent links form a
  cycle they do not return, which is the value \<open>None\<close> here.
\<close>

subsection \<open>Definitions\<close>

definition UNCLE_LIST_LIMIT :: nat where "UNCLE_LIST_LIMIT = 10"
definition UNCLE_GENERATION_LIMIT :: u64 where "UNCLE_GENERATION_LIMIT = 7"

record ancestor_source =
  as_header :: "b256 \<Rightarrow> header option"
  as_uncles_of :: "b256 \<Rightarrow> header list"

partial_function (option) ancestors_loop ::
  "ancestor_source \<Rightarrow> u64 \<Rightarrow> b256 \<Rightarrow> b256 set \<Rightarrow> b256 set option" where
  "ancestors_loop src floor h out =
     (case as_header src h of
        None \<Rightarrow> Some out
      | Some hdr \<Rightarrow>
          if hd_number hdr < floor then Some out
          else if hd_number hdr = 0 then Some (insert h out)
          else ancestors_loop src floor (parent_hash hdr) (insert h out))"

definition ancestors :: "ancestor_source \<Rightarrow> u64 \<Rightarrow> b256 \<Rightarrow> u64 \<Rightarrow> b256 set option" where
  "ancestors src block_number ph limit = ancestors_loop src (saturating_sub block_number limit) ph {}"

partial_function (option) used_uncles_loop ::
  "(header \<Rightarrow> b256) \<Rightarrow> ancestor_source \<Rightarrow> u64 \<Rightarrow> b256 \<Rightarrow> b256 set \<Rightarrow> b256 set option" where
  "used_uncles_loop hh src floor h out =
     (case as_header src h of
        None \<Rightarrow> Some out
      | Some hdr \<Rightarrow>
          if hd_number hdr < floor then Some out
          else
            let out1 = out \<union> set (map hh (as_uncles_of src h))
            in if hd_number hdr = 0 then Some out1
               else used_uncles_loop hh src floor (parent_hash hdr) out1)"

definition used_uncles ::
  "(header \<Rightarrow> b256) \<Rightarrow> ancestor_source \<Rightarrow> u64 \<Rightarrow> b256 \<Rightarrow> u64 \<Rightarrow> b256 set option" where
  "used_uncles hh src block_number ph limit =
     used_uncles_loop hh src (saturating_sub block_number limit) ph {}"

record uncles_rule =
  ur_store :: ancestor_source
  ur_list_limit :: nat
  ur_generation_limit :: u64
  ur_header_rules :: "(header \<Rightarrow> verdict) list"
  ur_parent_rules :: "(header \<Rightarrow> header \<Rightarrow> verdict) list"

declare ancestors_loop.simps [code] used_uncles_loop.simps [code]

text \<open>The body of the loop over the uncles, after the hashes already seen in the block.\<close>

definition check_uncle ::
  "(header \<Rightarrow> b256) \<Rightarrow> uncles_rule \<Rightarrow> u64 \<Rightarrow> b256 set \<Rightarrow> b256 set \<Rightarrow> b256 set \<Rightarrow> header \<Rightarrow> verdict" where
  "check_uncle hh rule number anc used seen uncle =
     and_then (all_rules (\<lambda>r. r uncle) (ur_header_rules rule))
       (let uh = hh uncle
        in if number \<le> hd_number uncle then Reject (UncleIsSiblingOrDescendant uh)
           else if hd_number uncle + ur_generation_limit rule < number + 1
           then Reject (UncleTooOld uh (ur_generation_limit rule))
           else if uh \<in> seen then Reject (UncleRepeated uh)
           else if uh \<in> anc then Reject (UncleIsAncestor uh)
           else if uh \<in> used then Reject (UncleAlreadyUsed uh)
           else case as_header (ur_store rule) (parent_hash uncle) of
                  None \<Rightarrow> Reject (UncleHasNoCommonParent uh)
                | Some parent \<Rightarrow>
                    if parent_hash uncle \<notin> anc then Reject (UncleHasNoCommonParent uh)
                    else all_rules (\<lambda>r. r uncle parent) (ur_parent_rules rule))"

fun check_uncles ::
  "(header \<Rightarrow> b256) \<Rightarrow> uncles_rule \<Rightarrow> u64 \<Rightarrow> b256 set \<Rightarrow> b256 set \<Rightarrow> b256 set \<Rightarrow> header list \<Rightarrow> verdict" where
  "check_uncles hh rule number anc used seen [] = Accept"
| "check_uncles hh rule number anc used seen (u # us) =
     and_then (check_uncle hh rule number anc used seen u)
       (check_uncles hh rule number anc used (insert (hh u) seen) us)"

definition validate_uncles :: "(header \<Rightarrow> b256) \<Rightarrow> uncles_rule \<Rightarrow> block \<Rightarrow> verdict option" where
  "validate_uncles hh rule b =
     (if blk_ommers b = [] then Some Accept
      else
        let number = hd_number (blk_header b); ph = parent_hash (blk_header b)
        in case ancestors (ur_store rule) number ph (ur_generation_limit rule) of
             None \<Rightarrow> None
           | Some anc \<Rightarrow>
               (case used_uncles hh (ur_store rule) number ph (ur_generation_limit rule) of
                  None \<Rightarrow> None
                | Some used \<Rightarrow>
                    Some (if ur_list_limit rule < length (blk_ommers b)
                          then Reject (TooManyUncles (ur_list_limit rule) (length (blk_ommers b)))
                          else check_uncles hh rule number anc used {} (blk_ommers b))))"

subsection \<open>The walks return\<close>

text \<open>Parent links lead to the height below.\<close>

definition links_down :: "ancestor_source \<Rightarrow> bool" where
  "links_down src =
     (\<forall>h hdr p. as_header src h = Some hdr \<longrightarrow> hd_number hdr \<noteq> 0 \<longrightarrow> as_header src (parent_hash hdr) = Some p
        \<longrightarrow> hd_number p + 1 = hd_number hdr)"

lemma links_down_less:
  "links_down src \<Longrightarrow> as_header src h = Some hdr \<Longrightarrow> hd_number hdr \<noteq> 0 \<Longrightarrow> as_header src (parent_hash hdr) = Some p
     \<Longrightarrow> unat (hd_number hdr) = unat (hd_number p) + 1"
  using unatSuc [of "hd_number p"] by (auto simp: links_down_def add.commute)

lemma ancestors_loop_total:
  assumes "links_down src"
  shows "as_header src h = Some hdr \<Longrightarrow> \<exists>r. ancestors_loop src floor h out = Some r"
proof (induction "unat (hd_number hdr)" arbitrary: h hdr out rule: less_induct)
  case less
  show ?case
  proof (cases "hd_number hdr = 0")
    case True
    then show ?thesis using less.prems by (simp add: ancestors_loop.simps [of src "floor" h])
  next
    case False
    show ?thesis
    proof (cases "as_header src (parent_hash hdr)")
      case None
      then show ?thesis
        using less.prems by (simp add: ancestors_loop.simps [of src "floor" h]
            ancestors_loop.simps [of src "floor" "parent_hash hdr"])
    next
      case (Some p)
      have "unat (hd_number p) < unat (hd_number hdr)"
        using links_down_less [OF assms less.prems False Some] by simp
      from less.hyps [OF this Some] show ?thesis
        using less.prems by (simp add: ancestors_loop.simps [of src "floor" h])
    qed
  qed
qed

inductive ancestor_path :: "ancestor_source \<Rightarrow> b256 \<Rightarrow> b256 \<Rightarrow> bool" for src where
  here: "as_header src h = Some hdr \<Longrightarrow> ancestor_path src h h"
| up: "as_header src h = Some hdr \<Longrightarrow> hd_number hdr \<noteq> 0 \<Longrightarrow> ancestor_path src (parent_hash hdr) a
    \<Longrightarrow> ancestor_path src h a"

lemma ancestor_path_start: "ancestor_path src h a \<Longrightarrow> as_header src h \<noteq> None"
  by (auto elim: ancestor_path.cases)

lemma ancestor_path_stop:
  "ancestor_path src h a \<Longrightarrow> as_header src h = Some hdr
     \<Longrightarrow> hd_number hdr = 0 \<or> as_header src (parent_hash hdr) = None \<Longrightarrow> a = h"
  by (erule ancestor_path.cases) (auto dest: ancestor_path_start)

lemma ancestor_path_down:
  assumes "links_down src"
  shows "ancestor_path src h a \<Longrightarrow> as_header src h = Some hdr \<Longrightarrow> as_header src a = Some ahdr
    \<Longrightarrow> hd_number ahdr \<le> hd_number hdr"
proof (induction arbitrary: hdr rule: ancestor_path.induct)
  case (up h hdr' a)
  then obtain p where p: "as_header src (parent_hash hdr) = Some p"
    by (auto elim: ancestor_path.cases)
  have "hd_number ahdr \<le> hd_number p" using up p by auto
  moreover have "unat (hd_number hdr) = unat (hd_number p) + 1"
    using links_down_less [OF assms _ _ p] up by auto
  ultimately show ?case by (simp add: word_le_nat_alt)
qed auto

lemma used_uncles_loop_spec:
  assumes "links_down src"
  shows "as_header src h = Some hdr \<Longrightarrow> \<exists>r. used_uncles_loop hh src floor h out = Some r \<and> out \<subseteq> r
    \<and> (\<forall>a ahdr. ancestor_path src h a \<longrightarrow> as_header src a = Some ahdr \<longrightarrow> floor \<le> hd_number ahdr
         \<longrightarrow> hh ` set (as_uncles_of src a) \<subseteq> r)"
proof (induction "unat (hd_number hdr)" arbitrary: h hdr out rule: less_induct)
  case less
  let ?out = "out \<union> set (map hh (as_uncles_of src h))"
  note unf = used_uncles_loop.simps [of hh src "floor" h out]
  consider "hd_number hdr < floor" | "\<not> hd_number hdr < floor" "hd_number hdr = 0"
    | "\<not> hd_number hdr < floor" "hd_number hdr \<noteq> 0" "as_header src (parent_hash hdr) = None"
    | p where "\<not> hd_number hdr < floor" "hd_number hdr \<noteq> 0" "as_header src (parent_hash hdr) = Some p"
    by (cases "as_header src (parent_hash hdr)") blast+
  then show ?case
  proof cases
    case 1
    then have "used_uncles_loop hh src floor h out = Some out" using less.prems unf by simp
    moreover have "\<not> floor \<le> hd_number ahdr" if "ancestor_path src h a" "as_header src a = Some ahdr" for a ahdr
      using ancestor_path_down [OF assms that(1) less.prems that(2)] 1 by simp
    ultimately show ?thesis by blast
  next
    case 2
    then have "used_uncles_loop hh src floor h out = Some ?out" using less.prems unf by simp
    then show ?thesis using ancestor_path_stop [OF _ less.prems] 2 by auto
  next
    case 3
    then have "used_uncles_loop hh src floor h out = Some ?out"
      using less.prems unf by (simp add: used_uncles_loop.simps [of hh src "floor" "parent_hash hdr"])
    then show ?thesis using ancestor_path_stop [OF _ less.prems] 3 by auto
  next
    case (4 p)
    have "unat (hd_number p) < unat (hd_number hdr)"
      using links_down_less [OF assms less.prems 4(2,3)] by simp
    from less.hyps [OF this 4(3), of ?out] obtain r where r:
      "used_uncles_loop hh src floor (parent_hash hdr) ?out = Some r" "?out \<subseteq> r"
      "\<forall>a ahdr. ancestor_path src (parent_hash hdr) a \<longrightarrow> as_header src a = Some ahdr \<longrightarrow> floor \<le> hd_number ahdr
         \<longrightarrow> hh ` set (as_uncles_of src a) \<subseteq> r" by blast
    have "used_uncles_loop hh src floor h out = Some r" using unf less.prems 4 r(1) by (simp add: Let_def)
    moreover have "hh ` set (as_uncles_of src a) \<subseteq> r"
      if "ancestor_path src h a" "as_header src a = Some ahdr" "floor \<le> hd_number ahdr" for a ahdr
      using that(1)
    proof (cases rule: ancestor_path.cases)
      case here
      then show ?thesis using r(2) by auto
    next
      case up
      then show ?thesis using r(3) that less.prems by auto
    qed
    ultimately show ?thesis using r(2) by auto
  qed
qed

lemma check_uncles_Accept:
  "check_uncles hh rule n anc used seen us = Accept \<Longrightarrow>
     distinct (map hh us) \<and> (\<forall>u \<in> set us. hh u \<notin> seen \<and> hh u \<notin> anc \<and> hh u \<notin> used \<and> hd_number u < n
       \<and> n + 1 \<le> hd_number u + ur_generation_limit rule \<and> parent_hash u \<in> anc
       \<and> (\<forall>r \<in> set (ur_header_rules rule). r u = Accept))"
proof (induction us arbitrary: seen)
  case (Cons u us)
  from Cons.prems have u: "check_uncle hh rule n anc used seen u = Accept"
    and us: "check_uncles hh rule n anc used (insert (hh u) seen) us = Accept" by auto
  from u have "hh u \<notin> seen \<and> hh u \<notin> anc \<and> hh u \<notin> used \<and> hd_number u < n
       \<and> n + 1 \<le> hd_number u + ur_generation_limit rule \<and> parent_hash u \<in> anc
       \<and> (\<forall>r \<in> set (ur_header_rules rule). r u = Accept)"
    by (auto simp: check_uncle_def Let_def not_less not_le all_rules_Accept split: if_splits option.splits)
  with Cons.IH [OF us] show ?case by auto
qed simp

subsection \<open>No uncle is counted twice\<close>

lemma word_add_7: "unat n < 2 ^ 64 - 8 \<Longrightarrow> unat (n + 7) = unat n + 7" "unat n < 2 ^ 64 - 8 \<Longrightarrow> unat (n + 1) = unat n + 1"
  for n :: u64
  by (simp_all add: unat_word_ariths)

text \<open>C21. Along a chain no uncle is included twice: when the rule accepts a block and, earlier, the
  uncles of one of its ancestors, the uncles of the block are distinct and none of them is among
  the ancestor's, however far back it is.\<close>

theorem uncles_never_reused:
  assumes links: "links_down src" and rule: "ur_store rule = src" "ur_generation_limit rule = UNCLE_GENERATION_LIMIT"
    and B: "validate_uncles hh rule B = Some Accept"
    and parent: "as_header src (parent_hash (blk_header B)) = Some p"
      "hd_number (blk_header B) = hd_number p + 1" "unat (hd_number p) < 2 ^ 64 - 9"
    and A: "ancestor_path src (parent_hash (blk_header B)) a" "as_header src a = Some ahdr"
      "validate_uncles hh rule \<lparr> blk_header = ahdr, blk_transactions = txs, blk_ommers = as_uncles_of src a \<rparr> = Some Accept"
    and inj: "inj_on hh (set (blk_ommers B) \<union> set (as_uncles_of src a))"
  shows "distinct (map hh (blk_ommers B)) \<and> hh ` set (blk_ommers B) \<inter> hh ` set (as_uncles_of src a) = {}"
proof (cases "blk_ommers B = []")
  case False
  let ?n = "hd_number (blk_header B)"
  from B False rule obtain anc used where
    used: "used_uncles_loop hh src (saturating_sub ?n 7) (parent_hash (blk_header B)) {} = Some used"
    and ok: "check_uncles hh rule ?n anc used {} (blk_ommers B) = Accept"
    by (auto simp: validate_uncles_def used_uncles_def Let_def UNCLE_GENERATION_LIMIT_def
        split: option.splits if_splits)
  note okD = check_uncles_Accept [OF ok]
  have reach: "hh ` set (as_uncles_of src a) \<subseteq> used" if "saturating_sub ?n 7 \<le> hd_number ahdr"
    using used_uncles_loop_spec [OF links parent(1), of hh "saturating_sub ?n 7" "{}"] used A(1,2) that by auto
  have n: "unat ?n = unat (hd_number p) + 1"
    using parent(2,3) word_add_7(2) [of "hd_number p"] by simp
  have "hh u \<noteq> hh u'" if u: "u \<in> set (blk_ommers B)" and u': "u' \<in> set (as_uncles_of src a)" for u u'
  proof
    assume eq: "hh u = hh u'"
    then have "u = u'" using inj u u' by (auto simp: inj_on_def)
    from A(3) u' obtain anc' used' where
      "check_uncles hh rule (hd_number ahdr) anc' used' {} (as_uncles_of src a) = Accept"
      by (auto simp: validate_uncles_def Let_def split: option.splits if_splits)
    from check_uncles_Accept [OF this] u' have low: "unat (hd_number u') < unat (hd_number ahdr)"
      by (auto simp: word_less_nat_alt)
    have "\<not> saturating_sub ?n 7 \<le> hd_number ahdr" using reach okD u u' eq by auto
    then have far: "unat (hd_number ahdr) < unat ?n - 7" by (simp add: word_le_nat_alt unat_saturating_sub)
    have "?n + 1 \<le> hd_number u + 7" using okD u rule(2) by (auto simp: UNCLE_GENERATION_LIMIT_def)
    moreover have "unat (hd_number u) < 2 ^ 64 - 8" using low far parent(3) n \<open>u = u'\<close> by simp
    ultimately have "unat ?n + 1 \<le> unat (hd_number u) + 7"
      using word_add_7(1) [of "hd_number u"] word_add_7(2) [of ?n] parent(3) n by (simp add: word_le_nat_alt)
    then show False using low far \<open>u = u'\<close> by simp
  qed
  then show ?thesis using okD by auto
qed simp

definition sample_source :: ancestor_source where
  "sample_source = \<lparr>
     as_header = (\<lambda>h. if h = [0, 0] then Some (sample_header 0 0 [])
                      else if h = [1, 1] then Some (sample_header 1 1 [0, 0])
                      else if h = [2, 1] then Some (sample_header 2 1 [1, 1]) else None),
     as_uncles_of = (\<lambda>h. if h = [2, 1] then [sample_header 1 2 [0, 0]] else []) \<rparr>"

definition sample_rule :: uncles_rule where
  "sample_rule = \<lparr> ur_store = sample_source, ur_list_limit = 10, ur_generation_limit = 7,
     ur_header_rules = [], ur_parent_rules = [block_number_rule] \<rparr>"

definition sample_block :: block where
  "sample_block = \<lparr> blk_header = sample_header 3 1 [2, 1], blk_transactions = [],
     blk_ommers = [sample_header 2 2 [1, 1]] \<rparr>"

theorem uncles_never_reused_witness:
  "sample_hash (sample_header 2 2 [1, 1]) \<noteq> sample_hash (sample_header 1 2 [0, 0])"
proof -
  have links: "links_down sample_source"
    by (auto simp: links_down_def sample_source_def sample_header_def split: if_splits)
  have val: "validate_uncles sample_hash sample_rule sample_block = Some Accept"
    "validate_uncles sample_hash sample_rule \<lparr> blk_header = sample_header 2 1 [1, 1], blk_transactions = [],
       blk_ommers = as_uncles_of sample_source [2, 1] \<rparr> = Some Accept"
    by code_simp+
  have hdr: "as_header sample_source [2, 1] = Some (sample_header 2 1 [1, 1])"
    by (simp add: sample_source_def)
  have path: "ancestor_path sample_source (parent_hash (blk_header sample_block)) [2, 1]"
    using ancestor_path.here [OF hdr] by (simp add: sample_block_def sample_header_def)
  have inj: "inj_on sample_hash (set (blk_ommers sample_block) \<union> set (as_uncles_of sample_source [2, 1]))"
    by (simp add: sample_block_def sample_source_def sample_hash_def sample_header_def)
  show ?thesis
    using uncles_never_reused [OF links _ _ val(1) _ _ _ path hdr val(2) inj, of "sample_header 2 1 [1, 1]"] hdr
    by (simp add: sample_rule_def sample_block_def sample_header_def sample_source_def UNCLE_GENERATION_LIMIT_def)
qed

end
