(* ===== verification/Unlinked.thy ===== *)
theory Unlinked
  imports Prelude
begin

text \<open>
  Evidence of chains the node cannot connect to (\<open>crates/sync/src/unlinked.rs\<close>). The hash map of
  peers is the list of its entries in the order its iterator yields them, with distinct keys; an
  \<open>Instant\<close> is a number of nanoseconds.
\<close>

subsection \<open>Definitions\<close>

type_synonym peer_id = "8 word list"
type_synonym instant = int

definition secs :: "int \<Rightarrow> int" where "secs n = n * 1000000000"

definition MAX_UNLINKED_PER_PEER :: nat where "MAX_UNLINKED_PER_PEER = 64"
definition UNLINKED_BEFORE_SEARCH :: nat where "UNLINKED_BEFORE_SEARCH = 4"
definition UNLINKED_SETTLE :: int where "UNLINKED_SETTLE = secs 10"
definition MAX_TRACKED_PEERS :: nat where "MAX_TRACKED_PEERS = 128"
definition EVIDENCE_TTL :: int where "EVIDENCE_TTL = secs 600"
definition SEARCH_COOLDOWN :: int where "SEARCH_COOLDOWN = secs 60"

definition duration_since :: "instant \<Rightarrow> instant \<Rightarrow> int" where
  "duration_since now t = max 0 (now - t)"

record peer_evidence =
  ev_seen :: "b256 set"
  ev_order :: "(b256 \<times> u64) list"
  ev_lowest :: u64
  ev_since :: instant
  ev_last :: instant
  ev_last_search :: "instant option"

definition new_evidence :: "instant \<Rightarrow> peer_evidence" where
  "new_evidence now = \<lparr> ev_seen = {}, ev_order = [], ev_lowest = - 1, ev_since = now, ev_last = now,
     ev_last_search = None \<rparr>"

type_synonym unlinked_headers = "(peer_id \<times> peer_evidence) list"

datatype search_verdict = Wait | SearchForFork u64

text \<open>The eviction loop: the entry, and whether a departing slot held the lowest height.\<close>

fun evict :: "nat \<Rightarrow> peer_evidence \<Rightarrow> bool \<Rightarrow> peer_evidence \<times> bool" where
  "evict 0 e lowest_gone = (e, lowest_gone)"
| "evict (Suc k) e lowest_gone =
     (case ev_order e of
        [] \<Rightarrow> (e, lowest_gone)
      | (old, old_number) # rest \<Rightarrow>
          evict k (e\<lparr> ev_order := rest, ev_seen := ev_seen e - {old} \<rparr>)
            (lowest_gone \<or> old_number = ev_lowest e))"

fun min_height :: "(b256 \<times> u64) list \<Rightarrow> u64" where
  "min_height [] = - 1"
| "min_height ((_, n) # xs) = min n (min_height xs)"

definition record_in :: "b256 \<Rightarrow> u64 \<Rightarrow> instant \<Rightarrow> peer_evidence \<Rightarrow> peer_evidence" where
  "record_in h number now e0 =
     (let e = e0\<lparr> ev_last := now \<rparr>
      in if h \<in> ev_seen e then e
         else
           let e1 = e\<lparr> ev_seen := insert h (ev_seen e), ev_order := ev_order e @ [(h, number)],
                       ev_lowest := min (ev_lowest e) number \<rparr>;
               (e2, lowest_gone) = evict (length (ev_order e1) - MAX_UNLINKED_PER_PEER) e1 False
           in if lowest_gone then e2\<lparr> ev_lowest := min_height (ev_order e2) \<rparr> else e2)"

text \<open>The first entry with the least recent activity, as \<open>min_by_key\<close> picks it.\<close>

fun stalest_from :: "peer_id \<Rightarrow> instant \<Rightarrow> unlinked_headers \<Rightarrow> peer_id" where
  "stalest_from b t [] = b"
| "stalest_from b t ((q, e) # es) =
     (if ev_last e < t then stalest_from q (ev_last e) es else stalest_from b t es)"

fun stalest :: "unlinked_headers \<Rightarrow> peer_id option" where
  "stalest [] = None"
| "stalest ((p, e) # es) = Some (stalest_from p (ev_last e) es)"

definition remove_peer :: "peer_id \<Rightarrow> unlinked_headers \<Rightarrow> unlinked_headers" where
  "remove_peer p u = filter (\<lambda>(q, _). q \<noteq> p) u"

function drop_stalest :: "unlinked_headers \<Rightarrow> unlinked_headers" where
  "drop_stalest u =
     (if MAX_TRACKED_PEERS < length u then
        (case stalest u of None \<Rightarrow> u | Some p \<Rightarrow> drop_stalest (remove_peer p u))
      else u)"
  by pat_completeness auto

lemma stalest_from_in: "stalest_from b t u \<in> insert b (fst ` set u)"
  by (induction b t u rule: stalest_from.induct) auto

lemma stalest_in: "stalest u = Some p \<Longrightarrow> p \<in> fst ` set u"
  using stalest_from_in by (cases u rule: stalest.cases) fastforce+

lemma length_remove_peer: "p \<in> fst ` set u \<Longrightarrow> length (remove_peer p u) < length u"
  by (auto simp: remove_peer_def intro: length_filter_less)

termination drop_stalest
  by (relation "measure length") (auto dest!: stalest_in length_remove_peer)

declare drop_stalest.simps [simp del]

definition expire :: "instant \<Rightarrow> unlinked_headers \<Rightarrow> unlinked_headers" where
  "expire now u = drop_stalest (filter (\<lambda>(_, e). duration_since now (ev_last e) < EVIDENCE_TTL) u)"

fun update_entry :: "(peer_evidence \<Rightarrow> peer_evidence) \<Rightarrow> peer_id \<Rightarrow> unlinked_headers \<Rightarrow> unlinked_headers" where
  "update_entry f p [] = []"
| "update_entry f p ((q, e) # es) = (if q = p then (q, f e) # es else (q, e) # update_entry f p es)"

text \<open>A new key enters the iteration order at the position \<open>pos\<close> the hash map gives it.\<close>

definition record_header :: "nat \<Rightarrow> peer_id \<Rightarrow> b256 \<Rightarrow> u64 \<Rightarrow> instant \<Rightarrow> unlinked_headers \<Rightarrow> unlinked_headers" where
  "record_header pos p h number now u =
     (let u1 = (if map_of u p = None then take pos u @ (p, new_evidence now) # drop pos u else u)
      in expire now (update_entry (record_in h number now) p u1))"

definition consider_peer :: "peer_id \<Rightarrow> instant \<Rightarrow> unlinked_headers \<Rightarrow> search_verdict \<times> unlinked_headers" where
  "consider_peer p now u =
     (case map_of u p of
        None \<Rightarrow> (Wait, u)
      | Some e \<Rightarrow>
          if card (ev_seen e) < UNLINKED_BEFORE_SEARCH then (Wait, u)
          else if duration_since now (ev_since e) < UNLINKED_SETTLE then (Wait, u)
          else if (case ev_last_search e of Some t \<Rightarrow> duration_since now t < SEARCH_COOLDOWN | None \<Rightarrow> False)
          then (Wait, u)
          else (SearchForFork (ev_lowest e), update_entry (\<lambda>e. e\<lparr> ev_last_search := Some now \<rparr>) p u))"

definition clear_peer :: "peer_id \<Rightarrow> unlinked_headers \<Rightarrow> unlinked_headers" where
  "clear_peer p u = remove_peer p u"

definition persisted_after_search :: "peer_id \<Rightarrow> unlinked_headers \<Rightarrow> bool" where
  "persisted_after_search p u =
     (case map_of u p of
        None \<Rightarrow> False
      | Some e \<Rightarrow> ev_last_search e \<noteq> None \<and> UNLINKED_BEFORE_SEARCH \<le> card (ev_seen e))"

definition len_for :: "peer_id \<Rightarrow> unlinked_headers \<Rightarrow> nat" where
  "len_for p u = (case map_of u p of None \<Rightarrow> 0 | Some e \<Rightarrow> card (ev_seen e))"

definition total :: "unlinked_headers \<Rightarrow> nat" where
  "total u = sum_list (map (\<lambda>(_, e). card (ev_seen e)) u)"

definition tracked_peers :: "unlinked_headers \<Rightarrow> nat" where
  "tracked_peers u = length u"

subsection \<open>Invariant\<close>

definition evidence_ok :: "peer_evidence \<Rightarrow> bool" where
  "evidence_ok e = (ev_seen e = fst ` set (ev_order e) \<and> distinct (map fst (ev_order e))
     \<and> length (ev_order e) \<le> MAX_UNLINKED_PER_PEER \<and> ev_lowest e = min_height (ev_order e))"

definition unlinked_ok :: "unlinked_headers \<Rightarrow> bool" where
  "unlinked_ok u = (distinct (map fst u) \<and> length u \<le> MAX_TRACKED_PEERS \<and> (\<forall>(_, e) \<in> set u. evidence_ok e))"

lemma min_height_snoc: "min_height (xs @ [(h, n)]) = min (min_height xs) n"
  by (induction xs rule: min_height.induct) (auto simp: min.assoc min.commute min.left_commute)

lemma record_in_ok:
  assumes e: "evidence_ok e"
  shows "evidence_ok (record_in h n now e)"
proof (cases "h \<in> ev_seen e")
  case True
  then show ?thesis using e by (simp add: record_in_def evidence_ok_def)
next
  case new: False
  let ?xs = "ev_order e @ [(h, n)]"
  have d: "distinct (map fst ?xs)" and seen: "insert h (ev_seen e) = fst ` set ?xs"
    and low: "min (ev_lowest e) n = min_height ?xs"
    using e new by (auto simp: evidence_ok_def min_height_snoc)
  show ?thesis
  proof (cases "length (ev_order e) < MAX_UNLINKED_PER_PEER")
    case True
    then show ?thesis using d seen low new by (simp add: record_in_def evidence_ok_def Let_def)
  next
    case False
    then have len: "length (ev_order e) = MAX_UNLINKED_PER_PEER" using e by (simp add: evidence_ok_def)
    then obtain old m rest where rest: "?xs = (old, m) # rest" "length rest = MAX_UNLINKED_PER_PEER"
      by (cases "ev_order e") (auto simp: MAX_UNLINKED_PER_PEER_def)
    have "fst ` set ?xs - {old} = fst ` set rest" "distinct (map fst rest)" using d rest(1) by auto
    moreover have "min_height ?xs = min_height rest" if "m \<noteq> min_height ?xs"
      using that rest(1) by (auto simp: min_def split: if_splits)
    moreover have "length ?xs - MAX_UNLINKED_PER_PEER = 1" using len by simp
    ultimately show ?thesis
      using new seen low rest by (auto simp: record_in_def evidence_ok_def Let_def)
  qed
qed

lemma new_evidence_ok: "evidence_ok (new_evidence now)"
  by (simp add: new_evidence_def evidence_ok_def)

lemma update_entry_keys [simp]: "map fst (update_entry f p u) = map fst u"
  by (induction u rule: update_entry.induct) auto

lemma update_entry_all:
  assumes "\<And>e. evidence_ok e \<Longrightarrow> evidence_ok (f e)"
  shows "(\<forall>(_, e) \<in> set u. evidence_ok e) \<Longrightarrow> (\<forall>(_, e) \<in> set (update_entry f p u). evidence_ok e)"
  by (induction u) (auto simp: assms split: if_splits)

lemma length_update_entry [simp]: "length (update_entry f p u) = length u"
  by (induction u) auto

lemma drop_stalest_sub:
  "set (drop_stalest u) \<subseteq> set u \<and> (distinct (map fst u) \<longrightarrow> distinct (map fst (drop_stalest u)))
   \<and> length (drop_stalest u) \<le> MAX_TRACKED_PEERS"
proof (induction u rule: drop_stalest.induct)
  case (1 u)
  show ?case
  proof (cases "MAX_TRACKED_PEERS < length u")
    case True
    then obtain p where p: "stalest u = Some p" by (cases u rule: stalest.cases) auto
    have "set (remove_peer p u) \<subseteq> set u" "distinct (map fst u) \<longrightarrow> distinct (map fst (remove_peer p u))"
      by (auto simp: remove_peer_def distinct_map_filter)
    with 1 [OF True p] True p show ?thesis by (auto simp: drop_stalest.simps [of u])
  next
    case False
    then show ?thesis by (simp add: drop_stalest.simps [of u])
  qed
qed

lemma expire_ok:
  assumes "distinct (map fst u)" "\<forall>(_, e) \<in> set u. evidence_ok e"
  shows "unlinked_ok (expire now u)"
proof -
  let ?u = "filter (\<lambda>(_, e). duration_since now (ev_last e) < EVIDENCE_TTL) u"
  have "distinct (map fst ?u)" "set ?u \<subseteq> set u" using assms(1) by (auto simp: distinct_map_filter)
  then show ?thesis
    using drop_stalest_sub [of ?u] assms(2) by (fastforce simp: unlinked_ok_def expire_def)
qed

lemma record_header_ok:
  assumes "unlinked_ok u"
  shows "unlinked_ok (record_header pos p h n now u)"
proof -
  let ?u = "if map_of u p = None then take pos u @ (p, new_evidence now) # drop pos u else u"
  have d: "distinct (map fst u)" "\<forall>(_, e) \<in> set u. evidence_ok e" using assms by (auto simp: unlinked_ok_def)
  have sub: "set ?u \<subseteq> insert (p, new_evidence now) (set u)"
    by (auto dest: in_set_takeD in_set_dropD)
  have "distinct (map fst ?u)"
  proof (cases "map_of u p = None")
    case True
    have "distinct (map fst (take pos u @ drop pos u))" using d(1) by simp
    then show ?thesis
      using True by (auto simp: map_of_eq_None_iff simp del: append_take_drop_id
          dest: in_set_takeD in_set_dropD)
  next
    case False
    then show ?thesis using d by (simp del: not_None_eq)
  qed
  moreover have "\<forall>(_, e) \<in> set ?u. evidence_ok e" using d(2) sub new_evidence_ok by fastforce
  ultimately show ?thesis
    unfolding record_header_def Let_def
    by (intro expire_ok update_entry_all) (auto intro: record_in_ok)
qed

subsection \<open>Bounds\<close>

text \<open>The operations in any order, at any times.\<close>

inductive unlinked_reach :: "unlinked_headers \<Rightarrow> bool" where
  none: "unlinked_reach []"
| recorded: "unlinked_reach u \<Longrightarrow> unlinked_reach (record_header pos p h n now u)"
| considered: "unlinked_reach u \<Longrightarrow> unlinked_reach (snd (consider_peer p now u))"
| cleared: "unlinked_reach u \<Longrightarrow> unlinked_reach (clear_peer p u)"

lemma unlinked_reach_ok: "unlinked_reach u \<Longrightarrow> unlinked_ok u"
proof (induction rule: unlinked_reach.induct)
  case none
  then show ?case by (simp add: unlinked_ok_def)
next
  case (recorded u pos p h n now)
  then show ?case by (simp add: record_header_ok)
next
  case (considered u p now)
  let ?u = "update_entry (\<lambda>e. e\<lparr> ev_last_search := Some now \<rparr>) p u"
  have "\<forall>(_, e) \<in> set ?u. evidence_ok e"
    using considered by (intro update_entry_all) (auto simp: unlinked_ok_def evidence_ok_def)
  then have "unlinked_ok ?u" using considered by (simp add: unlinked_ok_def)
  then show ?case using considered by (auto simp: consider_peer_def split: option.splits)
next
  case (cleared u p)
  then show ?case
    by (auto simp: clear_peer_def remove_peer_def unlinked_ok_def distinct_map_filter
        intro: order.trans [OF length_filter_le])
qed

lemma card_seen: "evidence_ok e \<Longrightarrow> card (ev_seen e) = length (ev_order e)"
  using distinct_card [of "map fst (ev_order e)"] by (simp add: evidence_ok_def)



end
