(* ===== verification/Sync_Manager.thy ===== *)
theory Sync_Manager
  imports Coherence_Steps Uncles Unlinked "HOL-Library.AList"
begin

text \<open>
  Taking in headers from peers (\<open>crates/sync/src/manager.rs\<close>) and judging uncles without bodies
  (\<open>crates/sync/src/uncle_guard.rs\<close>). \<open>bodies\<close> gives the uncles of a stored body and
  \<open>frozen_uncles\<close> those of the freezer. \<open>enc\<close> is the RLP encoding of a header,
  \<open>list_header\<close> the list prefix of \<open>alloy_rlp\<close> for a payload length, \<open>kec\<close> Keccak-256. A
  result \<open>None\<close> is a call that does not return normally: a walk over a cycle of parents, or a rule
  that panics.
\<close>

subsection \<open>Cumulative difficulty\<close>

fun add_difficulties :: "u256 \<Rightarrow> header list \<Rightarrow> u256" where
  "add_difficulties t [] = t"
| "add_difficulties t (u # us) = add_difficulties (saturating_add t (difficulty u)) us"

definition cumulative_difficulty ::
  "(b256 \<Rightarrow> header list option) \<Rightarrow> (u64 \<Rightarrow> header list option) \<Rightarrow> b256 \<Rightarrow> header \<Rightarrow> u256 option" where
  "cumulative_difficulty bodies frozen_uncles h hdr =
     (if uncle_count hdr = 0 then Some (difficulty hdr)
      else case (case bodies h of Some ommers \<Rightarrow> Some ommers | None \<Rightarrow> frozen_uncles (hd_number hdr)) of
             None \<Rightarrow> None
           | Some ommers \<Rightarrow> Some (add_difficulties (difficulty hdr) ommers))"

record header_with_uncles =
  hwu_header :: header
  hwu_uncles :: "header list"

definition hwu_cumulative_difficulty :: "header_with_uncles \<Rightarrow> u256" where
  "hwu_cumulative_difficulty e = add_difficulties (difficulty (hwu_header e)) (hwu_uncles e)"

definition encoded_uncles :: "(header \<Rightarrow> bytes) \<Rightarrow> (nat \<Rightarrow> bytes) \<Rightarrow> header_with_uncles \<Rightarrow> bytes" where
  "encoded_uncles enc list_header e =
     (let payload = concat (map enc (hwu_uncles e)) in list_header (length payload) @ payload)"

definition commitment_matches ::
  "(header \<Rightarrow> bytes) \<Rightarrow> (nat \<Rightarrow> bytes) \<Rightarrow> (bytes \<Rightarrow> b256) \<Rightarrow> header_with_uncles \<Rightarrow> bool" where
  "commitment_matches enc list_header kec e =
     (of_nat (length (hwu_uncles e)) = uncle_count (hwu_header e)
      \<and> kec (encoded_uncles enc list_header e) = ommers_hash (hwu_header e))"

subsection \<open>The uncle guard\<close>

definition SLACK :: u64 where "SLACK = 2 * UNCLE_GENERATION_LIMIT"

record uncle_guard =
  ug_by_block :: "b256 \<Rightarrow> header list option"
  ug_headers :: "b256 \<Rightarrow> header option"
  ug_by_height :: "(u64 \<times> b256 list) list"

definition ug_new :: uncle_guard where
  "ug_new = \<lparr> ug_by_block = Map.empty, ug_headers = Map.empty, ug_by_height = [] \<rparr>"

text \<open>\<open>ug_by_height\<close> is a tree map: its entries in ascending order of height.\<close>

fun push_height :: "u64 \<Rightarrow> b256 \<Rightarrow> (u64 \<times> b256 list) list \<Rightarrow> (u64 \<times> b256 list) list" where
  "push_height n h [] = [(n, [h])]"
| "push_height n h ((m, hs) # rest) =
     (if n < m then (n, [h]) # (m, hs) # rest
      else if n = m then (m, hs @ [h]) # rest
      else (m, hs) # push_height n h rest)"

definition forget :: "b256 list \<Rightarrow> (b256 \<Rightarrow> 'a option) \<Rightarrow> b256 \<Rightarrow> 'a option" where
  "forget hs m = fold (\<lambda>h m. m(h := None)) hs m"

fun prune_guard :: "u64 \<Rightarrow> (u64 \<times> b256 list) list \<Rightarrow> uncle_guard \<Rightarrow> uncle_guard" where
  "prune_guard floor [] g = g\<lparr> ug_by_height := [] \<rparr>"
| "prune_guard floor ((n, hs) # rest) g =
     (if floor \<le> n then g\<lparr> ug_by_height := (n, hs) # rest \<rparr>
      else prune_guard floor rest
             (g\<lparr> ug_by_block := forget hs (ug_by_block g), ug_headers := forget hs (ug_headers g) \<rparr>))"

definition ug_record :: "(header \<Rightarrow> b256) \<Rightarrow> header \<Rightarrow> header list \<Rightarrow> uncle_guard \<Rightarrow> uncle_guard" where
  "ug_record hh hdr uncles g =
     (let h = hh hdr;
          number = hd_number hdr;
          g1 = g\<lparr> ug_by_block := (ug_by_block g)(h \<mapsto> uncles), ug_headers := (ug_headers g)(h \<mapsto> hdr),
                  ug_by_height := push_height number h (ug_by_height g) \<rparr>
      in prune_guard (saturating_sub number SLACK) (ug_by_height g1) g1)"

definition ug_look_up :: "uncle_guard \<Rightarrow> block_store \<Rightarrow> b256 \<Rightarrow> header option" where
  "ug_look_up g s h = (case ug_headers g h of Some hdr \<Rightarrow> Some hdr | None \<Rightarrow> get_header s h)"

partial_function (option) ancestry_loop :: "uncle_guard \<Rightarrow> block_store \<Rightarrow> u64 \<Rightarrow> b256 \<Rightarrow> bool option" where
  "ancestry_loop g s floor cursor =
     (case ug_look_up g s cursor of
        None \<Rightarrow> Some False
      | Some hdr \<Rightarrow>
          if hd_number hdr < floor then Some True
          else if hd_number hdr = 0 then Some True
          else if ug_by_block g cursor = None then Some False
          else ancestry_loop g s floor (parent_hash hdr))"

declare ancestry_loop.simps [code]

definition ancestry_is_complete :: "uncle_guard \<Rightarrow> block_store \<Rightarrow> u64 \<Rightarrow> b256 \<Rightarrow> bool option" where
  "ancestry_is_complete g s number parent =
     ancestry_loop g s (saturating_sub number UNCLE_GENERATION_LIMIT) parent"

definition guarded_ancestors :: "uncle_guard \<Rightarrow> block_store \<Rightarrow> ancestor_source" where
  "guarded_ancestors g s = \<lparr> as_header = ug_look_up g s,
     as_uncles_of = (\<lambda>h. case ug_by_block g h of Some us \<Rightarrow> us | None \<Rightarrow> []) \<rparr>"

datatype uncle_refusal =
    UncleCountDiffers u64 nat
  | AncestryIncomplete
  | RuleRefused validation_error

definition rule_outcome :: "verdict \<Rightarrow> (uncle_refusal + unit) option" where
  "rule_outcome r = (case r of Accept \<Rightarrow> Some (Inr ()) | Reject e \<Rightarrow> Some (Inl (RuleRefused e)) | Panics \<Rightarrow> None)"

definition guard_rule :: "uncle_guard \<Rightarrow> block_store \<Rightarrow> header_verifier \<Rightarrow> uncles_rule" where
  "guard_rule g s v =
     \<lparr> ur_store = guarded_ancestors g s, ur_list_limit = UNCLE_LIST_LIMIT,
       ur_generation_limit = UNCLE_GENERATION_LIMIT, ur_header_rules = static_rules v,
       ur_parent_rules = parent_rules v \<rparr>"

definition uncles_are_admissible ::
  "(header \<Rightarrow> b256) \<Rightarrow> uncle_guard \<Rightarrow> block_store \<Rightarrow> header_verifier \<Rightarrow> header \<Rightarrow> header list
   \<Rightarrow> (uncle_refusal + unit) option" where
  "uncles_are_admissible hh g s v hdr uncles =
     (if uncles = [] then Some (Inr ())
      else if of_nat (length uncles) \<noteq> uncle_count hdr
      then Some (Inl (UncleCountDiffers (uncle_count hdr) (length uncles)))
      else case ancestry_is_complete g s (hd_number hdr) (parent_hash hdr) of
             None \<Rightarrow> None
           | Some False \<Rightarrow> Some (Inl AncestryIncomplete)
           | Some True \<Rightarrow>
               Option.bind
                 (validate_uncles hh (guard_rule g s v)
                    \<lparr> blk_header = hdr, blk_transactions = [], blk_ommers = uncles \<rparr>)
                 rule_outcome)"

definition uncles_are_proven ::
  "(header \<Rightarrow> b256) \<Rightarrow> (header_with_uncles \<Rightarrow> bool) \<Rightarrow> block_store \<Rightarrow> header_verifier \<Rightarrow> header_with_uncles
   \<Rightarrow> uncle_guard \<Rightarrow> (bool \<times> uncle_guard) option" where
  "uncles_are_proven hh committed s v e g =
     (if \<not> committed e then Some (False, g)
      else case uncles_are_admissible hh g s v (hwu_header e) (hwu_uncles e) of
             None \<Rightarrow> None
           | Some (Inl _) \<Rightarrow> Some (False, g)
           | Some (Inr _) \<Rightarrow> Some (True, ug_record hh (hwu_header e) (hwu_uncles e) g))"

definition MAX_PROVEN :: nat where "MAX_PROVEN = 8192"

text \<open>
  The proved difficulties are a finite map, here an association list with distinct keys.
  \<open>committed\<close> is \<open>commitment_matches\<close> at the codecs in use.
\<close>

type_synonym proven_map = "(b256 \<times> u256) list"

fun note_entries ::
  "(header \<Rightarrow> b256) \<Rightarrow> (header_with_uncles \<Rightarrow> bool) \<Rightarrow> block_store \<Rightarrow> header_verifier \<Rightarrow> header_with_uncles list
   \<Rightarrow> uncle_guard \<Rightarrow> proven_map \<Rightarrow> (header list \<times> uncle_guard \<times> proven_map) option" where
  "note_entries hh committed s v [] g proven = Some ([], g, proven)"
| "note_entries hh committed s v (e # es) g proven =
     (case uncles_are_proven hh committed s v e g of
        None \<Rightarrow> None
      | Some (ok, g1) \<Rightarrow>
          let proven1 = (if ok then AList.update (hh (hwu_header e)) (hwu_cumulative_difficulty e) proven
                         else proven)
          in map_option (\<lambda>(hs, r). (hwu_header e # hs, r)) (note_entries hh committed s v es g1 proven1))"

definition note_proven_difficulties ::
  "(header \<Rightarrow> b256) \<Rightarrow> (header_with_uncles \<Rightarrow> bool) \<Rightarrow> block_store \<Rightarrow> header_verifier \<Rightarrow> header_with_uncles list
   \<Rightarrow> uncle_guard \<Rightarrow> proven_map \<Rightarrow> (header list \<times> uncle_guard \<times> proven_map) option" where
  "note_proven_difficulties hh committed s v es g proven =
     note_entries hh committed s v es g (if MAX_PROVEN < length proven + length es then [] else proven)"

subsection \<open>Ingesting headers\<close>

record ingested =
  ing_stored :: u64
  ing_rejected :: u64
  ing_unlinked :: u64

text \<open>The variables of the loop; \<open>ig_validated\<close> newest last.\<close>

record ingest_state =
  ig_prev :: "(header \<times> u256) option"
  ig_validated :: "(header \<times> u256) list"
  ig_skipped :: u64
  ig_unlinked_here :: u64
  ig_evidence :: unlinked_headers
  ig_seen :: "b256 set"

definition contribution ::
  "(b256 \<Rightarrow> header list option) \<Rightarrow> (u64 \<Rightarrow> header list option) \<Rightarrow> proven_map \<Rightarrow> b256 \<Rightarrow> header \<Rightarrow> u256" where
  "contribution bodies frozen_uncles proven h hdr =
     (case map_of proven h of
        Some d \<Rightarrow> d
      | None \<Rightarrow> (case cumulative_difficulty bodies frozen_uncles h hdr of Some d \<Rightarrow> d | None \<Rightarrow> difficulty hdr))"

text \<open>
  Where the parent comes from: \<open>None\<close> when the header is held as evidence, otherwise the parent to
  verify against, if any, and its total difficulty.
\<close>

definition resolve_parent ::
  "(header \<Rightarrow> b256) \<Rightarrow> block_store \<Rightarrow> (header \<times> u256) option \<Rightarrow> header \<Rightarrow> b256 \<Rightarrow> bool
   \<Rightarrow> (header option \<times> u256) option" where
  "resolve_parent hh s prev hdr h already_stored =
     (let from_store =
            (case get_header s (parent_hash hdr) of
               Some p \<Rightarrow> Some (Some p, (case bs_td s (parent_hash hdr) of Some t \<Rightarrow> t | None \<Rightarrow> 0))
             | None \<Rightarrow>
                 if already_stored
                 then Some (None, saturating_sub (case bs_td s h of Some t \<Rightarrow> t | None \<Rightarrow> 0) (difficulty hdr))
                 else None)
      in case prev of
           Some (prev_hdr, prev_td) \<Rightarrow>
             if hh prev_hdr = parent_hash hdr then Some (Some prev_hdr, prev_td) else from_store
         | None \<Rightarrow> from_store)"

text \<open>
  One round of the loop. \<open>note_unlinked\<close> is the record of a header of the sending peer as
  evidence, the identity when there is no peer. \<open>None\<close> is a panic of the verifier.
\<close>

definition ingest_one ::
  "(header \<Rightarrow> b256) \<Rightarrow> header_verifier \<Rightarrow> (b256 \<Rightarrow> header \<Rightarrow> u256) \<Rightarrow> (b256 \<Rightarrow> u64 \<Rightarrow> unlinked_headers \<Rightarrow> unlinked_headers)
   \<Rightarrow> block_store \<Rightarrow> header \<Rightarrow> ingest_state \<Rightarrow> ingest_state option" where
  "ingest_one hh v contrib note_unlinked s hdr st =
     (let h = hh hdr
      in if h \<in> ig_seen st then Some st
         else
           let st1 = st\<lparr> ig_seen := insert h (ig_seen st) \<rparr>;
               already_stored = (get_header s h \<noteq> None)
           in case resolve_parent hh s (ig_prev st1) hdr h already_stored of
                None \<Rightarrow>
                  Some (st1\<lparr> ig_unlinked_here := ig_unlinked_here st1 + 1,
                             ig_evidence := note_unlinked h (hd_number hdr) (ig_evidence st1) \<rparr>)
              | Some (parent_ref, parent_td) \<Rightarrow>
                  let new_td = parent_td + contrib h hdr;
                      outcome = (if already_stored then Accept
                                 else case parent_ref of Some p \<Rightarrow> verify v hdr (Some p) | None \<Rightarrow> Accept)
                  in case outcome of
                       Panics \<Rightarrow> None
                     | Reject _ \<Rightarrow>
                         Some (st1\<lparr> ig_skipped := ig_skipped st1 + 1, ig_prev := Some (hdr, new_td) \<rparr>)
                     | Accept \<Rightarrow>
                         Some (st1\<lparr> ig_prev := Some (hdr, new_td),
                                    ig_validated := ig_validated st1 @ [(hdr, new_td)] \<rparr>))"

fun ingest_loop ::
  "(header \<Rightarrow> b256) \<Rightarrow> header_verifier \<Rightarrow> (b256 \<Rightarrow> header \<Rightarrow> u256) \<Rightarrow> (b256 \<Rightarrow> u64 \<Rightarrow> unlinked_headers \<Rightarrow> unlinked_headers)
   \<Rightarrow> block_store \<Rightarrow> header list \<Rightarrow> ingest_state \<Rightarrow> ingest_state option" where
  "ingest_loop hh v contrib note_unlinked s [] st = Some st"
| "ingest_loop hh v contrib note_unlinked s (hdr # hdrs) st =
     (case ingest_one hh v contrib note_unlinked s hdr st of
        None \<Rightarrow> None
      | Some st' \<Rightarrow> ingest_loop hh v contrib note_unlinked s hdrs st')"

definition ascending :: "header list \<Rightarrow> header list" where
  "ascending hs = (if 1 < length hs \<and> hd_number (last hs) < hd_number (hs ! 0) then rev hs else hs)"

definition ingest_start :: "unlinked_headers \<Rightarrow> ingest_state" where
  "ingest_start u = \<lparr> ig_prev = None, ig_validated = [], ig_skipped = 0, ig_unlinked_here = 0,
     ig_evidence = u, ig_seen = {} \<rparr>"

definition head_td :: "block_store \<Rightarrow> u256" where
  "head_td s = (case bs_head s of
     Some h \<Rightarrow> (case bs_td s h of Some t \<Rightarrow> t | None \<Rightarrow> 0) | None \<Rightarrow> 0)"

definition ingest_headers ::
  "(header \<Rightarrow> b256) \<Rightarrow> header_verifier \<Rightarrow> (b256 \<Rightarrow> header \<Rightarrow> u256) \<Rightarrow> (b256 \<Rightarrow> u64 \<Rightarrow> unlinked_headers \<Rightarrow> unlinked_headers)
   \<Rightarrow> header list \<Rightarrow> block_store \<times> unlinked_headers
   \<Rightarrow> ((position_error + ingested) \<times> block_store \<times> unlinked_headers) option" where
  "ingest_headers hh v contrib note_unlinked headers = (\<lambda>(s, u).
     if headers = [] then Some (Inr \<lparr> ing_stored = 0, ing_rejected = 0, ing_unlinked = 0 \<rparr>, s, u)
     else case ingest_loop hh v contrib note_unlinked s (ascending headers) (ingest_start u) of
       None \<Rightarrow> None
     | Some st \<Rightarrow>
         (case store_headers_batch hh s (ig_validated st) (bs_head s) (head_td s) of
            (Inl e, s') \<Rightarrow> Some (Inl e, s', ig_evidence st)
          | (Inr _, s') \<Rightarrow>
              Some (Inr \<lparr> ing_stored = of_nat (length (ig_validated st)), ing_rejected = ig_skipped st,
                          ing_unlinked = ig_unlinked_here st \<rparr>, s', ig_evidence st)))"

end
