(* ===== verification/Sync_Ingest.thy ===== *)
theory Sync_Ingest
  imports Sync_Manager
begin

text \<open>
  What ingesting a batch of headers does to the store: with no header refused, every header that
  enters was verified against a stored parent and the position stays sound; a refused header, in
  contrast, still serves as the parent of the next one.
\<close>

subsection \<open>Moves of the position leave headers and difficulties alone\<close>

fun index_op :: "batch_op \<Rightarrow> bool" where
  "index_op (PutHeader _ _) = False"
| "index_op (PutTd _ _) = False"
| "index_op (PutHeightIndex _ _) = False"
| "index_op _ = True"

lemma write_index_ops:
  "list_all index_op ops \<Longrightarrow>
     bs_headers (write_batch ops s) = bs_headers s \<and> bs_td (write_batch ops s) = bs_td s
     \<and> bs_freezer (write_batch ops s) = bs_freezer s"
proof (induction ops arbitrary: s)
  case (Cons x ops)
  then show ?case by (cases x) (simp_all add: write_batch_def)
qed (simp add: write_batch_def)

lemma stage_move_index: "stage_move hh s before v = Inr ops \<Longrightarrow> list_all index_op ops"
  by (auto simp: stage_move_def stage_drop_above_def stage_execution_after_reorg_def Let_def list_all_iff
      split: sum.splits option.splits prod.splits if_splits)

lemma lineage_walk_index: "list_all index_op batch \<Longrightarrow> list_all index_op (snd (lineage_walk hh s h depth batch))"
proof (induction hh s h depth batch rule: lineage_walk.induct)
  case (1 hh s h depth batch)
  show ?case
    using 1 by (subst lineage_walk.simps) (auto simp: Let_def split: option.splits)
qed

lemma move_head_to_keeps:
  "bs_headers (snd (move_head_to hh s h prev)) = bs_headers s \<and> bs_td (snd (move_head_to hh s h prev)) = bs_td s
   \<and> bs_freezer (snd (move_head_to hh s h prev)) = bs_freezer s"
proof (cases "prove hh s h")
  case (Inl e)
  then show ?thesis
    using write_index_ops [OF lineage_walk_index [of "[]" hh s h 0]]
    by (auto simp: move_head_to_def update_canonical_chain_def ensure_canonical_lineage_def set_head_def case_prod_beta)
next
  case (Inr v)
  have "bs_headers (snd (apply_transition hh s tr)) = bs_headers s \<and> bs_td (snd (apply_transition hh s tr)) = bs_td s
      \<and> bs_freezer (snd (apply_transition hh s tr)) = bs_freezer s"
    if "tr = Retreat v \<or> tr = Adopt v" for tr
    using that write_index_ops [OF stage_move_index]
    by (auto simp: apply_transition_def Let_def split: sum.splits option.splits)
  then show ?thesis using Inr by (simp add: move_head_to_def Let_def case_prod_beta)
qed

lemma store_batch_keeps:
  "bs_headers (snd (store_headers_batch hh s es cur td)) = bs_headers (write_batch (concat (map (header_ops hh) es)) s)
   \<and> bs_td (snd (store_headers_batch hh s es cur td)) = bs_td (write_batch (concat (map (header_ops hh) es)) s)
   \<and> bs_freezer (snd (store_headers_batch hh s es cur td)) = bs_freezer (write_batch (concat (map (header_ops hh) es)) s)"
proof (cases "es = []")
  case True
  then show ?thesis by (simp add: store_headers_batch_def write_batch_def)
next
  case False
  obtain ops best where be: "batch_entries hh es cur td = (ops, best)" by fastforce
  have "ops = concat (map (header_ops hh) es)" using batch_entries_ops [of hh es cur td] be by simp
  moreover have "snd (store_headers_batch hh s es cur td) =
      (case best of Some h \<Rightarrow> if best \<noteq> cur then snd (move_head_to hh (write_batch ops s) h cur) else write_batch ops s
       | None \<Rightarrow> write_batch ops s)"
    using False be by (auto simp: store_headers_batch_def Let_def split: prod.splits sum.splits option.splits)
  ultimately show ?thesis
    using move_head_to_keeps [of hh "write_batch ops s" _ cur] by (auto split: option.splits)
qed

lemma header_ops_headers:
  "bs_headers (write_batch (concat (map (header_ops hh) es)) s) = bs_headers s ++ map_of (rev (map (\<lambda>e. (hh (fst e), fst e)) es))"
  "bs_td (write_batch (concat (map (header_ops hh) es)) s) = bs_td s ++ map_of (rev (map (\<lambda>e. (hh (fst e), snd e)) es))"
  "bs_freezer (write_batch (concat (map (header_ops hh) es)) s) = bs_freezer s"
  by (induction es arbitrary: s) (auto simp: write_batch_def header_ops_def case_prod_beta map_add_def fun_eq_iff split: option.splits)

subsection \<open>A chunk with nothing refused\<close>

lemma attaches_all_snoc:
  "attaches_all hh s (es @ [e]) \<longleftrightarrow> attaches_all hh s es \<and> attaches hh (write_batch (concat (map (header_ops hh) es)) s) (fst e)"
  by (induction es arbitrary: s) (auto simp: write_batch_def)

text \<open>
  The loop keeps: what it has validated attaches to the store, each new header was verified against
  the header its parent hash names, and the header kept for the next round is one of those.
\<close>

definition ingest_inv ::
  "(header \<Rightarrow> b256) \<Rightarrow> header_verifier \<Rightarrow> block_store \<Rightarrow> header list \<Rightarrow> ingest_state \<Rightarrow> bool" where
  "ingest_inv hh v s headers st =
     (attaches_all hh s (ig_validated st)
      \<and> fst ` set (ig_validated st) \<subseteq> set headers
      \<and> (\<forall>p t. ig_prev st = Some (p, t) \<longrightarrow> p \<in> fst ` set (ig_validated st))
      \<and> (\<forall>hdr \<in> fst ` set (ig_validated st). bs_headers s (hh hdr) = None \<longrightarrow>
           (\<exists>p. (bs_headers s (parent_hash hdr) = Some p \<or> p \<in> fst ` set (ig_validated st) \<and> hh p = parent_hash hdr)
              \<and> verify v hdr (Some p) = Accept)))"

text \<open>What the hash and the verifier have to be for a chunk.\<close>

definition well_hashed :: "(header \<Rightarrow> b256) \<Rightarrow> block_store \<Rightarrow> header list \<Rightarrow> bool" where
  "well_hashed hh s headers =
     (inj_on hh (set headers)
      \<and> (\<forall>hdr \<in> set headers. hd_number hdr \<noteq> u64_max
           \<and> (case bs_headers s (hh hdr) of None \<Rightarrow> True | Some b \<Rightarrow> b = hdr)))"

lemma sound_freezer: "sound_store s \<Longrightarrow> get_header s h = bs_headers s h"
  by (simp add: sound_store_def coherent_def get_header_def frozen_header_by_hash_def split: option.splits)

lemma batch_lookup:
  assumes "well_hashed hh s headers" "fst ` set es \<subseteq> set headers"
  shows "\<forall>hdr \<in> fst ` set es. bs_headers (write_batch (concat (map (header_ops hh) es)) s) (hh hdr) = Some hdr"
    and "bs_headers s h = Some b \<Longrightarrow> bs_headers (write_batch (concat (map (header_ops hh) es)) s) h = Some b"
proof -
  have inj: "inj_on hh (set headers)" using assms(1) by (simp add: well_hashed_def)
  have mem: "e \<in> fst ` set es" "hh e = k" if "map_of (rev (map (\<lambda>e. (hh (fst e), fst e)) es)) k = Some e" for k e
    using map_of_SomeD [OF that] by auto
  show "\<forall>hdr \<in> fst ` set es. bs_headers (write_batch (concat (map (header_ops hh) es)) s) (hh hdr) = Some hdr"
  proof
    fix hdr
    assume hdr: "hdr \<in> fst ` set es"
    then have "map_of (rev (map (\<lambda>e. (hh (fst e), fst e)) es)) (hh hdr) \<noteq> None"
      by (auto simp: map_of_eq_None_iff image_image)
    then obtain e where e: "map_of (rev (map (\<lambda>e. (hh (fst e), fst e)) es)) (hh hdr) = Some e" by auto
    from mem [OF this] hdr assms(2) inj have "e = hdr" by (auto dest: inj_onD)
    with e show "bs_headers (write_batch (concat (map (header_ops hh) es)) s) (hh hdr) = Some hdr"
      by (simp add: header_ops_headers)
  qed
  show "bs_headers (write_batch (concat (map (header_ops hh) es)) s) h = Some b" if b: "bs_headers s h = Some b"
  proof (cases "map_of (rev (map (\<lambda>e. (hh (fst e), fst e)) es)) h")
    case None
    then show ?thesis using b by (simp add: header_ops_headers map_add_def)
  next
    case (Some e)
    from mem [OF this] assms b have "e = b" by (force simp: well_hashed_def)
    then show ?thesis using Some by (simp add: header_ops_headers)
  qed
qed

lemma ingest_one_inv:
  assumes s: "sound_store s" and w: "well_hashed hh s headers" and hdr: "hdr \<in> set headers"
    and num: "\<And>h p. verify v h (Some p) = Accept \<Longrightarrow> hd_number h = hd_number p + 1"
    and i: "ingest_inv hh v s headers st"
    and step: "ingest_one hh v contrib nu s hdr st = Some st'" and clean: "ig_skipped st' = ig_skipped st"
  shows "ingest_inv hh v s headers st'"
proof -
  let ?s = "write_batch (concat (map (header_ops hh) (ig_validated st))) s"
  have sub: "fst ` set (ig_validated st) \<subseteq> set headers" using i by (simp add: ingest_inv_def)
  note look = batch_lookup [OF w sub]
  have own: "case bs_headers ?s (hh hdr) of None \<Rightarrow> True | Some b \<Rightarrow> b = hdr"
  proof (cases "bs_headers ?s (hh hdr)")
    case (Some b)
    have inj: "inj_on hh (set headers)" using w by (simp add: well_hashed_def)
    have "b = hdr \<or> bs_headers s (hh hdr) = Some b"
    proof (cases "map_of (rev (map (\<lambda>e. (hh (fst e), fst e)) (ig_validated st))) (hh hdr)")
      case None
      then show ?thesis using Some by (simp add: header_ops_headers map_add_def)
    next
      case (Some x)
      from map_of_SomeD [OF this] have "x \<in> set headers" "hh x = hh hdr" using sub by auto
      then have "x = hdr" using hdr inj by (simp add: inj_on_eq_iff)
      then show ?thesis using Some \<open>bs_headers ?s (hh hdr) = Some b\<close> by (simp add: header_ops_headers)
    qed
    then show ?thesis using Some w hdr by (auto simp: well_hashed_def split: option.splits)
  qed simp
  have attach: "attaches hh ?s hdr"
    if "hd_number hdr = 0 \<or> (\<exists>p. bs_headers ?s (parent_hash hdr) = Some p \<and> hd_number p + 1 = hd_number hdr)"
    using that own w hdr by (auto simp: attaches_def well_hashed_def)
  show ?thesis
  proof (cases "hh hdr \<in> ig_seen st")
    case True
    then show ?thesis using step i by (simp add: ingest_one_def)
  next
    case unseen: False
    show ?thesis
    proof (cases "resolve_parent hh s (ig_prev st) hdr (hh hdr) (get_header s (hh hdr) \<noteq> None)")
      case None
      then have "ig_validated st' = ig_validated st \<and> ig_prev st' = ig_prev st"
        using step unseen by (auto simp: ingest_one_def Let_def)
      then show ?thesis using i by (simp add: ingest_inv_def)
    next
      case (Some r)
      obtain pr td where r: "r = (pr, td)" by fastforce
      define acc where "acc = (bs_headers s (hh hdr) \<noteq> None \<or> (\<forall>p. pr = Some p \<longrightarrow> verify v hdr (Some p) = Accept))"
      have st': "acc \<and> ig_validated st' = ig_validated st @ [(hdr, td + contrib (hh hdr) hdr)]
          \<and> ig_prev st' = Some (hdr, td + contrib (hh hdr) hdr)"
        using step unseen Some clean
        by (auto simp: ingest_one_def Let_def r acc_def sound_freezer [OF s] split: verdict.splits if_splits option.splits)
      have par: "\<exists>p. (bs_headers s (parent_hash hdr) = Some p
            \<or> p \<in> fst ` set (ig_validated st) \<and> hh p = parent_hash hdr) \<and> verify v hdr (Some p) = Accept"
        if new: "bs_headers s (hh hdr) = None"
      proof -
        have "\<exists>p. pr = Some p \<and> (bs_headers s (parent_hash hdr) = Some p
            \<or> (\<exists>t. ig_prev st = Some (p, t)) \<and> hh p = parent_hash hdr)"
          using Some new
          by (cases "bs_headers s (parent_hash hdr)")
            (auto simp: resolve_parent_def r sound_freezer [OF s] Let_def split: option.splits prod.splits if_splits,
              metis+)
        then have "\<exists>p. pr = Some p \<and> (bs_headers s (parent_hash hdr) = Some p
            \<or> p \<in> fst ` set (ig_validated st) \<and> hh p = parent_hash hdr)"
          using i unfolding ingest_inv_def by blast
        then show ?thesis using st' new by (auto simp: acc_def)
      qed
      have "hd_number hdr = 0 \<or> (\<exists>p. bs_headers ?s (parent_hash hdr) = Some p \<and> hd_number p + 1 = hd_number hdr)"
      proof (cases "bs_headers s (hh hdr)")
        case None
        from par [OF this] num look show ?thesis by (metis (no_types, lifting))
      next
        case (Some b)
        then have "b = hdr" using w hdr by (auto simp: well_hashed_def split: option.splits)
        then show ?thesis using Some s look(2) unfolding sound_store_def ancestry_closed_def by blast
      qed
      from attach [OF this] have "attaches_all hh s (ig_validated st')"
        using i st' by (simp add: attaches_all_snoc ingest_inv_def)
      moreover have V: "fst ` set (ig_validated st') = insert hdr (fst ` set (ig_validated st))" using st' by simp
      moreover have "\<forall>x \<in> insert hdr (fst ` set (ig_validated st)). bs_headers s (hh x) = None \<longrightarrow>
          (\<exists>p. (bs_headers s (parent_hash x) = Some p
               \<or> p \<in> insert hdr (fst ` set (ig_validated st)) \<and> hh p = parent_hash x)
             \<and> verify v x (Some p) = Accept)"
        using i par unfolding ingest_inv_def by blast
      ultimately show ?thesis using st' hdr sub unfolding ingest_inv_def V by simp
    qed
  qed
qed


lemma ingest_loop_clean:
  assumes s: "sound_store s" and w: "well_hashed hh s headers"
    and num: "\<And>h p. verify v h (Some p) = Accept \<Longrightarrow> hd_number h = hd_number p + 1"
  shows "ingest_loop hh v contrib nu s hdrs st = Some st' \<Longrightarrow> set hdrs \<subseteq> set headers \<Longrightarrow>
    \<exists>k \<le> length hdrs. ig_skipped st' = ig_skipped st + of_nat k
      \<and> (k = 0 \<longrightarrow> ingest_inv hh v s headers st \<longrightarrow> ingest_inv hh v s headers st')"
proof (induction hdrs arbitrary: st)
  case (Cons hdr hdrs)
  then obtain st1 where st1: "ingest_one hh v contrib nu s hdr st = Some st1"
    "ingest_loop hh v contrib nu s hdrs st1 = Some st'" by (auto split: option.splits)
  with Cons.IH [of st1] Cons.prems(2) obtain k where k: "k \<le> length hdrs" "ig_skipped st' = ig_skipped st1 + of_nat k"
    "k = 0 \<longrightarrow> ingest_inv hh v s headers st1 \<longrightarrow> ingest_inv hh v s headers st'" by auto
  have "ig_skipped st1 = ig_skipped st \<or> ig_skipped st1 = ig_skipped st + 1"
    using st1(1) by (auto simp: ingest_one_def Let_def split: if_splits option.splits verdict.splits)
  then show ?case
  proof
    assume same: "ig_skipped st1 = ig_skipped st"
    have "hdr \<in> set headers" using Cons.prems(2) by simp
    from ingest_one_inv [OF s w this num _ st1(1) same] k same show ?thesis
      by (intro exI [of _ k]) auto
  next
    assume "ig_skipped st1 = ig_skipped st + 1"
    then show ?thesis using k by (intro exI [of _ "Suc k"]) auto
  qed
qed simp

lemma set_ascending: "set (ascending hs) = set hs" "length (ascending hs) = length hs"
  by (simp_all add: ascending_def)

text \<open>C7. When no header of a chunk is refused, ingesting it keeps the position sound: it passes the
  coherence check at every scope, no header already held changes, and every header that enters the
  store was accepted by the verifier against the block its parent hash names, itself in the store.\<close>

theorem ingest_clean_chunk:
  assumes s: "sound_store s" and w: "well_hashed hh s headers" and len: "length headers < 2 ^ 64"
    and num: "\<And>h p. verify v h (Some p) = Accept \<Longrightarrow> hd_number h = hd_number p + 1"
    and run: "ingest_headers hh v contrib nu headers (s, u) = Some (Inr r, s', u')"
    and clean: "ing_rejected r = 0"
  shows "sound_store s' \<and> check hh s' None sc = None
    \<and> (\<forall>h b. bs_headers s h = Some b \<longrightarrow> bs_headers s' h = Some b)
    \<and> (\<forall>h b. bs_headers s' h = Some b \<longrightarrow> bs_headers s h = Some b
         \<or> b \<in> set headers \<and> hh b = h
           \<and> (\<exists>p. bs_headers s' (parent_hash b) = Some p \<and> verify v b (Some p) = Accept))"
proof (cases "headers = []")
  case True
  then have "s' = s" using run by (simp add: ingest_headers_def)
  then show ?thesis using s coherent_check by (simp add: sound_store_def)
next
  case False
  then obtain st where st: "ingest_loop hh v contrib nu s (ascending headers) (ingest_start u) = Some st"
    and s': "s' = snd (store_headers_batch hh s (ig_validated st) (bs_head s) (head_td s))"
    and sk: "ig_skipped st = 0"
    using run clean by (auto simp: ingest_headers_def split: option.splits prod.splits sum.splits)
  have "ingest_inv hh v s headers (ingest_start u)" by (simp add: ingest_inv_def ingest_start_def)
  moreover from ingest_loop_clean [OF s w num st] obtain k where k: "k \<le> length headers"
    "ig_skipped st = of_nat k"
    "k = 0 \<longrightarrow> ingest_inv hh v s headers (ingest_start u) \<longrightarrow> ingest_inv hh v s headers st"
    by (auto simp: set_ascending ingest_start_def)
  moreover have "k = 0"
  proof (rule ccontr)
    assume "k \<noteq> 0"
    moreover have "2 ^ 64 dvd k" using k(2) sk by (simp add: word_of_nat_eq_0_iff)
    ultimately have "2 ^ 64 \<le> k" by (intro dvd_imp_le) simp_all
    then show False using k(1) len by simp
  qed
  ultimately have i: "ingest_inv hh v s headers st" by simp
  let ?s = "write_batch (concat (map (header_ops hh) (ig_validated st))) s"
  have h': "bs_headers s' = bs_headers ?s" by (simp add: s' store_batch_keeps)
  have sub: "fst ` set (ig_validated st) \<subseteq> set headers" using i by (simp add: ingest_inv_def)
  note look = batch_lookup [OF w sub]
  have snd': "sound_store s'" unfolding s' using i by (intro sound_batch [OF s]) (simp add: ingest_inv_def)
  moreover have "check hh s' None sc = None" using snd' coherent_check by (simp add: sound_store_def)
  moreover have "bs_headers s h = Some b \<or> b \<in> set headers \<and> hh b = h
      \<and> (\<exists>p. bs_headers s' (parent_hash b) = Some p \<and> verify v b (Some p) = Accept)"
    if b: "bs_headers s' h = Some b" for h b
  proof (cases "bs_headers s h = Some b")
    case False
    then have e: "b \<in> fst ` set (ig_validated st)" "hh b = h"
      using b by (auto simp: h' header_ops_headers map_add_Some_iff dest!: map_of_SomeD)
    then have bh: "b \<in> set headers" using sub by blast
    have "bs_headers s (hh b) = None"
      using False bh w e(2) by (cases "bs_headers s (hh b)") (fastforce simp: well_hashed_def)+
    then obtain p where "bs_headers s (parent_hash b) = Some p
        \<or> p \<in> fst ` set (ig_validated st) \<and> hh p = parent_hash b" "verify v b (Some p) = Accept"
      using i e(1) unfolding ingest_inv_def by blast
    then have "bs_headers s' (parent_hash b) = Some p \<and> verify v b (Some p) = Accept"
      using look by (auto simp: h')
    then show ?thesis using e sub by auto
  qed simp
  ultimately show ?thesis using look(2) by (simp add: h')
qed

text \<open>A chunk of two headers on top of the sample chain, sent newest first, with a stray third.\<close>

definition number_verifier :: header_verifier where
  "number_verifier = with_parent_rule block_number_rule (with_static_rule (extra_data_rule 1) hv_new)"

definition sample_contribution :: "b256 \<Rightarrow> header \<Rightarrow> u256" where
  "sample_contribution = contribution (\<lambda>_. None) (\<lambda>_. None) []"

definition sample_note :: "b256 \<Rightarrow> u64 \<Rightarrow> unlinked_headers \<Rightarrow> unlinked_headers" where
  "sample_note h n u = record_header 0 [7] h n 5 u"

definition sample_chunk :: "header list" where
  "sample_chunk = [sample_header 9 1 [8, 1], sample_header 4 1 [3, 1], sample_header 3 1 [2, 1]]"

lemma number_verifier_next: "verify number_verifier h (Some p) = Accept \<Longrightarrow> hd_number h = hd_number p + 1"
  by (auto simp: verify_def number_verifier_def with_parent_rule_def with_static_rule_def hv_new_def
      block_number_rule_def split: if_splits)

lemma sample_chunk_hashed: "well_hashed sample_hash sample_store sample_chunk"
proof -
  have "bs_headers sample_store [9, 1] = None" "bs_headers sample_store [4, 1] = None"
    "bs_headers sample_store [3, 1] = None"
    by code_simp+
  then show ?thesis
    by (auto simp: well_hashed_def sample_chunk_def sample_header_def sample_hash_def u64_max_def)
qed

theorem ingest_clean_chunk_witness:
  "\<exists>r s' u'. ingest_headers sample_hash number_verifier sample_contribution sample_note sample_chunk (sample_store, [])
       = Some (Inr r, s', u')
     \<and> ing_stored r = 2 \<and> ing_unlinked r = 1 \<and> bs_head s' = Some [4, 1] \<and> sound_store s'
     \<and> check sample_hash s' None Full = None"
proof -
  let ?run = "ingest_headers sample_hash number_verifier sample_contribution sample_note sample_chunk (sample_store, [])"
  have "(case ?run of Some (Inr r, s', u') \<Rightarrow>
      ing_stored r = 2 \<and> ing_unlinked r = 1 \<and> ing_rejected r = 0 \<and> bs_head s' = Some [4, 1] | _ \<Rightarrow> False)"
    by code_simp
  then obtain r s' u' where run: "?run = Some (Inr r, s', u')" "ing_stored r = 2" "ing_unlinked r = 1"
    "ing_rejected r = 0" "bs_head s' = Some [4, 1]"
    by (auto split: option.splits prod.splits sum.splits)
  have "sound_store sample_store" by (rule reachable_sound [OF sample_store_reachable])
  moreover have "length sample_chunk < 2 ^ 64" by (simp add: sample_chunk_def)
  ultimately show ?thesis
    using ingest_clean_chunk [OF _ sample_chunk_hashed _ number_verifier_next run(1,4)] run by blast
qed

subsection \<open>A refused header as parent\<close>

lemma unindexed:
  "sound_store s \<Longrightarrow> bs_headers s h = None \<Longrightarrow> bs_numbers s n \<noteq> Some h"
  by (auto simp: sound_store_def coherent_def index_linked_def linked_def prune_floor_number_def)

lemma orphan_unprovable:
  assumes "bs_freezer s = None" "bs_prune_floor s = None" "bs_headers s h = Some b" "hd_number b \<noteq> 0"
    "bs_numbers s (hd_number b) \<noteq> Some h" "bs_headers s (parent_hash b) = None"
  shows "prove hh s h = Inl (MissingHeader (hd_number b - 1) (parent_hash b))"
  using assms
  by (simp add: prove_def prune_floor_number_def prove_walk.simps [of hh s _ h b] Let_def)

text \<open>C40. A header that fails verification is not stored, but it is still taken as the parent of the
  next header of the chunk: a child that verifies against it is stored with its own and the refused
  header's difficulty added to the chain's, and when that total exceeds the head's the child becomes
  the head although its parent is not held.\<close>

theorem rejected_header_seeds_next:
  assumes s: "sound_store s" and p: "bs_headers s (parent_hash a) = Some p" "bs_td s (parent_hash a) = Some t"
    and new: "bs_headers s (hh a) = None" "bs_headers s (hh b) = None" "hh a \<noteq> hh b"
    and bad: "verify v a (Some p) = Reject e"
    and child: "parent_hash b = hh a" "verify v b (Some a) = Accept" "hd_number a < hd_number b"
    and run: "ingest_headers hh v contrib nu [a, b] (s, u) = Some (res, s', u')"
  shows "bs_headers s' (hh a) = None \<and> bs_headers s' (hh b) = Some b
    \<and> bs_td s' (hh b) = Some (t + contrib (hh a) a + contrib (hh b) b)
    \<and> (head_td s < t + contrib (hh a) a + contrib (hh b) b \<longrightarrow> bs_head s' = Some (hh b))"
proof -
  let ?td = "t + contrib (hh a) a + contrib (hh b) b"
  have asc: "ascending [a, b] = [a, b]" using child(3) by (auto simp: ascending_def)
  have "ingest_loop hh v contrib nu s [a, b] (ingest_start u) =
      Some ((ingest_start u)\<lparr> ig_seen := {hh a, hh b}, ig_skipped := 1, ig_prev := Some (b, ?td),
        ig_validated := [(b, ?td)] \<rparr>)"
    using new p bad child
    by (simp add: ingest_one_def ingest_start_def resolve_parent_def Let_def sound_freezer [OF s] insert_commute)
  then have s': "s' = snd (store_headers_batch hh s [(b, ?td)] (bs_head s) (head_td s))"
    using run by (auto simp: ingest_headers_def asc split: prod.splits sum.splits)
  have k: "bs_headers s' = (bs_headers s)(hh b \<mapsto> b)" "bs_td s' = (bs_td s)(hh b \<mapsto> ?td)"
    using store_batch_keeps [of hh s "[(b, ?td)]" "bs_head s" "head_td s"]
    by (simp_all add: s' write_batch_def header_ops_def)
  let ?s = "write_batch (header_ops hh (b, ?td)) s"
  have "prove hh ?s (hh b) = Inl (MissingHeader (hd_number b - 1) (parent_hash b))"
    using s new child unindexed [OF s new(2)]
    by (intro orphan_unprovable) (auto simp: write_batch_def header_ops_def sound_store_def coherent_def)
  then have "bs_head (snd (move_head_to hh ?s (hh b) prev)) = Some (hh b)" for prev
    by (simp add: move_head_to_def update_canonical_chain_def set_head_def)
  moreover have "bs_head s \<noteq> Some (hh b)"
    using s unindexed [OF s new(2)] by (auto simp: sound_store_def coherent_def head_on_top_def)
  ultimately have "bs_head s' = Some (hh b)" if "head_td s < ?td"
    using that
    by (simp add: s' store_headers_batch_def header_ops_def Let_def split: prod.splits sum.splits)
      (metis snd_conv)
  then show ?thesis using k new by simp
qed

text \<open>
  The node ends with a head whose parent it does not hold, and the coherence check reports it: the
  refused header has two bytes of extra data where one is allowed.
\<close>

definition refused_header :: header where
  "refused_header = (sample_header 3 2 [2, 1])\<lparr> extra_data := [2, 2] \<rparr>"

definition seeded_header :: header where
  "seeded_header = sample_header 4 1 [3, 2, 2]"

theorem rejected_header_seeds_next_witness:
  "\<exists>res s' u'. ingest_headers sample_hash number_verifier sample_contribution sample_note
         [refused_header, seeded_header] (sample_store, []) = Some (res, s', u')
     \<and> bs_headers s' [3, 2, 2] = None \<and> bs_head s' = Some [4, 1] \<and> check sample_hash s' None Full \<noteq> None"
proof -
  let ?run = "ingest_headers sample_hash number_verifier sample_contribution sample_note
         [refused_header, seeded_header] (sample_store, [])"
  have "(case ?run of Some (_, s', _) \<Rightarrow> check sample_hash s' None Full \<noteq> None | None \<Rightarrow> False)" by code_simp
  then obtain res s' u' where run: "?run = Some (res, s', u')" and c: "check sample_hash s' None Full \<noteq> None"
    by (auto split: option.splits prod.splits)
  have h: "sample_hash refused_header = [3, 2, 2]" "sample_hash seeded_header = [4, 1]" by code_simp+
  have "bs_headers sample_store (parent_hash refused_header) = Some (sample_header 2 1 [1, 1])"
    "bs_td sample_store (parent_hash refused_header) = Some 3"
    "bs_headers sample_store (sample_hash refused_header) = None"
    "bs_headers sample_store (sample_hash seeded_header) = None"
    "sample_hash refused_header \<noteq> sample_hash seeded_header"
    "verify number_verifier refused_header (Some (sample_header 2 1 [1, 1])) = Reject (ExtraDataTooLarge 1 2)"
    "parent_hash seeded_header = sample_hash refused_header"
    "verify number_verifier seeded_header (Some refused_header) = Accept"
    "hd_number refused_header < hd_number seeded_header"
    by code_simp+
  note r = rejected_header_seeds_next [OF reachable_sound [OF sample_store_reachable] this run]
  have "head_td sample_store < 3 + sample_contribution (sample_hash refused_header) refused_header
      + sample_contribution (sample_hash seeded_header) seeded_header"
    by code_simp
  with r h c run show ?thesis by auto
qed

subsection \<open>Judging uncles terminates\<close>

lemma ancestry_loop_total:
  assumes l: "links_down (guarded_ancestors g s)"
  shows "ancestry_loop g s floor cursor \<noteq> None"
proof (induction "case ug_look_up g s cursor of Some hdr \<Rightarrow> Suc (unat (hd_number hdr)) | None \<Rightarrow> 0"
    arbitrary: cursor rule: less_induct)
  case less
  show ?case
  proof (cases "ug_look_up g s cursor")
    case None
    then show ?thesis by (simp add: ancestry_loop.simps [of g s "floor" cursor] del: not_None_eq)
  next
    case (Some hdr)
    show ?thesis
    proof (cases "hd_number hdr = 0")
      case True
      then show ?thesis using Some by (simp add: ancestry_loop.simps [of g s "floor" cursor] del: not_None_eq)
    next
      case False
      have "ancestry_loop g s floor (parent_hash hdr) \<noteq> None"
      proof (rule less)
        show "(case ug_look_up g s (parent_hash hdr) of Some hdr \<Rightarrow> Suc (unat (hd_number hdr)) | None \<Rightarrow> 0)
            < (case ug_look_up g s cursor of Some hdr \<Rightarrow> Suc (unat (hd_number hdr)) | None \<Rightarrow> 0)"
          using Some links_down_less [OF l, of cursor hdr] False
          by (auto simp: guarded_ancestors_def split: option.splits)
      qed
      then show ?thesis using Some by (simp add: ancestry_loop.simps [of g s "floor" cursor] del: not_None_eq)
    qed
  qed
qed

lemma and_then_no_panic: "a \<noteq> Panics \<Longrightarrow> b \<noteq> Panics \<Longrightarrow> and_then a b \<noteq> Panics"
  by (auto simp: and_then_def split: verdict.splits)

lemma all_rules_no_panic: "(\<And>r. r \<in> set rs \<Longrightarrow> f r \<noteq> Panics) \<Longrightarrow> all_rules f rs \<noteq> Panics"
  by (induction rs) (simp_all add: and_then_no_panic)

lemma check_uncles_no_panic:
  assumes "\<And>r h. r \<in> set (ur_header_rules rule) \<Longrightarrow> r h \<noteq> Panics"
    "\<And>r h p. r \<in> set (ur_parent_rules rule) \<Longrightarrow> r h p \<noteq> Panics"
  shows "check_uncles hh rule n anc used seen us \<noteq> Panics"
proof (induction us arbitrary: seen)
  case (Cons u us)
  have "all_rules (\<lambda>r. r u) (ur_header_rules rule) \<noteq> Panics"
    by (rule all_rules_no_panic) (rule assms(1))
  moreover have "all_rules (\<lambda>r. r u p) (ur_parent_rules rule) \<noteq> Panics" for p
    by (rule all_rules_no_panic) (rule assms(2))
  ultimately have "check_uncle hh rule n anc used seen u \<noteq> Panics"
    unfolding check_uncle_def by (intro and_then_no_panic) (simp_all add: Let_def split: option.splits)
  with Cons show ?case by (simp add: and_then_no_panic)
qed simp

lemma walks_total:
  assumes "links_down src"
  shows "ancestors_loop src floor h out \<noteq> None" "used_uncles_loop hh src floor h out \<noteq> None"
proof -
  show "ancestors_loop src floor h out \<noteq> None"
    using ancestors_loop_total [OF assms, of h _ "floor" out]
    by (cases "as_header src h") (auto simp: ancestors_loop.simps [of src "floor" h])
  show "used_uncles_loop hh src floor h out \<noteq> None"
    using used_uncles_loop_spec [OF assms, of h _ hh "floor" out]
    by (cases "as_header src h") (auto simp: used_uncles_loop.simps [of hh src "floor" h])
qed

lemma validate_uncles_total:
  assumes "links_down (ur_store rule)"
    "\<And>r h. r \<in> set (ur_header_rules rule) \<Longrightarrow> r h \<noteq> Panics"
    "\<And>r h p. r \<in> set (ur_parent_rules rule) \<Longrightarrow> r h p \<noteq> Panics"
  obtains r where "validate_uncles hh rule b = Some r" "r \<noteq> Panics"
proof -
  have "check_uncles hh rule n anc used seen us \<noteq> Panics" for n anc used seen us
    using assms(2,3) by (rule check_uncles_no_panic)
  then have "\<exists>r. validate_uncles hh rule b = Some r \<and> r \<noteq> Panics"
    using walks_total [OF assms(1)]
    by (auto simp: validate_uncles_def ancestors_def used_uncles_def Let_def simp del: not_None_eq split: option.splits)
  then show ?thesis using that by blast
qed

text \<open>C22. Where parent links lead one height down and no rule panics, judging the uncles sent with a
  header always returns. Difficulty is credited only for a list the header commits to, of at most
  ten distinct uncles, each passing every header rule and none among the uncles the window holds for
  a block of the header's ancestry within the generation limit; a refusal leaves the window alone.\<close>

theorem uncles_judged:
  assumes links: "links_down (guarded_ancestors g s)"
    and rules: "\<And>r h. r \<in> set (static_rules v) \<Longrightarrow> r h \<noteq> Panics"
      "\<And>r h p. r \<in> set (parent_rules v) \<Longrightarrow> r h p \<noteq> Panics"
  shows "\<exists>ok g'. uncles_are_proven hh committed s v e g = Some (ok, g')
    \<and> (if ok then committed e \<and> g' = ug_record hh (hwu_header e) (hwu_uncles e) g
         \<and> length (hwu_uncles e) \<le> 10 \<and> distinct (map hh (hwu_uncles e))
         \<and> (\<forall>u \<in> set (hwu_uncles e). \<forall>r \<in> set (static_rules v). r u = Accept)
         \<and> (\<forall>a ahdr us. ancestor_path (guarded_ancestors g s) (parent_hash (hwu_header e)) a
              \<longrightarrow> ug_look_up g s a = Some ahdr \<longrightarrow> ug_by_block g a = Some us
              \<longrightarrow> saturating_sub (hd_number (hwu_header e)) 7 \<le> hd_number ahdr
              \<longrightarrow> hh ` set (hwu_uncles e) \<inter> hh ` set us = {})
       else g' = g)"
proof -
  let ?h = "hwu_header e" and ?us = "hwu_uncles e" and ?src = "guarded_ancestors g s" and ?rule = "guard_rule g s v"
  let ?b = "\<lparr> blk_header = ?h, blk_transactions = [], blk_ommers = ?us \<rparr>"
  have src: "ur_store ?rule = ?src" "ur_header_rules ?rule = static_rules v" "ur_parent_rules ?rule = parent_rules v"
    "ur_generation_limit ?rule = 7" "ur_list_limit ?rule = 10"
    by (simp_all add: guard_rule_def UNCLE_GENERATION_LIMIT_def UNCLE_LIST_LIMIT_def)
  obtain r where r: "validate_uncles hh ?rule ?b = Some r" "r \<noteq> Panics"
    using validate_uncles_total [of ?rule hh ?b] links rules src by auto
  obtain c where c: "ancestry_is_complete g s (hd_number ?h) (parent_hash ?h) = Some c"
    using ancestry_loop_total [OF links] by (auto simp: ancestry_is_complete_def)
  have "\<exists>o1. uncles_are_admissible hh g s v ?h ?us = Some o1 \<and> (isl o1 \<or> ?us = [] \<or> r = Accept)"
    using r c by (cases r; cases c) (auto simp: uncles_are_admissible_def rule_outcome_def)
  then obtain o1 where adm: "uncles_are_admissible hh g s v ?h ?us = Some o1"
    and acc: "isl o1 \<or> ?us = [] \<or> r = Accept" by blast
  have good: "length ?us \<le> 10 \<and> distinct (map hh ?us) \<and> (\<forall>u \<in> set ?us. \<forall>r \<in> set (static_rules v). r u = Accept)
      \<and> (\<forall>a ahdr us. ancestor_path ?src (parent_hash ?h) a \<longrightarrow> ug_look_up g s a = Some ahdr
           \<longrightarrow> ug_by_block g a = Some us \<longrightarrow> saturating_sub (hd_number ?h) 7 \<le> hd_number ahdr
           \<longrightarrow> hh ` set ?us \<inter> hh ` set us = {})"
    if "\<not> isl o1"
  proof (cases "?us = []")
    case False
    with acc that r(1) have v: "validate_uncles hh ?rule ?b = Some Accept" by auto
    then obtain anc used where w: "used_uncles_loop hh ?src (saturating_sub (hd_number ?h) 7) (parent_hash ?h) {} = Some used"
      "length ?us \<le> 10" "check_uncles hh ?rule (hd_number ?h) anc used {} ?us = Accept"
      using False by (auto simp: validate_uncles_def used_uncles_def src Let_def not_less split: option.splits if_splits)
    note chk = check_uncles_Accept [OF w(3), unfolded src]
    have "hh ` set us \<subseteq> used"
      if a: "ancestor_path ?src (parent_hash ?h) a" "ug_look_up g s a = Some ahdr" "ug_by_block g a = Some us"
        "saturating_sub (hd_number ?h) 7 \<le> hd_number ahdr" for a ahdr us
    proof -
      obtain p where p: "as_header ?src (parent_hash ?h) = Some p" using ancestor_path_start [OF a(1)] by auto
      have "as_header ?src a = Some ahdr" "as_uncles_of ?src a = us" using a by (simp_all add: guarded_ancestors_def)
      then show ?thesis using used_uncles_loop_spec [OF links p, of hh _ "{}"] w(1) a by fastforce
    qed
    then show ?thesis using chk w(2) by blast
  qed simp
  show ?thesis
  proof (cases "committed e \<and> \<not> isl o1")
    case True
    then show ?thesis using adm good by (cases o1) (auto simp: uncles_are_proven_def)
  next
    case False
    then show ?thesis using adm by (cases o1) (auto simp: uncles_are_proven_def)
  qed
qed

text \<open>A sibling of the canonical block 1, sent as the uncle of a block 3 with blocks 1 and 2 in the window.\<close>

definition sample_guard :: uncle_guard where
  "sample_guard = ug_record sample_hash (sample_header 2 1 [1, 1]) []
     (ug_record sample_hash (sample_header 1 1 [0, 0]) [] ug_new)"

definition sample_entry :: header_with_uncles where
  "sample_entry = \<lparr> hwu_header = (sample_header 3 1 [2, 1])\<lparr> uncle_count := 1 \<rparr>,
     hwu_uncles = [sample_header 1 2 [0, 0]] \<rparr>"

lemma sample_links: "links_down (guarded_ancestors sample_guard sample_store)"
proof -
  have "bs_headers sample_store = [[0, 0] \<mapsto> sample_header 0 0 [], [1, 1] \<mapsto> sample_header 1 1 [0, 0],
      [2, 1] \<mapsto> sample_header 2 1 [1, 1]]"
    by (simp add: sample_store_def store_batch_keeps write_batch_def header_ops_def empty_store_def
        sample_header_def sample_hash_def)
  moreover have "ug_headers sample_guard = [[1, 1] \<mapsto> sample_header 1 1 [0, 0], [2, 1] \<mapsto> sample_header 2 1 [1, 1]]"
    by (simp add: sample_guard_def ug_record_def ug_new_def sample_header_def sample_hash_def Let_def
        saturating_sub_def SLACK_def UNCLE_GENERATION_LIMIT_def)
  moreover have "bs_freezer sample_store = None"
    using sample_store_coherent by (simp add: coherent_def)
  ultimately show ?thesis
    by (auto simp: links_down_def guarded_ancestors_def ug_look_up_def sample_header_def split: option.splits if_splits)
qed

theorem uncles_judged_witness:
  "\<exists>g'. uncles_are_proven sample_hash (commitment_matches (\<lambda>h. [0]) (\<lambda>n. [0xC0]) (\<lambda>_. [])) sample_store
        number_verifier sample_entry sample_guard = Some (True, g')
     \<and> g' = ug_record sample_hash (hwu_header sample_entry) (hwu_uncles sample_entry) sample_guard"
proof -
  let ?run = "uncles_are_proven sample_hash (commitment_matches (\<lambda>h. [0]) (\<lambda>n. [0xC0]) (\<lambda>_. [])) sample_store
        number_verifier sample_entry sample_guard"
  have "map_option fst ?run = Some True" by code_simp
  moreover have "r h \<noteq> Panics" if "r \<in> set (static_rules number_verifier)" for r h
    using that by (auto simp: number_verifier_def with_parent_rule_def with_static_rule_def hv_new_def extra_data_rule_def)
  moreover have "r h p \<noteq> Panics" if "r \<in> set (parent_rules number_verifier)" for r h p
    using that by (auto simp: number_verifier_def with_parent_rule_def with_static_rule_def hv_new_def block_number_rule_def)
  ultimately show ?thesis
    using uncles_judged [OF sample_links, of number_verifier sample_hash
        "commitment_matches (\<lambda>h. [0]) (\<lambda>n. [0xC0]) (\<lambda>_. [])" sample_entry]
    by (auto split: if_splits)
qed

end
