(* ===== verification/Collision.thy ===== *)
theory Collision
  imports Key_Mapper Validation "HOL-Library.List_Lexorder"
begin

text \<open>
  Read and write sets of the parallel sublists of a block and the collision rule
  (\<open>crates/execution/src/collision.rs\<close>). The recorder lives in a thread-local slot, here the state
  the operations thread, \<open>None\<close> when the slot is empty. What revm answers about an account after a
  transaction is the record \<open>evm_account\<close>; its journal entries are the datatype \<open>journal_entry\<close>.
  \<open>kec\<close> is Keccak-256.
\<close>

subsection \<open>The tracker\<close>

record sublist_keys =
  sk_read :: "bytes set"
  sk_written :: "bytes set"

definition no_keys :: sublist_keys where
  "no_keys = \<lparr> sk_read = {}, sk_written = {} \<rparr>"

record collision_tracker =
  ct_sublists :: "sublist_keys list"
  ct_current :: nat

definition ct_new :: collision_tracker where
  "ct_new = \<lparr> ct_sublists = [], ct_current = 0 \<rparr>"

definition resize :: "nat \<Rightarrow> sublist_keys list \<Rightarrow> sublist_keys list" where
  "resize n ks = ks @ replicate (n - length ks) no_keys"

definition ensure :: "nat \<Rightarrow> collision_tracker \<Rightarrow> collision_tracker" where
  "ensure i t = (if length (ct_sublists t) \<le> i then t\<lparr> ct_sublists := resize (i + 1) (ct_sublists t) \<rparr> else t)"

definition set_sublist :: "nat \<Rightarrow> collision_tracker \<Rightarrow> collision_tracker" where
  "set_sublist i t =
     (if length (ct_sublists t) \<le> i then t\<lparr> ct_sublists := resize (i + 1) (ct_sublists t) \<rparr> else t)\<lparr> ct_current := i \<rparr>"

definition update_current :: "(sublist_keys \<Rightarrow> sublist_keys) \<Rightarrow> collision_tracker \<Rightarrow> collision_tracker" where
  "update_current f t =
     (let t1 = ensure (ct_current t) t; i = ct_current t
      in t1\<lparr> ct_sublists := (ct_sublists t1)[i := f (ct_sublists t1 ! i)] \<rparr>)"

definition note_read :: "bytes \<Rightarrow> collision_tracker \<Rightarrow> collision_tracker" where
  "note_read key = update_current (\<lambda>k. k\<lparr> sk_read := insert key (sk_read k) \<rparr>)"

definition note_write :: "bytes \<Rightarrow> collision_tracker \<Rightarrow> collision_tracker" where
  "note_write key = update_current (\<lambda>k. k\<lparr> sk_written := insert key (sk_written k) \<rparr>)"

fun absorb_from :: "nat \<Rightarrow> sublist_keys list \<Rightarrow> collision_tracker \<Rightarrow> collision_tracker" where
  "absorb_from i [] t = t"
| "absorb_from i (k # ks) t =
     (let t1 = ensure i t;
          old = ct_sublists t1 ! i;
          new = old\<lparr> sk_read := sk_read old \<union> sk_read k, sk_written := sk_written old \<union> sk_written k \<rparr>
      in absorb_from (i + 1) ks (t1\<lparr> ct_sublists := (ct_sublists t1)[i := new] \<rparr>))"

definition absorb :: "collision_tracker \<Rightarrow> collision_tracker \<Rightarrow> collision_tracker" where
  "absorb other t = absorb_from 0 (ct_sublists other) t"

definition ct_clear :: "collision_tracker \<Rightarrow> collision_tracker" where
  "ct_clear t = t\<lparr> ct_sublists := [], ct_current := 0 \<rparr>"

definition sublist_count :: "collision_tracker \<Rightarrow> nat" where
  "sublist_count t = length (ct_sublists t)"

definition keys_of :: "nat \<Rightarrow> collision_tracker \<Rightarrow> sublist_keys option" where
  "keys_of i t = (if i < length (ct_sublists t) then Some (ct_sublists t ! i) else None)"

datatype collision_kind = WriteWrite | WriteRead

record collision =
  co_kind :: collision_kind
  co_a :: nat
  co_b :: nat
  co_key :: bytes

text \<open>The smallest common key; which of the two sets is scanned does not matter for it.\<close>

definition intersect :: "bytes set \<Rightarrow> bytes set \<Rightarrow> bytes option" where
  "intersect x y =
     (let (small, large) = (if card x \<le> card y then (x, y) else (y, x));
          common = {k \<in> small. k \<in> large}
      in if common = {} then None else Some (Min common))"

definition pair_collision :: "nat \<Rightarrow> sublist_keys \<Rightarrow> nat \<Rightarrow> sublist_keys \<Rightarrow> collision option" where
  "pair_collision a ka b kb =
     (case intersect (sk_written ka) (sk_written kb) of
        Some key \<Rightarrow> Some \<lparr> co_kind = WriteWrite, co_a = a, co_b = b, co_key = key \<rparr>
      | None \<Rightarrow>
          (case intersect (sk_written ka) (sk_read kb) of
             Some key \<Rightarrow> Some \<lparr> co_kind = WriteRead, co_a = a, co_b = b, co_key = key \<rparr>
           | None \<Rightarrow>
               (case intersect (sk_read ka) (sk_written kb) of
                  Some key \<Rightarrow> Some \<lparr> co_kind = WriteRead, co_a = b, co_b = a, co_key = key \<rparr>
                | None \<Rightarrow> None)))"

fun collide_with :: "nat \<Rightarrow> sublist_keys \<Rightarrow> nat \<Rightarrow> sublist_keys list \<Rightarrow> collision option" where
  "collide_with a ka b [] = None"
| "collide_with a ka b (kb # ks) =
     (case pair_collision a ka b kb of Some c \<Rightarrow> Some c | None \<Rightarrow> collide_with a ka (b + 1) ks)"

fun collide_from :: "nat \<Rightarrow> sublist_keys list \<Rightarrow> collision option" where
  "collide_from a [] = None"
| "collide_from a (ka # ks) =
     (case collide_with a ka (a + 1) ks of Some c \<Rightarrow> Some c | None \<Rightarrow> collide_from (a + 1) ks)"

definition first_collision :: "collision_tracker \<Rightarrow> collision option" where
  "first_collision t = collide_from 0 (ct_sublists t)"

definition detect_collision :: "collision_tracker \<Rightarrow> bool" where
  "detect_collision t = (first_collision t \<noteq> None)"

datatype write_semantics = Attempted | NetChanges

definition write_semantics_at :: "u64 \<Rightarrow> write_semantics" where
  "write_semantics_at block_number = Attempted"

subsection \<open>Sublists of a block\<close>

text \<open>An edge is a signed 16-bit integer; \<open>e as usize\<close> extends its sign to 64 bits.\<close>

definition edge_usize :: "16 word \<Rightarrow> nat" where
  "edge_usize e = nat (if sint e < 0 then 18446744073709551616 + sint e else sint e)"

definition sublist_of :: "nat \<Rightarrow> 16 word list \<Rightarrow> nat option" where
  "sublist_of index edges =
     (let i = length (filter (\<lambda>e. edge_usize e \<le> index) edges) in if i < length edges then Some i else None)"

fun ranges_loop :: "16 word list \<Rightarrow> nat \<Rightarrow> nat \<Rightarrow> (nat \<times> nat) list \<Rightarrow> (nat \<times> nat) list \<times> nat" where
  "ranges_loop [] tx_count start par = (par, start)"
| "ranges_loop (edge # edges) tx_count start par =
     (let end_at = min (nat (max (sint edge) 0)) tx_count;
          par1 = (if start < end_at then par @ [(start, end_at)] else par)
      in ranges_loop edges tx_count (max start end_at) par1)"

definition sublist_ranges :: "16 word list \<Rightarrow> nat \<Rightarrow> (nat \<times> nat) list \<times> (nat \<times> nat)" where
  "sublist_ranges edges tx_count =
     (let (par, start) = ranges_loop edges tx_count 0 [] in (par, (start, tx_count)))"

subsection \<open>The recorder\<close>

datatype attribution = Sublists "16 word list" | PerTransaction

record recorder =
  rec_tracker :: collision_tracker
  rec_attribution :: attribution
  rec_semantics :: write_semantics
  rec_excluded :: "address list"
  rec_sublist :: "nat option"
  rec_entries_seen :: nat

record recorder_config =
  rc_edges :: "16 word list"
  rc_excluded :: "address list"
  rc_semantics :: write_semantics

definition recorder_start :: "16 word list \<Rightarrow> address list \<Rightarrow> write_semantics \<Rightarrow> recorder option" where
  "recorder_start edges excluded semantics =
     Some \<lparr> rec_tracker = ct_new, rec_attribution = Sublists edges, rec_semantics = semantics,
            rec_excluded = excluded, rec_sublist = None, rec_entries_seen = 0 \<rparr>"

definition start_per_transaction :: "write_semantics \<Rightarrow> recorder option" where
  "start_per_transaction semantics =
     Some \<lparr> rec_tracker = ct_new, rec_attribution = PerTransaction, rec_semantics = semantics,
            rec_excluded = [], rec_sublist = None, rec_entries_seen = 0 \<rparr>"

definition recorder_config_of :: "recorder option \<Rightarrow> recorder_config option" where
  "recorder_config_of slot =
     (case slot of
        None \<Rightarrow> None
      | Some r \<Rightarrow>
          (case rec_attribution r of
             Sublists edges \<Rightarrow>
               Some \<lparr> rc_edges = edges, rc_excluded = rec_excluded r, rc_semantics = rec_semantics r \<rparr>
           | PerTransaction \<Rightarrow> None))"

definition start_from :: "recorder_config \<Rightarrow> recorder option" where
  "start_from config = recorder_start (rc_edges config) (rc_excluded config) (rc_semantics config)"

definition recorder_absorb :: "collision_tracker \<Rightarrow> recorder option \<Rightarrow> recorder option" where
  "recorder_absorb other = map_option (\<lambda>r. r\<lparr> rec_tracker := absorb other (rec_tracker r) \<rparr>)"

definition exclude :: "address \<Rightarrow> recorder option \<Rightarrow> recorder option" where
  "exclude addr = map_option (\<lambda>r.
     if addr \<in> set (rec_excluded r) then r else r\<lparr> rec_excluded := rec_excluded r @ [addr] \<rparr>)"

definition is_recording :: "recorder option \<Rightarrow> bool" where
  "is_recording slot = (slot \<noteq> None)"

definition records_attempted_writes :: "recorder option \<Rightarrow> bool" where
  "records_attempted_writes slot = (case slot of Some r \<Rightarrow> rec_semantics r = Attempted | None \<Rightarrow> False)"

definition recorder_finish :: "recorder option \<Rightarrow> collision_tracker option \<times> recorder option" where
  "recorder_finish slot = (map_option rec_tracker slot, None)"

definition begin_transaction :: "nat \<Rightarrow> recorder option \<Rightarrow> recorder option" where
  "begin_transaction index = map_option (\<lambda>r.
     let sub = (case rec_attribution r of Sublists edges \<Rightarrow> sublist_of index edges | PerTransaction \<Rightarrow> Some index);
         r1 = r\<lparr> rec_sublist := sub, rec_entries_seen := 0 \<rparr>
     in case sub of Some i \<Rightarrow> r1\<lparr> rec_tracker := set_sublist i (rec_tracker r1) \<rparr> | None \<Rightarrow> r1)"

definition with_sublist :: "(recorder \<Rightarrow> recorder) \<Rightarrow> recorder option \<Rightarrow> recorder option" where
  "with_sublist f = map_option (\<lambda>r. if rec_sublist r = None then r else f r)"

definition on_tracker :: "(collision_tracker \<Rightarrow> collision_tracker) \<Rightarrow> recorder \<Rightarrow> recorder" where
  "on_tracker f r = r\<lparr> rec_tracker := f (rec_tracker r) \<rparr>"

subsection \<open>What a transaction touched\<close>

record evm_slot =
  es_key :: b256
  es_transaction_id :: nat
  es_changed :: bool

record evm_account =
  ea_transaction_id :: nat
  ea_selfdestructed :: bool
  ea_selfdestructed_locally :: bool
  ea_loaded_as_not_existing :: bool
  ea_touched :: bool
  ea_info_changed :: bool
  ea_created_locally :: bool
  ea_code :: "bytes option"
  ea_storage :: "evm_slot list"

type_synonym evm_state = "(address \<times> evm_account) list"

definition record_slot :: "(bytes \<Rightarrow> b256) \<Rightarrow> nat \<Rightarrow> address \<Rightarrow> evm_slot \<Rightarrow> collision_tracker \<Rightarrow> collision_tracker" where
  "record_slot kec transaction_id addr cell t =
     (if es_transaction_id cell \<noteq> transaction_id then t
      else
        let key = storage_key kec addr (es_key cell); t1 = note_read key t
        in if es_changed cell then note_write key t1 else t1)"

definition record_account ::
  "(bytes \<Rightarrow> b256) \<Rightarrow> nat \<Rightarrow> address list \<Rightarrow> address \<times> evm_account \<Rightarrow> collision_tracker \<Rightarrow> collision_tracker" where
  "record_account kec transaction_id excluded = (\<lambda>(addr, acc) t.
     if ea_transaction_id acc \<noteq> transaction_id then t
     else if addr \<in> set excluded then t
     else
       let k = account_key kec addr;
           t1 = note_read k t;
           destroyed = (ea_selfdestructed acc \<or> ea_selfdestructed_locally acc);
           materialised = (ea_loaded_as_not_existing acc \<and> ea_touched acc);
           t2 = (if destroyed \<or> materialised \<or> ea_info_changed acc then note_write k t1 else t1);
           t3 = (if ea_created_locally acc \<and> (case ea_code acc of Some c \<Rightarrow> c \<noteq> [] | None \<Rightarrow> False)
                 then note_write (storage_prefix_key kec addr) (note_write (code_key kec addr) t2) else t2)
       in fold (record_slot kec transaction_id addr) (ea_storage acc) t3)"

definition record_transaction ::
  "(bytes \<Rightarrow> b256) \<Rightarrow> nat \<Rightarrow> evm_state \<Rightarrow> recorder option \<Rightarrow> recorder option" where
  "record_transaction kec transaction_id state =
     with_sublist (\<lambda>r. on_tracker (fold (record_account kec transaction_id (rec_excluded r)) state) r)"

datatype journal_entry =
    BalanceChange address
  | NonceChange address
  | NonceBump address
  | AccountDestroyed address
  | BalanceTransfer address address
  | AccountCreated address
  | CodeChange address
  | StorageChanged address b256
  | AccountTouched address
  | TransientStorageChange
  | AccountWarmed address
  | StorageWarmed address b256

definition write_account :: "(bytes \<Rightarrow> b256) \<Rightarrow> address list \<Rightarrow> address \<Rightarrow> collision_tracker \<Rightarrow> collision_tracker" where
  "write_account kec excluded addr t = (if addr \<notin> set excluded then note_write (account_key kec addr) t else t)"

fun note_entry ::
  "(bytes \<Rightarrow> b256) \<Rightarrow> address list \<Rightarrow> evm_state \<Rightarrow> journal_entry \<Rightarrow> collision_tracker \<Rightarrow> collision_tracker" where
  "note_entry kec excluded state (BalanceChange a) t = write_account kec excluded a t"
| "note_entry kec excluded state (NonceChange a) t = write_account kec excluded a t"
| "note_entry kec excluded state (NonceBump a) t = write_account kec excluded a t"
| "note_entry kec excluded state (AccountDestroyed a) t = write_account kec excluded a t"
| "note_entry kec excluded state (BalanceTransfer from_a to_a) t =
     write_account kec excluded to_a (write_account kec excluded from_a t)"
| "note_entry kec excluded state (AccountCreated a) t =
     (let t1 = write_account kec excluded a t
      in if a \<notin> set excluded then note_write (storage_prefix_key kec a) t1 else t1)"
| "note_entry kec excluded state (CodeChange a) t =
     (if a \<notin> set excluded then note_write (code_key kec a) t else t)"
| "note_entry kec excluded state (StorageChanged a key) t =
     (if a \<notin> set excluded then note_write (storage_key kec a key) t else t)"
| "note_entry kec excluded state (AccountTouched a) t =
     (case map_of state a of
        Some acc \<Rightarrow> if ea_loaded_as_not_existing acc then write_account kec excluded a t else t
      | None \<Rightarrow> t)"
| "note_entry kec excluded state TransientStorageChange t = t"
| "note_entry kec excluded state (AccountWarmed a) t = t"
| "note_entry kec excluded state (StorageWarmed a key) t = t"

definition note_journal_entries ::
  "(bytes \<Rightarrow> b256) \<Rightarrow> journal_entry list \<Rightarrow> evm_state \<Rightarrow> recorder option \<Rightarrow> recorder option" where
  "note_journal_entries kec entries state = with_sublist (\<lambda>r.
     if rec_semantics r \<noteq> Attempted then r
     else
       let from = min (rec_entries_seen r) (length entries)
       in (on_tracker (fold (note_entry kec (rec_excluded r) state) (drop from entries)) r)
            \<lparr> rec_entries_seen := length entries \<rparr>)"

definition forget_entries_above :: "nat \<Rightarrow> recorder option \<Rightarrow> recorder option" where
  "forget_entries_above len = map_option (\<lambda>r. r\<lparr> rec_entries_seen := min (rec_entries_seen r) len \<rparr>)"

definition note_storage_write_attempt ::
  "(bytes \<Rightarrow> b256) \<Rightarrow> address \<Rightarrow> b256 \<Rightarrow> recorder option \<Rightarrow> recorder option" where
  "note_storage_write_attempt kec addr key = with_sublist (\<lambda>r.
     if rec_semantics r \<noteq> Attempted \<or> addr \<in> set (rec_excluded r) then r
     else on_tracker (note_write (storage_key kec addr key)) r)"

definition record_raw_write ::
  "(bytes \<Rightarrow> b256) \<Rightarrow> address list \<Rightarrow> address \<times> b256 \<Rightarrow> collision_tracker \<Rightarrow> collision_tracker" where
  "record_raw_write kec excluded = (\<lambda>(addr, cell) t.
     if addr \<in> set excluded then t else note_write (storage_key kec addr cell) t)"

definition record_raw_writes ::
  "(bytes \<Rightarrow> b256) \<Rightarrow> (address \<times> b256) list \<Rightarrow> recorder option \<Rightarrow> recorder option" where
  "record_raw_writes kec writes = with_sublist (\<lambda>r. on_tracker (fold (record_raw_write kec (rec_excluded r)) writes) r)"

subsection \<open>What a reported collision is\<close>

definition conflict :: "sublist_keys \<Rightarrow> sublist_keys \<Rightarrow> bool" where
  "conflict ka kb = (sk_written ka \<inter> (sk_read kb \<union> sk_written kb) \<noteq> {} \<or> sk_read ka \<inter> sk_written kb \<noteq> {})"

definition finite_keys :: "sublist_keys \<Rightarrow> bool" where
  "finite_keys k = (finite (sk_read k) \<and> finite (sk_written k))"

lemma intersect_None: "intersect x y = None \<longleftrightarrow> x \<inter> y = {}"
  by (auto simp: intersect_def Let_def split: if_splits)

lemma intersect_Some:
  assumes "intersect x y = Some k" "finite x" "finite y"
  shows "k \<in> x \<inter> y \<and> (\<forall>k' \<in> x \<inter> y. k \<le> k')"
proof -
  have "\<exists>c. c = x \<inter> y \<and> c \<noteq> {} \<and> k = Min c"
    using assms(1) by (auto simp: intersect_def Let_def Collect_conj_eq Int_commute split: if_splits)
  then show ?thesis using assms(2,3) Min_in [of "x \<inter> y"] by (auto intro: Min_le)
qed

definition real_collision :: "collision \<Rightarrow> sublist_keys list \<Rightarrow> bool" where
  "real_collision c ks =
     (co_a c \<noteq> co_b c \<and> co_a c < length ks \<and> co_b c < length ks \<and> co_key c \<in> sk_written (ks ! co_a c)
      \<and> co_key c \<in> (case co_kind c of WriteWrite \<Rightarrow> sk_written (ks ! co_b c) | WriteRead \<Rightarrow> sk_read (ks ! co_b c)))"

lemma pair_collision_None: "pair_collision a ka b kb = None \<longleftrightarrow> \<not> conflict ka kb"
proof -
  have "conflict ka kb \<longleftrightarrow> intersect (sk_written ka) (sk_written kb) \<noteq> None
      \<or> intersect (sk_written ka) (sk_read kb) \<noteq> None \<or> intersect (sk_read ka) (sk_written kb) \<noteq> None"
    unfolding conflict_def intersect_None by blast
  then show ?thesis by (auto simp: pair_collision_def split: option.splits)
qed

lemma pair_collision_Some:
  assumes "pair_collision a (ks ! a) b (ks ! b) = Some c" "finite_keys (ks ! a)" "finite_keys (ks ! b)"
    "a < b" "b < length ks"
  shows "real_collision c ks"
  using assms
  by (auto simp: pair_collision_def real_collision_def finite_keys_def split: option.splits dest!: intersect_Some)

lemma collide_with_spec:
  assumes "\<forall>k \<in> set ks. finite_keys k" "a < length ks" "a < b"
  shows "case collide_with a (ks ! a) b (drop b ks) of
      None \<Rightarrow> \<forall>j. b \<le> j \<longrightarrow> j < length ks \<longrightarrow> \<not> conflict (ks ! a) (ks ! j)
    | Some c \<Rightarrow> real_collision c ks"
  using assms(3)
proof (induction "length ks - b" arbitrary: b)
  case 0
  then show ?case by simp
next
  case (Suc n)
  then have b: "b < length ks" by simp
  show ?case
  proof (cases "pair_collision a (ks ! a) b (ks ! b)")
    case None
    have "n = length ks - (b + 1)" "a < b + 1" using Suc.hyps(2) Suc.prems by auto
    note rest = Suc.hyps(1) [OF this]
    have "\<not> conflict (ks ! a) (ks ! b)" using None by (simp add: pair_collision_None)
    then have "\<not> conflict (ks ! a) (ks ! j)"
      if "b \<le> j" "\<forall>j. b + 1 \<le> j \<longrightarrow> j < length ks \<longrightarrow> \<not> conflict (ks ! a) (ks ! j)" "j < length ks" for j
      using that by (cases "j = b") auto
    then show ?thesis
      using rest None b by (auto simp: Cons_nth_drop_Suc [symmetric] split: option.splits)
  next
    case (Some c)
    then show ?thesis
      using b pair_collision_Some [OF Some] assms Suc.prems by (simp add: Cons_nth_drop_Suc [symmetric])
  qed
qed

lemma collide_from_spec:
  assumes "\<forall>k \<in> set ks. finite_keys k"
  shows "case collide_from a (drop a ks) of
      None \<Rightarrow> \<forall>i j. a \<le> i \<longrightarrow> i < j \<longrightarrow> j < length ks \<longrightarrow> \<not> conflict (ks ! i) (ks ! j)
    | Some c \<Rightarrow> real_collision c ks"
proof (induction "length ks - a" arbitrary: a)
  case 0
  then show ?case by simp
next
  case (Suc n)
  then have a: "a < length ks" by simp
  note inner = collide_with_spec [OF assms a, of "a + 1"]
  have "n = length ks - (a + 1)" using Suc.hyps(2) by auto
  note outer = Suc.hyps(1) [OF this]
  show ?case
    using a inner outer
    by (auto simp: Cons_nth_drop_Suc [symmetric] split: option.splits) (metis Suc_leI le_neq_implies_less)
qed

lemma first_collision_spec:
  assumes "\<forall>k \<in> set (ct_sublists t). finite_keys k"
  shows "case first_collision t of
      None \<Rightarrow> \<forall>i j. i < j \<longrightarrow> j < sublist_count t \<longrightarrow> \<not> conflict (ct_sublists t ! i) (ct_sublists t ! j)
    | Some c \<Rightarrow> real_collision c (ct_sublists t)"
  using collide_from_spec [OF assms, of 0] by (simp add: first_collision_def sublist_count_def split: option.splits)

lemma real_collision_conflict:
  assumes "real_collision c (ct_sublists t)"
  shows "\<exists>i j. i < j \<and> j < sublist_count t \<and> conflict (ct_sublists t ! i) (ct_sublists t ! j)"
proof -
  let ?i = "min (co_a c) (co_b c)" and ?j = "max (co_a c) (co_b c)"
  have "?i < ?j \<and> ?j < sublist_count t \<and> conflict (ct_sublists t ! ?i) (ct_sublists t ! ?j)"
    using assms by (auto simp: real_collision_def sublist_count_def conflict_def min_def max_def
        split: collision_kind.splits if_splits)
  then show ?thesis by blast
qed

text \<open>C26. The collision rule is exact: no collision is reported precisely when no two different
  sublists have a key that one writes and the other reads or writes, and a reported collision names
  two different sublists and a key the first wrote and the second wrote or read.\<close>

theorem first_collision_exact:
  assumes "\<forall>k \<in> set (ct_sublists t). finite_keys k"
  shows "(detect_collision t \<longleftrightarrow> (\<exists>i j. i < j \<and> j < sublist_count t \<and> conflict (ct_sublists t ! i) (ct_sublists t ! j)))
    \<and> (\<forall>c. first_collision t = Some c \<longrightarrow> real_collision c (ct_sublists t))"
proof (cases "first_collision t")
  case None
  then show ?thesis using first_collision_spec [OF assms] by (auto simp: detect_collision_def)
next
  case (Some c)
  then have c: "real_collision c (ct_sublists t)" using first_collision_spec [OF assms] by simp
  from real_collision_conflict [OF this] c Some show ?thesis by (simp add: detect_collision_def)
qed

theorem first_collision_exact_witness:
  "first_collision (note_read [2] (note_read [1] (set_sublist 2 (note_write [1] (set_sublist 0 ct_new)))))
     = Some \<lparr> co_kind = WriteRead, co_a = 0, co_b = 2, co_key = [1] \<rparr>
   \<and> conflict (ct_sublists (note_read [2] (note_read [1] (set_sublist 2 (note_write [1] (set_sublist 0 ct_new))))) ! 0)
       (ct_sublists (note_read [2] (note_read [1] (set_sublist 2 (note_write [1] (set_sublist 0 ct_new))))) ! 2)"
proof -
  let ?t = "note_read [2] (note_read [1] (set_sublist 2 (note_write [1] (set_sublist 0 ct_new))))"
  have f: "first_collision ?t = Some \<lparr> co_kind = WriteRead, co_a = 0, co_b = 2, co_key = [1] \<rparr>" by code_simp
  have ks: "ct_sublists ?t = [\<lparr> sk_read = {}, sk_written = {[1]} \<rparr>, no_keys, \<lparr> sk_read = {[1], [2]}, sk_written = {} \<rparr>]"
    by (auto simp: note_read_def note_write_def update_current_def ensure_def set_sublist_def resize_def ct_new_def
        no_keys_def Let_def numeral_2_eq_2)
  then have "\<forall>k \<in> set (ct_sublists ?t). finite_keys k" by (simp add: finite_keys_def no_keys_def)
  from first_collision_exact [OF this] f have "real_collision \<lparr> co_kind = WriteRead, co_a = 0, co_b = 2, co_key = [1] \<rparr> (ct_sublists ?t)"
    by blast
  then show ?thesis using f by (auto simp: real_collision_def conflict_def)
qed

end
