(* ===== verification/Partition.thy ===== *)
theory Partition
  imports Collision
begin

text \<open>
  Assigning the transactions of a block being built to sublists
  (\<open>crates/execution/src/mining/partition.rs\<close>). Sublist ids are indices into \<open>pt_sublists\<close>,
  the last one being the sequential sublist; an operation returns \<open>None\<close> where indexing with an id
  would panic.
\<close>

subsection \<open>Definitions\<close>

definition SEQUENTIAL_SUBLISTS :: u64 where "SEQUENTIAL_SUBLISTS = 1"

text \<open>\<open>None\<close> is a division by zero.\<close>

definition sublist_gas_limits :: "u64 \<Rightarrow> u64 \<Rightarrow> u64 \<Rightarrow> (u64 \<times> u64) option" where
  "sublist_gas_limits block_gas_limit parallel_count min_sequential =
     (let total = parallel_count + SEQUENTIAL_SUBLISTS
      in if total = 0 then None
         else if min_sequential \<le> block_gas_limit div total then
           let par = block_gas_limit div total in Some (par, block_gas_limit - parallel_count * par)
         else if block_gas_limit \<le> min_sequential then Some (0, block_gas_limit)
         else if parallel_count = 0 then None
         else
           let par = (block_gas_limit - min_sequential) div parallel_count
           in Some (par, block_gas_limit - parallel_count * par))"

record tx_footprint =
  fp_sender :: address
  fp_gas_limit :: u64
  fp_gas_used :: u64
  fp_reads :: "bytes list"
  fp_writes :: "bytes list"

record sublist =
  sl_gas_used :: u64
  sl_gas_limit :: u64
  sl_transactions :: "nat list"

definition fits :: "sublist \<Rightarrow> u64 \<Rightarrow> bool" where
  "fits s gl = (saturating_add (sl_gas_used s) gl \<le> sl_gas_limit s)"

record partitioner =
  written_by :: "bytes \<Rightarrow> nat option"
  read_by :: "bytes \<Rightarrow> nat set option"
  sender_of :: "address \<Rightarrow> nat option"
  pt_sublists :: "sublist list"

definition partitioner_new :: "nat \<Rightarrow> u64 \<Rightarrow> u64 \<Rightarrow> partitioner option" where
  "partitioner_new parallel_count block_gas_limit min_sequential =
     map_option (\<lambda>(parallel_limit, sequential_limit).
       \<lparr> written_by = Map.empty, read_by = Map.empty, sender_of = Map.empty,
         pt_sublists =
           replicate parallel_count \<lparr> sl_gas_used = 0, sl_gas_limit = parallel_limit, sl_transactions = [] \<rparr>
           @ [\<lparr> sl_gas_used = 0, sl_gas_limit = sequential_limit, sl_transactions = [] \<rparr>] \<rparr>)
       (sublist_gas_limits block_gas_limit (of_nat parallel_count) min_sequential)"

definition sequential :: "partitioner \<Rightarrow> nat" where
  "sequential p = length (pt_sublists p) - 1"

definition is_sequential :: "partitioner \<Rightarrow> nat \<Rightarrow> bool" where
  "is_sequential p i = (i = sequential p)"

text \<open>The minimum over the fitting parallel sublists, the first of several.\<close>

fun least_from :: "u64 \<Rightarrow> nat \<Rightarrow> sublist list \<Rightarrow> (nat \<times> u64) option \<Rightarrow> nat option" where
  "least_from gl i [] best = map_option fst best"
| "least_from gl i (s # ss) best =
     (let best1 = (if \<not> fits s gl then best
                   else case best of
                          None \<Rightarrow> Some (i, sl_gas_used s)
                        | Some (j, used) \<Rightarrow> if sl_gas_used s < used then Some (i, sl_gas_used s) else best)
      in least_from gl (i + 1) ss best1)"

definition least_used_parallel :: "partitioner \<Rightarrow> u64 \<Rightarrow> nat option" where
  "least_used_parallel p gl = least_from gl 0 (take (sequential p) (pt_sublists p)) None"

text \<open>The candidate so far, or the early return to the sequential sublist.\<close>

datatype search = ToSequential | Candidate "nat option"

definition connect :: "nat \<Rightarrow> nat option \<Rightarrow> search" where
  "connect i candidate =
     (case candidate of
        None \<Rightarrow> Candidate (Some i)
      | Some current \<Rightarrow> if current \<noteq> i then ToSequential else Candidate candidate)"

definition against_writer :: "partitioner \<Rightarrow> bytes \<Rightarrow> nat option \<Rightarrow> search" where
  "against_writer p key candidate =
     (case written_by p key of
        None \<Rightarrow> Candidate candidate
      | Some writer \<Rightarrow> if is_sequential p writer then ToSequential else connect writer candidate)"

definition against_readers :: "partitioner \<Rightarrow> bytes \<Rightarrow> nat option \<Rightarrow> search" where
  "against_readers p key candidate =
     (case read_by p key of
        None \<Rightarrow> Candidate candidate
      | Some readers \<Rightarrow>
          if 1 < card readers then ToSequential
          else if readers = {} then Candidate candidate
          else connect (Min readers) candidate)"

fun scan_reads :: "partitioner \<Rightarrow> bytes list \<Rightarrow> nat option \<Rightarrow> search" where
  "scan_reads p [] candidate = Candidate candidate"
| "scan_reads p (key # keys) candidate =
     (case against_writer p key candidate of
        ToSequential \<Rightarrow> ToSequential
      | Candidate c \<Rightarrow> scan_reads p keys c)"

fun scan_writes :: "partitioner \<Rightarrow> bytes list \<Rightarrow> nat option \<Rightarrow> search" where
  "scan_writes p [] candidate = Candidate candidate"
| "scan_writes p (key # keys) candidate =
     (case against_writer p key candidate of
        ToSequential \<Rightarrow> ToSequential
      | Candidate c \<Rightarrow>
          (case against_readers p key c of
             ToSequential \<Rightarrow> ToSequential
           | Candidate c' \<Rightarrow> scan_writes p keys c'))"

definition candidate_for :: "partitioner \<Rightarrow> tx_footprint \<Rightarrow> nat" where
  "candidate_for p tx =
     (let candidate = sender_of p (fp_sender tx)
      in if (case candidate of Some i \<Rightarrow> is_sequential p i | None \<Rightarrow> False) then sequential p
         else case scan_reads p (fp_reads tx) candidate of
                ToSequential \<Rightarrow> sequential p
              | Candidate c \<Rightarrow>
                  (case scan_writes p (fp_writes tx) c of
                     ToSequential \<Rightarrow> sequential p
                   | Candidate (Some i) \<Rightarrow> i
                   | Candidate None \<Rightarrow>
                       (case least_used_parallel p (fp_gas_limit tx) of Some i \<Rightarrow> i | None \<Rightarrow> sequential p)))"

definition add_reader :: "nat \<Rightarrow> bytes \<Rightarrow> (bytes \<Rightarrow> nat set option) \<Rightarrow> bytes \<Rightarrow> nat set option" where
  "add_reader i key m = m(key \<mapsto> insert i (case m key of Some s \<Rightarrow> s | None \<Rightarrow> {}))"

definition charge :: "nat \<Rightarrow> nat \<Rightarrow> u64 \<Rightarrow> sublist list \<Rightarrow> sublist list" where
  "charge index i gas ss =
     ss[i := (ss ! i)\<lparr> sl_gas_used := sl_gas_used (ss ! i) + gas, sl_transactions := sl_transactions (ss ! i) @ [index] \<rparr>]"

definition place :: "nat \<Rightarrow> nat \<Rightarrow> tx_footprint \<Rightarrow> partitioner \<Rightarrow> partitioner option" where
  "place index i tx p =
     (if length (pt_sublists p) \<le> i then None
      else Some (p\<lparr> pt_sublists := charge index i (fp_gas_used tx) (pt_sublists p),
                    read_by := fold (add_reader i) (fp_reads tx) (read_by p),
                    sender_of :=
                      (if is_sequential p i then (sender_of p)(fp_sender tx \<mapsto> i)
                       else if sender_of p (fp_sender tx) = None then (sender_of p)(fp_sender tx \<mapsto> i)
                       else sender_of p),
                    written_by := fold (\<lambda>key m. m(key \<mapsto> i)) (fp_writes tx) (written_by p) \<rparr>))"

definition seat :: "nat \<Rightarrow> nat \<Rightarrow> tx_footprint \<Rightarrow> partitioner \<Rightarrow> (nat option \<times> partitioner) option" where
  "seat index i tx p = map_option (\<lambda>p'. (Some i, p')) (place index i tx p)"

definition add :: "nat \<Rightarrow> tx_footprint \<Rightarrow> partitioner \<Rightarrow> (nat option \<times> partitioner) option" where
  "add index tx p =
     (let candidate = candidate_for p tx
      in if length (pt_sublists p) \<le> candidate then None
         else if fits (pt_sublists p ! candidate) (fp_gas_limit tx) then seat index candidate tx p
         else if is_sequential p candidate then Some (None, p)
         else if \<not> fits (pt_sublists p ! sequential p) (fp_gas_limit tx) then Some (None, p)
         else seat index (sequential p) tx p)"

definition add_to_sequential :: "nat \<Rightarrow> tx_footprint \<Rightarrow> partitioner \<Rightarrow> (nat option \<times> partitioner) option" where
  "add_to_sequential index tx p =
     (if pt_sublists p = [] then None
      else if \<not> fits (pt_sublists p ! sequential p) (fp_gas_limit tx) then Some (None, p)
      else seat index (sequential p) tx p)"

definition add_remasc :: "nat \<Rightarrow> u64 \<Rightarrow> partitioner \<Rightarrow> (nat \<times> partitioner) option" where
  "add_remasc index used p =
     (if pt_sublists p = [] then None
      else Some (sequential p, p\<lparr> pt_sublists := charge index (sequential p) used (pt_sublists p) \<rparr>))"

definition gas_used_in :: "nat \<Rightarrow> partitioner \<Rightarrow> u64 option" where
  "gas_used_in i p = (if i < length (pt_sublists p) then Some (sl_gas_used (pt_sublists p ! i)) else None)"

definition gas_used_in_sequential :: "partitioner \<Rightarrow> u64 option" where
  "gas_used_in_sequential p = gas_used_in (sequential p) p"

definition transactions_in_order :: "partitioner \<Rightarrow> nat list" where
  "transactions_in_order p = concat (map sl_transactions (pt_sublists p))"

fun edges_loop :: "16 word \<Rightarrow> sublist list \<Rightarrow> 16 word list" where
  "edges_loop at [] = []"
| "edges_loop at (s # ss) =
     (if sl_transactions s = [] then edges_loop at ss
      else let at1 = at + of_nat (length (sl_transactions s)) in at1 # edges_loop at1 ss)"

definition edges :: "partitioner \<Rightarrow> 16 word list" where
  "edges p = edges_loop 0 (take (sequential p) (pt_sublists p))"

subsection \<open>Placing\<close>

text \<open>What a candidate found without an early return says about the keys scanned.\<close>

lemma connect_Candidate:
  "connect i c = Candidate c' \<longleftrightarrow> c' = Some i \<and> (c = None \<or> c = Some i)"
  by (auto simp: connect_def split: option.splits)

lemma against_writer_Candidate:
  "against_writer p key c = Candidate c' \<Longrightarrow>
     (c = None \<or> c = c') \<and> (written_by p key = None \<or> written_by p key = c' \<and> c' \<noteq> Some (sequential p))"
  by (auto simp: against_writer_def connect_Candidate is_sequential_def split: option.splits if_splits)

definition readers_finite :: "partitioner \<Rightarrow> bool" where
  "readers_finite p = (\<forall>k s. read_by p k = Some s \<longrightarrow> finite s)"

lemma against_readers_Candidate:
  "against_readers p key c = Candidate c' \<Longrightarrow> readers_finite p \<Longrightarrow>
     (c = None \<or> c = c') \<and> (\<forall>s j. read_by p key = Some s \<longrightarrow> j \<in> s \<longrightarrow> c' = Some j)"
  by (auto simp: against_readers_def connect_Candidate card_le_Suc0_iff_eq not_less readers_finite_def split: option.splits if_splits)

lemma scan_reads_Candidate:
  "scan_reads p keys c = Candidate c' \<Longrightarrow>
     (c = None \<or> c = c') \<and> (\<forall>k \<in> set keys. written_by p k = None \<or> written_by p k = c')"
proof (induction keys arbitrary: c)
  case (Cons key keys)
  then obtain c1 where c1: "against_writer p key c = Candidate c1" "scan_reads p keys c1 = Candidate c'"
    by (auto split: search.splits)
  then show ?case using Cons.IH [OF c1(2)] against_writer_Candidate [OF c1(1)] by auto
qed simp

lemma scan_writes_Candidate:
  assumes "readers_finite p"
  shows "scan_writes p keys c = Candidate c' \<Longrightarrow>
     (c = None \<or> c = c') \<and> (\<forall>k \<in> set keys. (written_by p k = None \<or> written_by p k = c')
        \<and> (\<forall>s j. read_by p k = Some s \<longrightarrow> j \<in> s \<longrightarrow> c' = Some j))"
proof (induction keys arbitrary: c)
  case (Cons key keys)
  then obtain c1 c2 where c: "against_writer p key c = Candidate c1" "against_readers p key c1 = Candidate c2"
    "scan_writes p keys c2 = Candidate c'"
    by (auto split: search.splits)
  show ?case
    using Cons.IH [OF c(3)] against_writer_Candidate [OF c(1)] against_readers_Candidate [OF c(2) assms] by auto
qed simp

lemma least_from_bound:
  "least_from g i ss best = Some j \<Longrightarrow> (\<And>b u. best = Some (b, u) \<Longrightarrow> b < i) \<Longrightarrow> j < i + length ss"
proof (induction ss arbitrary: i best)
  case (Cons s ss)
  from Cons.IH [OF Cons.prems(1) [simplified, unfolded Let_def]] Cons.prems(2) show ?case
    by (fastforce split: if_splits option.splits)
qed auto

text \<open>A transaction with a parallel candidate conflicts with no placement outside that sublist.\<close>

lemma candidate_for_parallel:
  assumes "candidate_for p tx = j" "j \<noteq> sequential p" "readers_finite p"
  shows "(\<forall>k \<in> set (fp_reads tx) \<union> set (fp_writes tx). written_by p k = None \<or> written_by p k = Some j)
    \<and> (\<forall>k \<in> set (fp_writes tx). \<forall>s i. read_by p k = Some s \<longrightarrow> i \<in> s \<longrightarrow> i = j)
    \<and> (sender_of p (fp_sender tx) = None \<or> sender_of p (fp_sender tx) = Some j)"
proof -
  from assms(1,2) obtain c1 c2 where c: "scan_reads p (fp_reads tx) (sender_of p (fp_sender tx)) = Candidate c1"
    "scan_writes p (fp_writes tx) c1 = Candidate c2" "c2 = None \<or> c2 = Some j"
    by (auto simp: candidate_for_def Let_def split: search.splits option.splits if_splits)
  show ?thesis
    using scan_reads_Candidate [OF c(1)] scan_writes_Candidate [OF assms(3) c(2)] c(3) by auto
qed

end
