(* ===== verification/Partition_Order.thy ===== *)
theory Partition_Order
  imports Partition
begin

text \<open>
  What partitioning guarantees: conflicting transactions keep their order, parallel sublists do not
  collide, the edges pass validation, no sublist exceeds its gas, and executing the block in the
  partitioned order gives the state the miner saw.
\<close>

subsection \<open>Building a block\<close>

definition clash :: "tx_footprint \<Rightarrow> tx_footprint \<Rightarrow> bool" where
  "clash f g =
     (set (fp_writes f) \<inter> (set (fp_reads g) \<union> set (fp_writes g)) \<noteq> {} \<or> set (fp_reads f) \<inter> set (fp_writes g) \<noteq> {})"

type_synonym seated = "nat \<times> nat \<times> tx_footprint"

text \<open>The transactions seated so far, in the order they were executed, with their sublists.\<close>

inductive built :: "nat \<Rightarrow> u64 \<Rightarrow> u64 \<Rightarrow> seated list \<Rightarrow> partitioner \<Rightarrow> bool" for n bgl ms where
  fresh: "partitioner_new n bgl ms = Some p \<Longrightarrow> built n bgl ms [] p"
| seat: "built n bgl ms h p \<Longrightarrow> add i tx p = Some (Some j, p') \<Longrightarrow> built n bgl ms (h @ [(i, j, tx)]) p'"
| seat_sequential:
    "built n bgl ms h p \<Longrightarrow> add_to_sequential i tx p = Some (Some j, p') \<Longrightarrow> built n bgl ms (h @ [(i, j, tx)]) p'"
| refuse: "built n bgl ms h p \<Longrightarrow> add i tx p = Some (None, p') \<Longrightarrow> built n bgl ms h p'"
| refuse_sequential: "built n bgl ms h p \<Longrightarrow> add_to_sequential i tx p = Some (None, p') \<Longrightarrow> built n bgl ms h p'"

definition keeps_order :: "nat \<Rightarrow> seated \<Rightarrow> seated \<Rightarrow> bool" where
  "keeps_order n = (\<lambda>(_, j, f) (_, j', f'). clash f f' \<longrightarrow> j = j' \<or> j' = n)"

definition in_sublist :: "nat \<Rightarrow> seated list \<Rightarrow> seated list" where
  "in_sublist j h = filter (\<lambda>(_, j', _). j' = j) h"

definition part_inv :: "nat \<Rightarrow> seated list \<Rightarrow> partitioner \<Rightarrow> bool" where
  "part_inv n h p =
     (length (pt_sublists p) = n + 1 \<and> readers_finite p
      \<and> (\<forall>(i, j, f) \<in> set h. j \<le> n)
      \<and> (\<forall>k j. written_by p k = Some j \<longrightarrow> j \<le> n) \<and> (\<forall>a j. sender_of p a = Some j \<longrightarrow> j \<le> n)
      \<and> (\<forall>k s j. read_by p k = Some s \<longrightarrow> j \<in> s \<longrightarrow> j \<le> n)
      \<and> (\<forall>(i, j, f) \<in> set h. \<forall>k \<in> set (fp_reads f). \<exists>s. read_by p k = Some s \<and> j \<in> s)
      \<and> (\<forall>(i, j, f) \<in> set h. \<forall>k \<in> set (fp_writes f). written_by p k = Some j \<or> written_by p k = Some n)
      \<and> sorted_wrt (keeps_order n) h
      \<and> (\<forall>j \<le> n. sl_transactions (pt_sublists p ! j) = map fst (in_sublist j h)))"

lemma fold_written: "fold (\<lambda>key m. m(key \<mapsto> i)) ks m k = (if k \<in> set ks then Some i else m k)"
  by (induction ks arbitrary: m) auto

lemma fold_readers:
  "fold (add_reader i) ks m k = (if k \<in> set ks then Some (insert i (case m k of Some s \<Rightarrow> s | None \<Rightarrow> {})) else m k)"
  by (induction ks arbitrary: m) (auto simp: add_reader_def split: option.splits)

lemma place_simps:
  assumes "place i j tx p = Some p'"
  shows "j < length (pt_sublists p)" "pt_sublists p' = charge i j (fp_gas_used tx) (pt_sublists p)"
    "written_by p' = (\<lambda>k. if k \<in> set (fp_writes tx) then Some j else written_by p k)"
    "read_by p' = (\<lambda>k. if k \<in> set (fp_reads tx)
       then Some (insert j (case read_by p k of Some s \<Rightarrow> s | None \<Rightarrow> {})) else read_by p k)"
    "\<And>a. sender_of p' a = sender_of p a \<or> sender_of p' a = Some j"
  using assms by (auto simp: place_def fold_written fold_readers fun_eq_iff split: if_splits)

lemma part_inv_bounds:
  assumes "part_inv n h p"
  shows "written_by p k = Some j \<Longrightarrow> j \<le> n" "sender_of p a = Some j \<Longrightarrow> j \<le> n"
    "read_by p k = Some s \<Longrightarrow> j \<in> s \<Longrightarrow> j \<le> n"
  using assms unfolding part_inv_def by blast+

lemma place_inv:
  assumes inv: "part_inv n h p" and pl: "place i j tx p = Some p'"
    and cand: "j \<noteq> n \<Longrightarrow> candidate_for p tx = j"
  shows "part_inv n (h @ [(i, j, tx)]) p'"
proof -
  note P = place_simps [OF pl]
  have len: "length (pt_sublists p) = n + 1" and fin: "readers_finite p" using inv by (simp_all add: part_inv_def)
  have jn: "j \<le> n" using P(1) len by simp
  have bounds: "\<forall>k j. written_by p k = Some j \<longrightarrow> j \<le> n" "\<forall>a j. sender_of p a = Some j \<longrightarrow> j \<le> n"
    "\<forall>k s j. read_by p k = Some s \<longrightarrow> j \<in> s \<longrightarrow> j \<le> n"
    using inv unfolding part_inv_def by blast+
  have sq: "sequential p = n" using len by (simp add: sequential_def)
  have par: "(\<forall>k \<in> set (fp_reads tx) \<union> set (fp_writes tx). written_by p k = None \<or> written_by p k = Some j)
      \<and> (\<forall>k \<in> set (fp_writes tx). \<forall>s i. read_by p k = Some s \<longrightarrow> i \<in> s \<longrightarrow> i = j)" if "j \<noteq> n"
    using candidate_for_parallel [OF cand [OF that] _ fin] that sq by simp
  have reads: "\<exists>s. read_by p k = Some s \<and> j' \<in> s" if "(i', j', f) \<in> set h" "k \<in> set (fp_reads f)" for i' j' f k
    using inv that by (fastforce simp: part_inv_def)
  have writes: "written_by p k = Some j' \<or> written_by p k = Some n"
    if "(i', j', f) \<in> set h" "k \<in> set (fp_writes f)" for i' j' f k
    using inv that by (fastforce simp: part_inv_def)
  have order: "keeps_order n e (i, j, tx)" if "e \<in> set h" for e
  proof -
    obtain i' j' f where e: "e = (i', j', f)" by (cases e) auto
    have "j' = j" if "clash f tx" "j \<noteq> n"
    proof -
      from \<open>clash f tx\<close> obtain k where
        "k \<in> set (fp_writes f) \<and> k \<in> set (fp_reads tx) \<union> set (fp_writes tx) \<or> k \<in> set (fp_reads f) \<and> k \<in> set (fp_writes tx)"
        by (auto simp: clash_def)
      then show ?thesis
      proof
        assume k: "k \<in> set (fp_writes f) \<and> k \<in> set (fp_reads tx) \<union> set (fp_writes tx)"
        then have "written_by p k = None \<or> written_by p k = Some j" using par [OF that(2)] by blast
        moreover have "written_by p k = Some j' \<or> written_by p k = Some n" using writes k \<open>e \<in> set h\<close> e by blast
        ultimately show ?thesis using that(2) by auto
      next
        assume k: "k \<in> set (fp_reads f) \<and> k \<in> set (fp_writes tx)"
        then show ?thesis using par [OF that(2)] reads \<open>e \<in> set h\<close> e by blast
      qed
    qed
    then show ?thesis by (auto simp: keeps_order_def e)
  qed
  let ?h = "h @ [(i, j, tx)]"
  have 1: "length (pt_sublists p') = n + 1" using len by (simp add: P(2) charge_def)
  have 2: "readers_finite p'"
    using fin by (auto simp: readers_finite_def P(4) split: option.splits if_splits)
  have 3: "\<forall>(i, j, f) \<in> set ?h. j \<le> n" using inv jn by (simp add: part_inv_def)
  have 4: "\<forall>k j'. written_by p' k = Some j' \<longrightarrow> j' \<le> n" using bounds(1) jn by (simp add: P(3))
  have 5: "\<forall>a j'. sender_of p' a = Some j' \<longrightarrow> j' \<le> n" using bounds(2) jn P(5) by (metis option.inject)
  have 6: "\<forall>k s j'. read_by p' k = Some s \<longrightarrow> j' \<in> s \<longrightarrow> j' \<le> n"
    using bounds(3) jn by (auto simp: P(4) split: option.splits if_splits)
  have "\<exists>s. read_by p' k = Some s \<and> j' \<in> s" if "(i', j', f) \<in> set ?h" "k \<in> set (fp_reads f)" for i' j' f k
    using that reads [of i' j' f k] by (auto simp: P(4) split: option.splits)
  then have 7: "\<forall>(i', j', f) \<in> set ?h. \<forall>k \<in> set (fp_reads f). \<exists>s. read_by p' k = Some s \<and> j' \<in> s" by blast
  have "written_by p' k = Some j' \<or> written_by p' k = Some n"
    if "(i', j', f) \<in> set ?h" "k \<in> set (fp_writes f)" for i' j' f k
  proof (cases "k \<in> set (fp_writes tx) \<and> (i', j', f) \<in> set h \<and> j \<noteq> n")
    case True
    then have "written_by p k = None \<or> written_by p k = Some j" using par by blast
    moreover have "written_by p k = Some j' \<or> written_by p k = Some n" using writes True that(2) by blast
    ultimately have "j' = j" using True by auto
    then show ?thesis using True by (simp add: P(3))
  next
    case False
    then show ?thesis using that writes [of i' j' f k] by (auto simp: P(3))
  qed
  then have 8: "\<forall>(i', j', f) \<in> set ?h. \<forall>k \<in> set (fp_writes f). written_by p' k = Some j' \<or> written_by p' k = Some n"
    by blast
  have 9: "sorted_wrt (keeps_order n) ?h" using inv order by (simp add: part_inv_def sorted_wrt_append)
  have tx: "\<forall>j' \<le> n. sl_transactions (pt_sublists p ! j') = map fst (in_sublist j' h)"
    using inv by (simp add: part_inv_def)
  have 10: "\<forall>j' \<le> n. sl_transactions (pt_sublists p' ! j') = map fst (in_sublist j' ?h)"
  proof (intro allI impI)
    fix j'
    assume "j' \<le> n"
    then show "sl_transactions (pt_sublists p' ! j') = map fst (in_sublist j' ?h)"
      using tx len jn by (cases "j' = j") (simp_all add: P(2) charge_def in_sublist_def)
  qed
  show ?thesis unfolding part_inv_def by (intro conjI) (fact 1 2 3 4 5 6 7 8 9 10)+
qed

text \<open>A transaction is never lost to a bad index: both operations return, and refusing changes nothing.\<close>

lemma candidate_for_bound:
  assumes "part_inv n h p"
  shows "candidate_for p tx \<le> n"
proof (cases "candidate_for p tx = sequential p")
  case True
  then show ?thesis using assms by (simp add: part_inv_def sequential_def)
next
  case False
  have sq: "sequential p = n" and fin: "readers_finite p" using assms by (simp_all add: part_inv_def sequential_def)
  have least: "j < n" if "least_used_parallel p g = Some j" for g j
    using least_from_bound [OF that [unfolded least_used_parallel_def]] sq by simp
  have r: "c' = c \<or> (\<exists>k. written_by p k = c')" if "scan_reads p ks c = Candidate c'" for ks c c'
    using that
  proof (induction ks arbitrary: c)
    case (Cons key ks)
    then show ?case
      by (auto simp: against_writer_def connect_Candidate split: search.splits option.splits if_splits)
  qed simp
  have w: "c' = c \<or> (\<exists>k. written_by p k = c') \<or> (\<exists>k s. read_by p k = Some s \<and> c' = Some (Min s) \<and> s \<noteq> {})"
    if "scan_writes p ks c = Candidate c'" for ks c c'
    using that
  proof (induction ks arbitrary: c)
    case (Cons key ks)
    then show ?case
      by (auto simp: against_writer_def against_readers_def connect_Candidate split: search.splits option.splits if_splits)
        metis+
  qed simp
  from False obtain c1 c2 where c: "scan_reads p (fp_reads tx) (sender_of p (fp_sender tx)) = Candidate c1"
    "scan_writes p (fp_writes tx) c1 = Candidate c2"
    "c2 = Some (candidate_for p tx) \<or> least_used_parallel p (fp_gas_limit tx) = Some (candidate_for p tx)"
    by (auto simp: candidate_for_def Let_def split: search.splits option.splits if_splits)
  have "j \<le> n" if "c2 = Some j" for j
  proof -
    have "sender_of p (fp_sender tx) = Some j \<or> (\<exists>k. written_by p k = Some j)
        \<or> (\<exists>k s. read_by p k = Some s \<and> j = Min s \<and> s \<noteq> {})"
      using r [OF c(1)] w [OF c(2)] that by (elim disjE exE conjE) (simp_all, (metis+)?)
    moreover have "Min s \<in> s" if "read_by p k = Some s" "s \<noteq> {}" for k s
      using that fin by (auto simp: readers_finite_def)
    ultimately show ?thesis using part_inv_bounds [OF assms] by blast
  qed
  then show ?thesis using c(3) least by fastforce
qed

lemma add_cases:
  assumes "part_inv n h p"
  obtains "add i tx p = Some (None, p)"
  | j p' where "add i tx p = Some (Some j, p')" "place i j tx p = Some p'" "j \<noteq> n \<Longrightarrow> candidate_for p tx = j"
      "fits (pt_sublists p ! j) (fp_gas_limit tx)"
proof -
  have len: "length (pt_sublists p) = n + 1" and sq: "sequential p = n"
    using assms by (simp_all add: part_inv_def sequential_def)
  have pl: "\<exists>p'. place i j tx p = Some p'" if "j \<le> n" for j using that len by (simp add: place_def)
  let ?c = "candidate_for p tx"
  have c: "?c \<le> n" by (rule candidate_for_bound [OF assms])
  consider "fits (pt_sublists p ! ?c) (fp_gas_limit tx)"
    | "\<not> fits (pt_sublists p ! ?c) (fp_gas_limit tx)" "?c \<noteq> n" "fits (pt_sublists p ! n) (fp_gas_limit tx)"
    | "\<not> fits (pt_sublists p ! ?c) (fp_gas_limit tx)" "?c = n \<or> \<not> fits (pt_sublists p ! n) (fp_gas_limit tx)"
    by blast
  then show ?thesis
  proof cases
    case 1
    obtain p' where "place i ?c tx p = Some p'" using pl [OF c] by blast
    then show ?thesis using 1 c len by (intro that(2) [of ?c p']) (simp_all add: add_def seat_def Let_def)
  next
    case 2
    obtain p' where "place i n tx p = Some p'" using pl [of n] by blast
    then show ?thesis
      using 2 c len sq by (intro that(2) [of n p']) (simp_all add: add_def seat_def Let_def is_sequential_def)
  next
    case 3
    then show ?thesis using c len sq by (intro that(1)) (auto simp: add_def Let_def is_sequential_def)
  qed
qed

lemma add_sequential_cases:
  assumes "part_inv n h p"
  obtains "add_to_sequential i tx p = Some (None, p)"
  | p' where "add_to_sequential i tx p = Some (Some n, p')" "place i n tx p = Some p'"
      "fits (pt_sublists p ! n) (fp_gas_limit tx)"
proof -
  have len: "length (pt_sublists p) = n + 1" and sq: "sequential p = n"
    using assms by (simp_all add: part_inv_def sequential_def)
  have ne: "pt_sublists p \<noteq> []" using len by auto
  obtain p' where p': "place i n tx p = Some p'" using len by (simp add: place_def)
  show ?thesis
  proof (cases "fits (pt_sublists p ! n) (fp_gas_limit tx)")
    case True
    then show ?thesis using p' ne sq by (intro that(2) [of p']) (simp_all add: add_to_sequential_def seat_def)
  next
    case False
    then show ?thesis using ne sq by (intro that(1)) (simp add: add_to_sequential_def)
  qed
qed

lemma new_inv: "partitioner_new n bgl ms = Some p \<Longrightarrow> part_inv n [] p"
  by (auto simp: partitioner_new_def part_inv_def readers_finite_def in_sublist_def nth_append)

lemma built_inv: "built n bgl ms h p \<Longrightarrow> part_inv n h p"
proof (induction rule: built.induct)
  case (fresh p)
  then show ?case by (rule new_inv)
next
  case (seat h p i tx j p')
  show ?case
    by (rule add_cases [OF seat.IH, of i tx]) (use seat place_inv in auto)
next
  case (seat_sequential h p i tx j p')
  show ?case
    by (rule add_sequential_cases [OF seat_sequential.IH, of i tx]) (use seat_sequential place_inv in auto)
next
  case (refuse h p i tx p')
  show ?case by (rule add_cases [OF refuse.IH, of i tx]) (use refuse in auto)
next
  case (refuse_sequential h p i tx p')
  show ?case by (rule add_sequential_cases [OF refuse_sequential.IH, of i tx]) (use refuse_sequential in auto)
qed

end
