(* ===== verification/Partition_Exec.thy ===== *)
theory Partition_Exec
  imports Partition_Order
begin

text \<open>
  Executing a block in the order its sublists are written gives the state of the order the miner
  executed it in.
\<close>

subsection \<open>Pairwise conflicting transactions are not reordered\<close>

definition block_order :: "nat \<Rightarrow> seated list \<Rightarrow> seated list" where
  "block_order n h = concat (map (\<lambda>j. in_sublist j h) [0 ..< n + 1])"

lemma order_of_sublists:
  assumes "part_inv n h p"
  shows "transactions_in_order p = map fst (block_order n h)"
proof -
  have len: "length (pt_sublists p) = n + 1" using assms by (simp add: part_inv_def)
  have "map sl_transactions (pt_sublists p) = map (\<lambda>j. map fst (in_sublist j h)) [0 ..< n + 1]"
    using assms len by (intro nth_equalityI) (auto simp: part_inv_def less_Suc_eq_le nth_append)
  then show ?thesis by (simp add: transactions_in_order_def block_order_def map_concat comp_def del: upt_Suc)
qed

lemma regroup:
  "sorted_wrt (\<lambda>e e'. fst (snd e) = fst (snd e') \<or> fst (snd e') = n) L \<Longrightarrow> (\<forall>e \<in> set L. fst (snd e) \<le> n)
     \<Longrightarrow> block_order n L = L"
proof (induction L)
  case Nil
  then show ?case by (simp add: block_order_def in_sublist_def)
next
  case (Cons e L)
  let ?j = "fst (snd e)"
  have later: "\<forall>e' \<in> set L. ?j \<le> fst (snd e')" using Cons.prems by fastforce
  have split: "[0 ..< n + 1] = [0 ..< ?j] @ ?j # [?j + 1 ..< n + 1]"
    using Cons.prems(2) by (metis Suc_eq_plus1 le_imp_less_Suc list.set_intros(1) upt_conv_Cons upt_add_eq_append
        le0 less_imp_le_nat add_0 le_add_diff_inverse)
  have empty: "concat (map (\<lambda>j. in_sublist j L) [0 ..< ?j]) = []"
    using later by (auto simp: in_sublist_def filter_empty_conv)
  have other: "in_sublist j (e # L) = in_sublist j L" if "j \<noteq> ?j" for j
    using that by (auto simp: in_sublist_def split: prod.splits)
  have own: "in_sublist ?j (e # L) = e # in_sublist ?j L"
    by (auto simp: in_sublist_def split: prod.splits)
  have "map (\<lambda>j. in_sublist j (e # L)) [0 ..< ?j] = map (\<lambda>j. in_sublist j L) [0 ..< ?j]"
    "map (\<lambda>j. in_sublist j (e # L)) [?j + 1 ..< n + 1] = map (\<lambda>j. in_sublist j L) [?j + 1 ..< n + 1]"
    by (intro map_cong refl other; auto)+
  then have "block_order n (e # L) = e # block_order n L"
    unfolding block_order_def split
    by (simp only: map_append list.map concat_append concat.simps own empty append_Nil append_Cons)
  then show ?case using Cons by simp
qed

lemma filter_block_order: "filter Q (block_order n h) = block_order n (filter Q h)"
  by (auto simp: block_order_def in_sublist_def filter_concat comp_def conj_commute intro!: arg_cong [of _ _ concat] map_cong)

lemma clashing_keep_order:
  assumes inv: "part_inv n h p" and d: "distinct h"
    and Q: "\<And>e e'. e \<in> set h \<Longrightarrow> e' \<in> set h \<Longrightarrow> Q e \<Longrightarrow> Q e' \<Longrightarrow> e \<noteq> e' \<Longrightarrow> clash (snd (snd e)) (snd (snd e'))"
  shows "filter Q (block_order n h) = filter Q h"
proof -
  have "sorted_wrt (keeps_order n) (filter Q h)" using inv by (simp add: part_inv_def sorted_wrt_filter)
  then have "sorted_wrt (\<lambda>e e'. fst (snd e) = fst (snd e') \<or> fst (snd e') = n) (filter Q h)"
  proof (rule sorted_wrt_mono_rel [rotated])
    fix e e'
    assume e: "e \<in> set (filter Q h)" "e' \<in> set (filter Q h)" "keeps_order n e e'"
    show "fst (snd e) = fst (snd e') \<or> fst (snd e') = n"
      using e Q [of e e'] by (cases "e = e'") (auto simp: keeps_order_def split: prod.splits)
  qed
  moreover have "\<forall>e \<in> set (filter Q h). fst (snd e) \<le> n" using inv by (auto simp: part_inv_def)
  ultimately show ?thesis unfolding filter_block_order by (rule regroup)
qed

subsection \<open>Execution\<close>

text \<open>
  Executing a transaction at any state that agrees with the one the miner executed it at on the keys
  it read writes the same values to the keys it wrote and leaves every other key alone.
\<close>

definition footprint_sound ::
  "(nat \<Rightarrow> (bytes \<Rightarrow> 'v) \<Rightarrow> bytes \<Rightarrow> 'v) \<Rightarrow> nat \<Rightarrow> tx_footprint \<Rightarrow> (bytes \<Rightarrow> 'v) \<Rightarrow> bool" where
  "footprint_sound run i f seen =
     (\<forall>s. (\<forall>k \<in> set (fp_reads f). s k = seen k) \<longrightarrow>
        run i s = (\<lambda>k. if k \<in> set (fp_writes f) then run i seen k else s k))"

definition state_before ::
  "(nat \<Rightarrow> (bytes \<Rightarrow> 'v) \<Rightarrow> bytes \<Rightarrow> 'v) \<Rightarrow> (bytes \<Rightarrow> 'v) \<Rightarrow> seated list \<Rightarrow> seated \<Rightarrow> bytes \<Rightarrow> 'v" where
  "state_before run s0 h e = fold (\<lambda>e. run (fst e)) (takeWhile (\<lambda>x. x \<noteq> e) h) s0"

text \<open>The value of a key after a list of transactions: what its last writer wrote in the miner's run.\<close>

definition last_value ::
  "(nat \<Rightarrow> (bytes \<Rightarrow> 'v) \<Rightarrow> bytes \<Rightarrow> 'v) \<Rightarrow> (bytes \<Rightarrow> 'v) \<Rightarrow> seated list \<Rightarrow> seated list \<Rightarrow> bytes \<Rightarrow> 'v" where
  "last_value run s0 h L k =
     (case rev (filter (\<lambda>e. k \<in> set (fp_writes (snd (snd e)))) L) of
        [] \<Rightarrow> s0 k | e # _ \<Rightarrow> run (fst e) (state_before run s0 h e) k)"

lemma last_value_snoc:
  "last_value run s0 h (L @ [e]) =
     (\<lambda>k. if k \<in> set (fp_writes (snd (snd e))) then run (fst e) (state_before run s0 h e) k else last_value run s0 h L k)"
  by (auto simp: last_value_def fun_eq_iff)

lemma run_last_value:
  assumes sound: "\<forall>e \<in> set h. footprint_sound run (fst e) (snd (snd e)) (state_before run s0 h e)"
    and agree: "\<And>P e S k. L = P @ e # S \<Longrightarrow> k \<in> set (fp_reads (snd (snd e))) \<Longrightarrow>
        last_value run s0 h P k = state_before run s0 h e k"
    and sub: "set L \<subseteq> set h"
  shows "fold (\<lambda>e. run (fst e)) L s0 = last_value run s0 h L"
  using agree sub
proof (induction L rule: rev_induct)
  case Nil
  then show ?case by (simp add: last_value_def fun_eq_iff)
next
  case (snoc e L)
  have "fold (\<lambda>e. run (fst e)) L s0 = last_value run s0 h L"
    using snoc.prems by (intro snoc.IH) auto
  moreover have "run (fst e) (last_value run s0 h L) = last_value run s0 h (L @ [e])"
  proof -
    have "footprint_sound run (fst e) (snd (snd e)) (state_before run s0 h e)" using sound snoc.prems(2) by simp
    moreover have "\<forall>k \<in> set (fp_reads (snd (snd e))). last_value run s0 h L k = state_before run s0 h e k"
      using snoc.prems(1) [of L e "[]"] by simp
    ultimately show ?thesis unfolding footprint_sound_def last_value_snoc by blast
  qed
  ultimately show ?case by simp
qed

lemma takeWhile_until: "e \<notin> set P \<Longrightarrow> takeWhile (\<lambda>x. x \<noteq> e) (P @ e # S) = P"
  by (induction P) auto

lemma takeWhile_distinct: "distinct (P @ e # S) \<Longrightarrow> takeWhile (\<lambda>x. x \<noteq> e) (P @ e # S) = P"
  by (simp add: takeWhile_until)

lemma state_before_last_value:
  assumes sound: "\<forall>e \<in> set h. footprint_sound run (fst e) (snd (snd e)) (state_before run s0 h e)"
    and d: "distinct h" and h: "h = P @ S"
  shows "fold (\<lambda>e. run (fst e)) P s0 = last_value run s0 h P"
  using h
proof (induction P arbitrary: S rule: rev_induct)
  case Nil
  then show ?case by (simp add: last_value_def fun_eq_iff)
next
  case (snoc e P)
  have P: "fold (\<lambda>e. run (fst e)) P s0 = last_value run s0 h P" using snoc.prems by (intro snoc.IH [of "e # S"]) simp
  have sb: "state_before run s0 h e = fold (\<lambda>e. run (fst e)) P s0"
    using takeWhile_distinct [of P e S] d snoc.prems by (simp add: state_before_def)
  have "footprint_sound run (fst e) (snd (snd e)) (state_before run s0 h e)" using sound snoc.prems by simp
  then have "run (fst e) (last_value run s0 h P) = last_value run s0 h (P @ [e])"
    unfolding footprint_sound_def last_value_snoc using sb P by auto
  then show ?case using P by simp
qed

lemma last_value_filter:
  "filter (\<lambda>e. k \<in> set (fp_writes (snd (snd e)))) L = filter (\<lambda>e. k \<in> set (fp_writes (snd (snd e)))) L'
     \<Longrightarrow> last_value run s0 h L k = last_value run s0 h L' k"
  by (simp add: last_value_def)

lemma set_block_order: "\<forall>e \<in> set h. fst (snd e) \<le> n \<Longrightarrow> set (block_order n h) = set h"
  by (auto simp: block_order_def in_sublist_def)

lemma distinct_block_order: "distinct h \<Longrightarrow> distinct (block_order n h)"
proof -
  assume d: "distinct h"
  have "distinct (concat (map (\<lambda>j. in_sublist j h) [0 ..< m]))" for m
    using d by (induction m) (auto simp: in_sublist_def)
  from this [of "n + 1"] show ?thesis by (simp only: block_order_def)
qed

lemma block_order_state:
  assumes inv: "part_inv n h p" and d: "distinct h"
    and sound: "\<forall>e \<in> set h. footprint_sound run (fst e) (snd (snd e)) (state_before run s0 h e)"
  shows "fold (\<lambda>e. run (fst e)) (block_order n h) s0 = fold (\<lambda>e. run (fst e)) h s0"
proof -
  let ?w = "\<lambda>k e. k \<in> set (fp_writes (snd (snd e)))"
  have le: "\<forall>e \<in> set h. fst (snd e) \<le> n" using inv by (auto simp: part_inv_def)
  note set = set_block_order [OF le]
  have "fold (\<lambda>e. run (fst e)) (block_order n h) s0 = last_value run s0 h (block_order n h)"
  proof (rule run_last_value [OF sound])
    fix P e S k
    assume bo: "block_order n h = P @ e # S" and k: "k \<in> set (fp_reads (snd (snd e)))"
    have e: "e \<in> set h" using set bo by (metis in_set_conv_decomp)
    then obtain P' S' where h: "h = P' @ e # S'" by (meson split_list)
    let ?Q = "\<lambda>x. ?w k x \<or> x = e"
    have "filter ?Q (block_order n h) = filter ?Q h"
      by (rule clashing_keep_order [OF inv d]) (use k in \<open>auto simp: clash_def\<close>)
    then have "takeWhile (\<lambda>x. x \<noteq> e) (filter ?Q P @ e # filter ?Q S) = takeWhile (\<lambda>x. x \<noteq> e) (filter ?Q P' @ e # filter ?Q S')"
      unfolding bo by (simp add: h)
    moreover have nP: "e \<notin> set P" "e \<notin> set P'"
      using distinct_block_order [OF d, of n] d unfolding bo by (simp_all add: h)
    ultimately have "filter ?Q P = filter ?Q P'"
      using takeWhile_until [of e "filter ?Q P"] takeWhile_until [of e "filter ?Q P'"] by simp
    moreover have "filter ?Q P = filter (?w k) P" "filter ?Q P' = filter (?w k) P'"
      using nP by (auto intro: filter_cong)
    ultimately have "last_value run s0 h P k = last_value run s0 h P' k" by (intro last_value_filter) simp
    also have "\<dots> = state_before run s0 h e k"
      using state_before_last_value [OF sound d h] takeWhile_distinct [of P' e S'] d
      by (simp add: state_before_def flip: h)
    finally show "last_value run s0 h P k = state_before run s0 h e k" .
  qed (simp add: set)
  also have "\<dots> = last_value run s0 h h"
  proof
    fix k
    have "filter (?w k) (block_order n h) = filter (?w k) h"
      by (rule clashing_keep_order [OF inv d]) (auto simp: clash_def)
    then show "last_value run s0 h (block_order n h) k = last_value run s0 h h k" by (rule last_value_filter)
  qed
  also have "\<dots> = fold (\<lambda>e. run (fst e)) h s0"
    using state_before_last_value [OF sound d, of h "[]"] by simp
  finally show ?thesis .
qed

end
