(* ===== verification/Sublist_Ranges.thy ===== *)
theory Sublist_Ranges
  imports Collision
begin

text \<open>
  The two readings of the header's edges (\<open>crates/execution/src/collision.rs\<close>): \<open>sublist_of\<close>
  decides which transactions are checked against each other, \<open>sublist_ranges\<close> which are executed
  together.
\<close>

lemma ascending_edges_sorted: "ascending_edges es \<Longrightarrow> sorted_wrt (<) es"
  by (induction es rule: ascending_edges.induct) (auto dest: order.strict_trans)

lemma edge_usize_nonneg: "0 \<le> sint e \<Longrightarrow> int (edge_usize e) = sint e"
  by (simp add: edge_usize_def)

lemma ranges_loop_valid:
  assumes "sorted_wrt (<) (map edge_usize es)"
    "\<forall>e \<in> set es. 0 < sint e \<and> start < edge_usize e \<and> edge_usize e \<le> n"
  shows "ranges_loop es n start par =
    (par @ zip (start # map edge_usize es) (map edge_usize es), last (start # map edge_usize es))"
  using assms
proof (induction es arbitrary: start par)
  case (Cons e es)
  have e: "min (nat (max (sint e) 0)) n = edge_usize e"
    using Cons.prems(2) by (auto simp: edge_usize_def min_def max_def)
  have "ranges_loop (e # es) n start par = ranges_loop es n (edge_usize e) (par @ [(start, edge_usize e)])"
    using Cons.prems(2) by (simp only: ranges_loop.simps e Let_def) (simp add: max_def)
  then show ?case
    using Cons.IH [of "edge_usize e" "par @ [(start, edge_usize e)]"] Cons.prems by simp
qed simp

lemma zip_shift: "map fst (zip (a # vs) vs) @ [last (a # vs)] = a # vs"
  by (induction vs arbitrary: a) auto

lemma sorted_last: "sorted_wrt (<) vs \<Longrightarrow> x \<in> set vs \<Longrightarrow> x \<le> last vs" for x :: "'a::linorder"
  by (induction vs) (auto simp: less_imp_le)

text \<open>The number of bounds at or below an index locates it among ascending bounds.\<close>

lemma count_below:
  assumes "sorted_wrt (<) (vs :: nat list)"
  shows "let k = length (filter (\<lambda>v. v \<le> x) vs) in (\<forall>i < k. vs ! i \<le> x) \<and> (k < length vs \<longrightarrow> x < vs ! k)"
  using assms
proof (induction vs)
  case (Cons v vs)
  show ?case
  proof (cases "v \<le> x")
    case True
    then show ?thesis using Cons by (auto simp: Let_def nth_Cons split: nat.splits)
  next
    case False
    then have "filter (\<lambda>v. v \<le> x) vs = []" using Cons.prems by (auto simp: filter_empty_conv)
    then show ?thesis using False by (simp add: Let_def)
  qed
qed simp

lemma valid_edges:
  assumes v: "validate_tx_execution_sublists_edges (Some es) n True = Accept"
  shows "sorted_wrt (<) (map edge_usize es) \<and> (\<forall>e \<in> set es. 0 < sint e \<and> 0 < edge_usize e \<and> edge_usize e \<le> n)"
proof -
  have asc: "sorted_wrt (<) (map sint es)"
    using v by (auto simp: validate_tx_execution_sublists_edges_def split: if_splits intro: ascending_edges_sorted)
  have bounds: "0 < sint e \<and> sint e < int n" if e: "e \<in> set es" for e
  proof -
    have "0 < sint (hd es)" "sint (last es) < int n" "es \<noteq> []"
      using v e by (auto simp: validate_tx_execution_sublists_edges_def split: if_splits)
    moreover have "sint (hd es) \<le> sint e" using asc e by (cases es) auto
    moreover have "sint e \<le> sint (last es)"
      using sorted_last [OF asc, of "sint e"] e \<open>es \<noteq> []\<close> by (simp add: last_map)
    ultimately show ?thesis by linarith
  qed
  have us: "int (edge_usize e) = sint e" if "e \<in> set es" for e using bounds [OF that] by (simp add: edge_usize_nonneg)
  have "edge_usize (es ! i) < edge_usize (es ! j)" if "i < j" "j < length es" for i j
  proof -
    have "sint (es ! i) < sint (es ! j)" using sorted_wrt_nth_less [OF asc, of i j] that by simp
    then show ?thesis using us [of "es ! i"] us [of "es ! j"] that by simp
  qed
  then have "sorted_wrt (<) (map edge_usize es)" by (simp add: sorted_wrt_iff_nth_less)
  moreover have "0 < sint e \<and> 0 < edge_usize e \<and> edge_usize e \<le> n" if "e \<in> set es" for e
    using bounds [OF that] us [OF that] by linarith
  ultimately show ?thesis by blast
qed

lemma locate_sorted:
  fixes vs :: "nat list" and x :: nat
  assumes s: "sorted_wrt (<) vs"
  defines "c \<equiv> length (filter (\<lambda>v. v \<le> x) vs)"
  shows "k < length vs \<and> (0 # vs) ! k \<le> x \<and> x < vs ! k \<longleftrightarrow> c < length vs \<and> c = k"
    and "last (0 # vs) \<le> x \<longleftrightarrow> c = length vs"
proof -
  have c: "\<forall>i < c. vs ! i \<le> x" "c < length vs \<Longrightarrow> x < vs ! c" "c \<le> length vs"
    using count_below [OF s, of x] by (simp_all add: c_def Let_def)
  have mono: "vs ! i \<le> vs ! j" if "i \<le> j" "j < length vs" for i j
    using sorted_wrt_nth_less [OF s, of i j] that by (cases "i = j") auto
  show "k < length vs \<and> (0 # vs) ! k \<le> x \<and> x < vs ! k \<longleftrightarrow> c < length vs \<and> c = k"
  proof
    assume k: "k < length vs \<and> (0 # vs) ! k \<le> x \<and> x < vs ! k"
    have "\<not> k < c" using c(1) k by auto
    moreover have "\<not> c < k"
    proof
      assume "c < k"
      then have "c \<le> k - 1" "k - 1 < length vs" using k by linarith+
      then have "vs ! c \<le> vs ! (k - 1)" "x < vs ! c" using mono c(2) by auto
      then show False using k \<open>c < k\<close> by (auto simp: nth_Cons split: nat.splits)
    qed
    ultimately show "c < length vs \<and> c = k" using k by auto
  next
    assume k: "c < length vs \<and> c = k"
    have "(0 # vs) ! c \<le> x" using c(1) by (cases c) auto
    then show "k < length vs \<and> (0 # vs) ! k \<le> x \<and> x < vs ! k" using k c(2) by auto
  qed
  show "last (0 # vs) \<le> x \<longleftrightarrow> c = length vs"
  proof (cases "vs = []")
    case False
    then have l: "last (0 # vs) = vs ! (length vs - 1)" by (simp add: last_conv_nth)
    show ?thesis
    proof (cases "c = length vs")
      case True
      then show ?thesis using l c(1) False by (metis diff_less length_greater_0_conv zero_less_one)
    next
      case neq: False
      then have "c < length vs" using c(3) by simp
      moreover from this have "c \<le> length vs - 1" "length vs - 1 < length vs" by linarith+
      ultimately have "x < vs ! (length vs - 1)" using c(2) mono [of c "length vs - 1"] by linarith
      then show ?thesis using l neq by simp
    qed
  qed (use c in simp)
qed

text \<open>C30. The two readings agree on every header whose edges pass validation: there is one range per
  edge, the ranges and the sequential set tile the block, and a transaction is checked with sublist
  \<open>k\<close> exactly when it is executed in range \<open>k\<close>, and with none exactly when it is sequential.\<close>

theorem sublists_agree:
  assumes v: "validate_tx_execution_sublists_edges (Some es) n True = Accept"
    and r: "sublist_ranges es n = (par, sq)"
  shows "length par = length es \<and> snd sq = n \<and> map fst (par @ [sq]) = 0 # map snd par
    \<and> (sublist_of index es = Some k \<longleftrightarrow> k < length par \<and> fst (par ! k) \<le> index \<and> index < snd (par ! k))
    \<and> (sublist_of index es = None \<longleftrightarrow> fst sq \<le> index)"
proof -
  let ?vs = "map edge_usize es" and ?c = "length (filter (\<lambda>v. v \<le> index) (map edge_usize es))"
  from valid_edges [OF v] have s: "sorted_wrt (<) ?vs" and b: "\<forall>e \<in> set es. 0 < sint e \<and> 0 < edge_usize e \<and> edge_usize e \<le> n"
    by blast+
  have p: "par = zip (0 # ?vs) ?vs" "sq = (last (0 # ?vs), n)"
    using ranges_loop_valid [OF s b, of "[]"] r by (simp_all add: sublist_ranges_def)
  have so: "sublist_of index es = (if ?c < length ?vs then Some ?c else None)"
    by (simp add: sublist_of_def Let_def filter_map comp_def)
  have "length par = length es \<and> snd sq = n \<and> map fst (par @ [sq]) = 0 # map snd par"
    using zip_shift [of 0 ?vs] by (simp add: p map_snd_zip_take)
  moreover have "sublist_of index es = Some k \<longleftrightarrow> k < length par \<and> fst (par ! k) \<le> index \<and> index < snd (par ! k)"
    using locate_sorted(1) [OF s, of k index] unfolding so p(1) by auto
  moreover have "sublist_of index es = None \<longleftrightarrow> fst sq \<le> index"
    using locate_sorted(2) [OF s, of index] length_filter_le [of "\<lambda>v. v \<le> index" ?vs] unfolding so p(2) fst_conv
    by (metis le_neq_implies_less nat_less_le option.distinct(1))
  ultimately show ?thesis by blast
qed

theorem sublists_agree_witness:
  "sublist_ranges [2, 5] 9 = ([(0, 2), (2, 5)], (5, 9)) \<and> sublist_of 3 [2, 5] = Some 1 \<and> sublist_of 5 [2, 5] = None"
proof -
  have v: "validate_tx_execution_sublists_edges (Some [2, 5]) 9 True = Accept" by code_simp
  have r: "sublist_ranges [2, 5] 9 = ([(0, 2), (2, 5)], (5, 9))" by code_simp
  show ?thesis using sublists_agree [OF v r, of 3 1] sublists_agree [OF v r, of 5] r by simp
qed

end
