(* ===== verification/Partition_Block.thy ===== *)
theory Partition_Block
  imports Partition_Exec Sublist_Ranges
begin

text \<open>The block a partition describes: its edges, its key sets and its gas.\<close>

subsection \<open>Edges\<close>

abbreviation txs_total :: "sublist list \<Rightarrow> nat" where
  "txs_total ss \<equiv> length (concat (map sl_transactions ss))"

abbreviation occupied :: "sublist list \<Rightarrow> sublist list" where
  "occupied ss \<equiv> filter (\<lambda>s. sl_transactions s \<noteq> []) ss"

lemma sint_small: "m < 32768 \<Longrightarrow> sint (of_nat m :: 16 word) = int m"
  by (simp add: signed_of_nat signed_take_bit_int_eq_self)

lemma edge_usize_small: "m < 32768 \<Longrightarrow> edge_usize (of_nat m) = m"
  by (simp add: edge_usize_def sint_small)

lemma length_edges_loop: "length (edges_loop at ss) = length (occupied ss)"
  by (induction ss arbitrary: at) (auto simp: Let_def)

lemma edges_loop_step:
  "edges_loop (of_nat a) (s # ss) =
     (if sl_transactions s = [] then edges_loop (of_nat a) ss
      else of_nat (a + length (sl_transactions s)) # edges_loop (of_nat (a + length (sl_transactions s))) ss)"
  by (simp add: Let_def)

lemma edges_above:
  "pos < b \<Longrightarrow> b + txs_total ss < 32768 \<Longrightarrow> \<forall>e \<in> set (edges_loop (of_nat b) ss). pos < edge_usize e"
proof (induction ss arbitrary: b)
  case (Cons t ss)
  then show ?case
    using Cons.IH [of "b + length (sl_transactions t)"]
    by (auto simp: edges_loop_step edge_usize_small simp del: edges_loop.simps of_nat_add)
qed simp

text \<open>Where a position of the block falls: the sublist found by counting edges is the one that holds it.\<close>

lemma edges_locate:
  assumes "a + txs_total ss < 32768" "a \<le> pos"
  shows "if pos < a + txs_total ss
    then \<exists>j < length ss. concat (map sl_transactions ss) ! (pos - a) \<in> set (sl_transactions (ss ! j))
           \<and> sl_transactions (ss ! j) \<noteq> []
           \<and> length (filter (\<lambda>e. edge_usize e \<le> pos) (edges_loop (of_nat a) ss)) = length (occupied (take j ss))
    else length (filter (\<lambda>e. edge_usize e \<le> pos) (edges_loop (of_nat a) ss)) = length (occupied ss)"
  using assms
proof (induction ss arbitrary: a)
  case (Cons s ss)
  let ?l = "length (sl_transactions s)"
  show ?case
  proof (cases "pos < a + ?l")
    case True
    have "filter (\<lambda>e. edge_usize e \<le> pos) (edges_loop (of_nat (a + ?l)) ss) = []"
      using edges_above [of pos "a + ?l" ss] True Cons.prems(1) by (auto simp: filter_empty_conv not_le)
    then have "length (filter (\<lambda>e. edge_usize e \<le> pos) (edges_loop (of_nat a) (s # ss))) = 0"
      using True Cons.prems by (auto simp: edges_loop_step edge_usize_small simp del: edges_loop.simps of_nat_add)
    moreover have "(sl_transactions s @ concat (map sl_transactions ss)) ! (pos - a) \<in> set (sl_transactions s)"
      using True Cons.prems(2) by (simp add: nth_append less_diff_conv2)
    ultimately show ?thesis
      using True Cons.prems by (auto intro!: exI [of _ 0] simp del: edges_loop.simps of_nat_add)
  next
    case False
    have IH: "if pos < (a + ?l) + txs_total ss
      then \<exists>j < length ss. concat (map sl_transactions ss) ! (pos - (a + ?l)) \<in> set (sl_transactions (ss ! j))
             \<and> sl_transactions (ss ! j) \<noteq> []
             \<and> length (filter (\<lambda>e. edge_usize e \<le> pos) (edges_loop (of_nat (a + ?l)) ss)) = length (occupied (take j ss))
      else length (filter (\<lambda>e. edge_usize e \<le> pos) (edges_loop (of_nat (a + ?l)) ss)) = length (occupied ss)"
      using False Cons.prems by (intro Cons.IH) auto
    have cnt: "length (filter (\<lambda>e. edge_usize e \<le> pos) (edges_loop (of_nat a) (s # ss)))
        = (if sl_transactions s = [] then 0 else 1)
          + length (filter (\<lambda>e. edge_usize e \<le> pos) (edges_loop (of_nat (a + ?l)) ss))"
      using False Cons.prems(1) by (auto simp: edges_loop_step edge_usize_small simp del: edges_loop.simps of_nat_add)
    have at: "(sl_transactions s @ concat (map sl_transactions ss)) ! (pos - a) = concat (map sl_transactions ss) ! (pos - (a + ?l))"
      using False Cons.prems(2) by (auto simp: nth_append diff_diff_left)
    show ?thesis
    proof (cases "pos < (a + ?l) + txs_total ss")
      case True
      with IH obtain j where "j < length ss" "concat (map sl_transactions ss) ! (pos - (a + ?l)) \<in> set (sl_transactions (ss ! j))"
        "sl_transactions (ss ! j) \<noteq> []"
        "length (filter (\<lambda>e. edge_usize e \<le> pos) (edges_loop (of_nat (a + ?l)) ss)) = length (occupied (take j ss))" by auto
      then show ?thesis
        using True cnt at by (auto intro!: exI [of _ "Suc j"] simp del: edges_loop.simps of_nat_add)
    next
      case False
      then show ?thesis using IH cnt by (auto simp del: edges_loop.simps of_nat_add)
    qed
  qed
qed simp

lemma edges_ascending:
  assumes "a + txs_total ss < 32768"
  shows "ascending_edges (map sint (edges_loop (of_nat a) ss))
    \<and> (\<forall>e \<in> set (edges_loop (of_nat a) ss). int a < sint e \<and> sint e \<le> int (a + txs_total ss))"
  using assms
proof (induction ss arbitrary: a)
  case (Cons s ss)
  let ?b = "a + length (sl_transactions s)"
  have IH: "ascending_edges (map sint (edges_loop (of_nat ?b) ss))
    \<and> (\<forall>e \<in> set (edges_loop (of_nat ?b) ss). int ?b < sint e \<and> sint e \<le> int (?b + txs_total ss))"
    using Cons.prems by (intro Cons.IH) simp
  show ?case
  proof (cases "sl_transactions s = []")
    case True
    then show ?thesis using IH by (simp add: edges_loop_step del: edges_loop.simps)
  next
    case False
    have b: "sint (of_nat ?b :: 16 word) = int ?b" using Cons.prems by (intro sint_small) simp
    have "ascending_edges (int ?b # map sint (edges_loop (of_nat ?b) ss))"
      using IH by (cases "map sint (edges_loop (of_nat ?b) ss)") auto
    moreover have "\<forall>e \<in> set (edges_loop (of_nat ?b) ss). int a < sint e \<and> sint e \<le> int (a + txs_total (s # ss))"
      using IH by fastforce
    ultimately show ?thesis
      using False b Cons.prems by (simp add: edges_loop_step del: edges_loop.simps of_nat_add)
  qed
qed simp

lemma edges_valid:
  assumes "length (pt_sublists p) \<le> TX_EXECUTION_THREADS + 1" "length (transactions_in_order p) < 32768"
    "sl_transactions (pt_sublists p ! sequential p) \<noteq> []" "pt_sublists p \<noteq> []"
  shows "validate_tx_execution_sublists_edges (Some (edges p)) (length (transactions_in_order p)) True = Accept"
proof -
  let ?ss = "take (sequential p) (pt_sublists p)"
  have split: "pt_sublists p = ?ss @ [pt_sublists p ! sequential p]"
    using assms(4) by (metis append_butlast_last_id butlast_conv_take last_conv_nth sequential_def)
  have total: "length (transactions_in_order p) = txs_total ?ss + length (sl_transactions (pt_sublists p ! sequential p))"
    unfolding transactions_in_order_def by (subst split) (simp only: map_append concat_append length_append list.map concat.simps append_Nil2)
  then have less: "txs_total ?ss < length (transactions_in_order p)" using assms(3) by simp
  have e: "ascending_edges (map sint (edges p)) \<and> (\<forall>e \<in> set (edges p). 0 < sint e \<and> sint e \<le> int (txs_total ?ss))"
    using edges_ascending [of 0 ?ss] assms(2) less by (simp add: edges_def)
  have "length (edges p) \<le> TX_EXECUTION_THREADS"
    using assms(1) by (auto simp: edges_def length_edges_loop sequential_def intro!: order.trans [OF length_filter_le])
  then show ?thesis
    using e less by (cases "edges p = []")
      (auto simp: validate_tx_execution_sublists_edges_def not_le not_less dest!: bspec [OF _ hd_in_set] bspec [OF _ last_in_set])
qed

subsection \<open>The key sets a validator records\<close>

text \<open>
  The validator attributes each transaction of the block to the sublist its position falls in and
  notes the keys it read and wrote; a transaction of the sequential set is not recorded.
\<close>

definition note_keys :: "tx_footprint \<Rightarrow> collision_tracker \<Rightarrow> collision_tracker" where
  "note_keys f t = fold note_write (fp_writes f) (fold note_read (fp_reads f) t)"

definition record_at :: "16 word list \<Rightarrow> (nat \<Rightarrow> tx_footprint) \<Rightarrow> nat \<times> nat \<Rightarrow> collision_tracker \<Rightarrow> collision_tracker" where
  "record_at es fps = (\<lambda>(pos, i) t.
     case sublist_of pos es of None \<Rightarrow> t | Some k \<Rightarrow> note_keys (fps i) (set_sublist k t))"

definition record_block :: "16 word list \<Rightarrow> (nat \<Rightarrow> tx_footprint) \<Rightarrow> nat list \<Rightarrow> collision_tracker" where
  "record_block es fps order = fold (record_at es fps) (zip [0 ..< length order] order) ct_new"

definition keys_at :: "nat \<Rightarrow> collision_tracker \<Rightarrow> sublist_keys" where
  "keys_at k t = (if k < length (ct_sublists t) then ct_sublists t ! k else no_keys)"

lemma keys_at_set_sublist [simp]: "keys_at k (set_sublist i t) = keys_at k t" "ct_current (set_sublist i t) = i"
  by (auto simp: keys_at_def set_sublist_def resize_def nth_append no_keys_def)

lemma keys_at_update:
  "keys_at k (update_current f t) = (if k = ct_current t then f (keys_at k t) else keys_at k t)"
  "ct_current (update_current f t) = ct_current t"
  by (auto simp: keys_at_def update_current_def ensure_def resize_def nth_append Let_def nth_list_update no_keys_def)

lemma keys_at_notes:
  "keys_at k (fold note_read ks t) =
     (if k = ct_current t then (keys_at k t)\<lparr> sk_read := sk_read (keys_at k t) \<union> set ks \<rparr> else keys_at k t)"
  "ct_current (fold note_read ks t) = ct_current t"
  "keys_at k (fold note_write ks t) =
     (if k = ct_current t then (keys_at k t)\<lparr> sk_written := sk_written (keys_at k t) \<union> set ks \<rparr> else keys_at k t)"
  "ct_current (fold note_write ks t) = ct_current t"
  by (induction ks arbitrary: t) (auto simp: note_read_def note_write_def keys_at_update)

lemma keys_at_note_keys:
  "keys_at k (note_keys f t) =
     (if k = ct_current t
      then (keys_at k t)\<lparr> sk_read := sk_read (keys_at k t) \<union> set (fp_reads f),
                           sk_written := sk_written (keys_at k t) \<union> set (fp_writes f) \<rparr>
      else keys_at k t)"
  by (simp add: note_keys_def keys_at_notes)

lemma record_fold:
  assumes "\<forall>k. finite_keys (keys_at k t)"
  shows "finite_keys (keys_at k (fold (record_at es fps) xs t))
    \<and> sk_read (keys_at k (fold (record_at es fps) xs t))
        \<subseteq> sk_read (keys_at k t) \<union> {key. \<exists>(pos, i) \<in> set xs. sublist_of pos es = Some k \<and> key \<in> set (fp_reads (fps i))}
    \<and> sk_written (keys_at k (fold (record_at es fps) xs t))
        \<subseteq> sk_written (keys_at k t) \<union> {key. \<exists>(pos, i) \<in> set xs. sublist_of pos es = Some k \<and> key \<in> set (fp_writes (fps i))}"
  using assms
proof (induction xs arbitrary: t)
  case (Cons x xs)
  obtain pos i where x: "x = (pos, i)" by fastforce
  let ?t = "record_at es fps (pos, i) t"
  have step: "keys_at k ?t = (if sublist_of pos es = Some k
      then (keys_at k t)\<lparr> sk_read := sk_read (keys_at k t) \<union> set (fp_reads (fps i)),
             sk_written := sk_written (keys_at k t) \<union> set (fp_writes (fps i)) \<rparr>
      else keys_at k t)" for k
    by (auto simp: record_at_def keys_at_note_keys split: option.splits)
  have "\<forall>k. finite_keys (keys_at k ?t)" using Cons.prems by (simp add: step finite_keys_def)
  note IH = Cons.IH [OF this]
  have "fold (record_at es fps) (x # xs) t = fold (record_at es fps) xs ?t" by (simp add: x)
  with IH show ?case unfolding x step by (cases "sublist_of pos es = Some k") auto
qed simp

lemma record_block_keys:
  assumes "k < length (ct_sublists (record_block es fps order))"
  shows "finite_keys (ct_sublists (record_block es fps order) ! k)
    \<and> (\<forall>key \<in> sk_read (ct_sublists (record_block es fps order) ! k).
         \<exists>pos < length order. sublist_of pos es = Some k \<and> key \<in> set (fp_reads (fps (order ! pos))))
    \<and> (\<forall>key \<in> sk_written (ct_sublists (record_block es fps order) ! k).
         \<exists>pos < length order. sublist_of pos es = Some k \<and> key \<in> set (fp_writes (fps (order ! pos))))"
proof -
  have "\<forall>k. finite_keys (keys_at k ct_new)" "keys_at k ct_new = no_keys"
    by (simp_all add: keys_at_def ct_new_def no_keys_def finite_keys_def)
  with record_fold [OF this(1), of k es fps "zip [0 ..< length order] order"] assms show ?thesis
    by (fastforce simp: record_block_def keys_at_def no_keys_def in_set_zip)
qed

lemma conflict_record_block:
  assumes "i < length (ct_sublists (record_block es fps order))" "j < length (ct_sublists (record_block es fps order))"
    "conflict (ct_sublists (record_block es fps order) ! i) (ct_sublists (record_block es fps order) ! j)"
  obtains a b where "a < length order" "b < length order" "sublist_of a es = Some i" "sublist_of b es = Some j"
    "clash (fps (order ! a)) (fps (order ! b))"
proof -
  note K = record_block_keys [OF assms(1)] record_block_keys [OF assms(2)]
  from assms(3) obtain key where
    "key \<in> sk_written (ct_sublists (record_block es fps order) ! i) \<and> key \<in> sk_read (ct_sublists (record_block es fps order) ! j)
     \<or> key \<in> sk_written (ct_sublists (record_block es fps order) ! i) \<and> key \<in> sk_written (ct_sublists (record_block es fps order) ! j)
     \<or> key \<in> sk_read (ct_sublists (record_block es fps order) ! i) \<and> key \<in> sk_written (ct_sublists (record_block es fps order) ! j)"
    unfolding conflict_def by blast
  then have "\<exists>a b. a < length order \<and> b < length order \<and> sublist_of a es = Some i \<and> sublist_of b es = Some j
      \<and> clash (fps (order ! a)) (fps (order ! b))"
    using K unfolding clash_def by (elim disjE conjE) blast+
  then show ?thesis using that by blast
qed

subsection \<open>The block of a partition\<close>

lemma length_sublists:
  "length (concat (map (\<lambda>j. in_sublist j h) [0 ..< m])) = length (filter (\<lambda>e. fst (snd e) < m) h)"
proof (induction m)
  case (Suc m)
  have "length (filter (\<lambda>e. fst (snd e) < Suc m) h) = length (filter (\<lambda>e. fst (snd e) < m) h) + length (in_sublist m h)"
    by (induction h) (auto simp: in_sublist_def)
  then show ?case using Suc by simp
qed simp

lemma sorted_wrt_either:
  "sorted_wrt R xs \<Longrightarrow> x \<in> set xs \<Longrightarrow> y \<in> set xs \<Longrightarrow> x \<noteq> y \<Longrightarrow> R x y \<or> R y x"
  by (induction xs) auto

lemma remasc_effect:
  assumes inv: "part_inv n h p" and r: "add_remasc i used p = Some (j, p')"
  shows "transactions_in_order p' = transactions_in_order p @ [i]" "edges p' = edges p"
    "length (pt_sublists p') = n + 1" "sl_transactions (pt_sublists p' ! n) \<noteq> []" "sequential p' = n"
    "take n (pt_sublists p') = take n (pt_sublists p)"
proof -
  have len: "length (pt_sublists p) = n + 1" and sq: "sequential p = n" using inv by (simp_all add: part_inv_def sequential_def)
  let ?s = "pt_sublists p ! n"
  let ?s' = "?s\<lparr> sl_gas_used := sl_gas_used ?s + used, sl_transactions := sl_transactions ?s @ [i] \<rparr>"
  have p': "pt_sublists p' = (pt_sublists p)[n := ?s']" using r sq by (auto simp: add_remasc_def charge_def split: if_splits)
  have split: "pt_sublists p = take n (pt_sublists p) @ [?s]" "pt_sublists p' = take n (pt_sublists p) @ [?s']"
    using len by (auto simp: p' list_eq_iff_nth_eq nth_append nth_list_update less_Suc_eq)
  show "transactions_in_order p' = transactions_in_order p @ [i]"
    unfolding transactions_in_order_def split(2) by (subst (2) split(1)) simp
  show sq': "sequential p' = n" using len by (simp add: sequential_def p')
  show "edges p' = edges p" using split sq sq' len by (simp add: edges_def p' take_update_cancel)
  show "length (pt_sublists p') = n + 1" "sl_transactions (pt_sublists p' ! n) \<noteq> []" "take n (pt_sublists p') = take n (pt_sublists p)"
    using len by (simp_all add: p')
qed

lemma parallel_position:
  assumes inv: "part_inv n h p" and len: "length (transactions_in_order p) < 32768"
    and pos: "sublist_of pos (edges p) = Some k" "pos < length order" "order = transactions_in_order p @ xs"
  obtains i j f where "(i, j, f) \<in> set h" "j < n" "order ! pos = i"
    "k = length (occupied (take j (pt_sublists p)))"
proof -
  have ln: "length (pt_sublists p) = n + 1" and sq: "sequential p = n" using inv by (simp_all add: part_inv_def sequential_def)
  let ?ss = "take n (pt_sublists p)"
  have split: "transactions_in_order p = concat (map sl_transactions ?ss) @ sl_transactions (pt_sublists p ! n)"
    unfolding transactions_in_order_def
    using ln by (subst id_take_nth_drop [of n]) simp_all
  have tot: "txs_total ?ss < 32768" using len by (simp add: split)
  have k: "k = length (filter (\<lambda>e. edge_usize e \<le> pos) (edges_loop (of_nat 0) ?ss))" "k < length (occupied ?ss)"
    using pos(1) by (auto simp: sublist_of_def edges_def sq Let_def length_edges_loop split: if_splits)
  with edges_locate [of 0 ?ss pos] tot obtain j where j: "pos < txs_total ?ss" "j < length ?ss"
    "concat (map sl_transactions ?ss) ! pos \<in> set (sl_transactions (?ss ! j))" "k = length (occupied (take j ?ss))"
    by (auto split: if_splits)
  have at: "order ! pos = concat (map sl_transactions ?ss) ! pos"
    using j(1) unfolding pos(3) split by (simp add: nth_append)
  have "sl_transactions (?ss ! j) = map fst (in_sublist j h)" using inv j(2) ln by (simp add: part_inv_def)
  then have "order ! pos \<in> fst ` set (in_sublist j h)" using j(3) at by auto
  then obtain f where "(order ! pos, j, f) \<in> set h" by (auto simp: in_sublist_def)
  then show ?thesis using that [of "order ! pos" j f] j ln by (simp add: min_def)
qed

subsection \<open>A sample block\<close>

text \<open>Five transactions: the second and third land in different sublists, the fourth reads from both
  and becomes sequential, and the fifth is placed before it in the block.\<close>

definition sample_fp :: "nat \<Rightarrow> tx_footprint" where
  "sample_fp i =
     (let mk = (\<lambda>a rs ws. \<lparr> fp_sender = a, fp_gas_limit = 100, fp_gas_used = 60, fp_reads = rs, fp_writes = ws \<rparr>)
      in if i = 0 then mk [1] [[1]] [[1]]
         else if i = 1 then mk [2] [[2]] [[2]]
         else if i = 2 then mk [3] [[1]] [[3]]
         else if i = 3 then mk [4] [[1], [2]] [[1]]
         else mk [2] [] [[4]])"

fun sample_partitioner :: "nat \<Rightarrow> partitioner" where
  "sample_partitioner 0 = the (partitioner_new 2 9000 1000)"
| "sample_partitioner (Suc i) = snd (the (add i (sample_fp i) (sample_partitioner i)))"

definition sample_history :: "seated list" where
  "sample_history = map (\<lambda>(i, j). (i, j, sample_fp i)) [(0, 0), (1, 1), (2, 0), (3, 2), (4, 1)]"

definition sample_run :: "nat \<Rightarrow> (bytes \<Rightarrow> nat) \<Rightarrow> bytes \<Rightarrow> nat" where
  "sample_run i s =
     (if i = 0 then s([1] := s [1] + 1)
      else if i = 1 then s([2] := s [2] + 2)
      else if i = 2 then s([3] := s [1])
      else if i = 3 then s([1] := s [1] + s [2])
      else if i = 4 then s([4] := 7)
      else s([5] := s [1] + s [3]))"

lemma sample_step:
  assumes "built 2 9000 1000 h (sample_partitioner i)"
    "map_option fst (add i (sample_fp i) (sample_partitioner i)) = Some (Some j)"
  shows "built 2 9000 1000 (h @ [(i, j, sample_fp i)]) (sample_partitioner (Suc i))"
proof -
  have "add i (sample_fp i) (sample_partitioner i) = Some (Some j, sample_partitioner (Suc i))"
    using assms(2) by (auto simp: prod_eq_iff)
  then show ?thesis by (rule built.seat [OF assms(1)])
qed

lemma sample_placements:
  "map_option fst (add 0 (sample_fp 0) (sample_partitioner 0)) = Some (Some 0)"
  "map_option fst (add 1 (sample_fp 1) (sample_partitioner 1)) = Some (Some 1)"
  "map_option fst (add 2 (sample_fp 2) (sample_partitioner 2)) = Some (Some 0)"
  "map_option fst (add 3 (sample_fp 3) (sample_partitioner 3)) = Some (Some 2)"
  "map_option fst (add 4 (sample_fp 4) (sample_partitioner 4)) = Some (Some 1)"
  by code_simp+

lemma sample_built: "built 2 9000 1000 sample_history (sample_partitioner 5)"
proof -
  have "partitioner_new 2 9000 1000 \<noteq> None" by code_simp
  then have 0: "built 2 9000 1000 [] (sample_partitioner 0)" by (auto intro: built.fresh)
  have "built 2 9000 1000 ((((([] @ [(0, 0, sample_fp 0)]) @ [(1, 1, sample_fp 1)]) @ [(2, 0, sample_fp 2)]) @ [(3, 2, sample_fp 3)])
      @ [(4, 1, sample_fp 4)]) (sample_partitioner (Suc 4))"
    using sample_placements sample_step [OF 0] sample_step [of _ 1] sample_step [of _ 2] sample_step [of _ 3] sample_step [of _ 4]
    unfolding One_nat_def numeral_nat BitM.simps by blast
  then show ?thesis by (simp add: sample_history_def eval_nat_numeral)
qed

definition sample_block :: partitioner where
  "sample_block = snd (the (add_remasc 5 0 (sample_partitioner 5)))"

lemma sample_remasc: "add_remasc 5 0 (sample_partitioner 5) = Some (2, sample_block)"
proof -
  have "map_option fst (add_remasc 5 0 (sample_partitioner 5)) = Some 2" by code_simp
  then show ?thesis by (auto simp: sample_block_def prod_eq_iff)
qed

text \<open>C9. The block a miner builds is one every validator accepts: after any sequence of placements
  into two parallel sublists closed by REMASC, the edges in the header pass their validation, and
  the key sets the validator records by position show no collision.\<close>

theorem mined_partition_accepted:
  assumes b: "built n bgl ms h p" "n \<le> TX_EXECUTION_THREADS" and r: "add_remasc i used p = Some (j, p')"
    and small: "length h < 32767" and fps: "\<forall>(i, j, f) \<in> set h. fps i = f"
  shows "validate_tx_execution_sublists_edges (Some (edges p')) (length (transactions_in_order p')) True = Accept
    \<and> first_collision (record_block (edges p') fps (transactions_in_order p')) = None"
proof -
  have inv: "part_inv n h p" by (rule built_inv [OF b(1)])
  note R = remasc_effect [OF inv r]
  have "length (block_order n h) \<le> length h" by (simp only: block_order_def length_sublists length_filter_le)
  then have lenp: "length (transactions_in_order p) \<le> length h" by (simp add: order_of_sublists [OF inv])
  let ?t = "record_block (edges p') fps (transactions_in_order p')"
  have "\<not> conflict (ct_sublists ?t ! x) (ct_sublists ?t ! y)" if xy: "x < y" "y < sublist_count ?t" for x y
  proof
    assume "conflict (ct_sublists ?t ! x) (ct_sublists ?t ! y)"
    then obtain c d where cd: "c < length (transactions_in_order p')" "d < length (transactions_in_order p')"
      "sublist_of c (edges p') = Some x" "sublist_of d (edges p') = Some y"
      "clash (fps (transactions_in_order p' ! c)) (fps (transactions_in_order p' ! d))"
      using conflict_record_block [of x "edges p'" fps "transactions_in_order p'" y] xy
      unfolding sublist_count_def by (metis less_trans)
    have lt: "length (transactions_in_order p) < 32768" using lenp small by simp
    obtain i1 j1 f1 where e1: "(i1, j1, f1) \<in> set h" "j1 < n" "transactions_in_order p' ! c = i1"
      "x = length (occupied (take j1 (pt_sublists p)))"
      using parallel_position [OF inv lt cd(3) [unfolded R(2)] cd(1) R(1)] by blast
    obtain i2 j2 f2 where e2: "(i2, j2, f2) \<in> set h" "j2 < n" "transactions_in_order p' ! d = i2"
      "y = length (occupied (take j2 (pt_sublists p)))"
      using parallel_position [OF inv lt cd(4) [unfolded R(2)] cd(2) R(1)] by blast
    have "fps i1 = f1" "fps i2 = f2" using bspec [OF fps e1(1)] bspec [OF fps e2(1)] by simp_all
    then have cl: "clash f1 f2" using cd(5) e1(3) e2(3) by simp
    have "j1 \<noteq> j2" using e1(4) e2(4) xy(1) by auto
    moreover have "keeps_order n (i1, j1, f1) (i2, j2, f2) \<or> keeps_order n (i2, j2, f2) (i1, j1, f1)"
      using inv e1(1) e2(1) \<open>j1 \<noteq> j2\<close> by (intro sorted_wrt_either [of _ h]) (auto simp: part_inv_def)
    ultimately show False using cl e1(2) e2(2) by (auto simp: keeps_order_def clash_def)
  qed
  moreover have "\<forall>k \<in> set (ct_sublists ?t). finite_keys k"
    using record_block_keys [of _ "edges p'" fps "transactions_in_order p'"] by (auto simp: in_set_conv_nth)
  ultimately have "first_collision ?t = None"
    using first_collision_spec [of ?t] real_collision_conflict [of _ ?t] by (cases "first_collision ?t") fastforce+
  moreover have "length (transactions_in_order p') < 32768" using R(1) lenp small by simp
  moreover from this have "validate_tx_execution_sublists_edges (Some (edges p')) (length (transactions_in_order p')) True
      = Accept"
  proof -
    assume "length (transactions_in_order p') < 32768"
    moreover have "pt_sublists p' \<noteq> []" using R(3) by auto
    ultimately show ?thesis using R b(2) by (intro edges_valid) auto
  qed
  ultimately show ?thesis by blast
qed

theorem mined_partition_accepted_witness:
  "transactions_in_order sample_block = [0, 2, 1, 4, 3, 5] \<and> edges sample_block = [2, 4]
    \<and> validate_tx_execution_sublists_edges (Some (edges sample_block)) (length (transactions_in_order sample_block)) True = Accept
    \<and> first_collision (record_block (edges sample_block) sample_fp (transactions_in_order sample_block)) = None"
proof -
  have "transactions_in_order sample_block = [0, 2, 1, 4, 3, 5]" "edges sample_block = [2, 4]" by code_simp+
  then show ?thesis
    using mined_partition_accepted [OF sample_built _ sample_remasc, of sample_fp]
    by (auto simp: TX_EXECUTION_THREADS_def sample_history_def)
qed

text \<open>C10. Reordering is invisible: for transactions whose footprints are sound where the miner executed
  them, executing the block in the partitioned order, REMASC last, ends in the state of executing
  the seated transactions in the order the miner did.\<close>

theorem partition_preserves_state:
  assumes b: "built n bgl ms h p" and r: "add_remasc i used p = Some (j, p')" and d: "distinct (map fst h)"
    and sound: "\<forall>e \<in> set h. footprint_sound run (fst e) (snd (snd e)) (state_before run s0 h e)"
  shows "fold run (transactions_in_order p') s0 = fold run (map fst h @ [i]) s0"
proof -
  have inv: "part_inv n h p" by (rule built_inv [OF b])
  have "distinct h" using d by (simp add: distinct_map)
  from block_order_state [OF inv this sound]
  have "fold run (map fst (block_order n h)) s0 = fold run (map fst h) s0" by (simp add: fold_map comp_def)
  then show ?thesis using remasc_effect(1) [OF inv r] order_of_sublists [OF inv] by simp
qed

theorem partition_preserves_state_witness:
  "fold sample_run (transactions_in_order sample_block) (\<lambda>_. 0) = fold sample_run [0, 1, 2, 3, 4, 5] (\<lambda>_. 0)"
proof -
  have "distinct (map fst sample_history)" "map fst sample_history @ [5] = [0, 1, 2, 3, 4, 5]"
    by (simp_all add: sample_history_def)
  moreover have "\<forall>e \<in> set sample_history. footprint_sound sample_run (fst e) (snd (snd e)) (state_before sample_run (\<lambda>_. 0) sample_history e)"
    by (auto simp: sample_history_def footprint_sound_def state_before_def sample_run_def sample_fp_def fun_eq_iff)
  ultimately show ?thesis
    using partition_preserves_state [OF sample_built sample_remasc, of sample_run "\<lambda>_. 0"] by simp
qed

subsection \<open>Gas\<close>

lemma unat_sub_less: "unat ms < unat bgl \<Longrightarrow> unat (bgl - ms) = unat bgl - unat ms" for ms bgl :: u64
  by (simp add: unat_sub word_le_nat_alt)

lemma gas_limits_total:
  assumes "sublist_gas_limits bgl (of_nat n) ms = Some (par, sq)" "n < 2 ^ 64 - 1"
  shows "n * unat par + unat sq = unat bgl"
proof -
  have n: "unat (of_nat n :: u64) = n" "unat (of_nat n + 1 :: u64) = n + 1"
    using assms(2) by (simp_all add: unat_of_nat unat_word_ariths)
  have le: "unat (of_nat n * q :: u64) = n * unat q" "n * unat q \<le> unat bgl"
    if "n * unat q \<le> unat bgl" for q :: u64
  proof -
    have "n * unat q < 2 ^ 64" using that unsigned_less [of bgl, where 'a = nat] by simp
    then show "unat (of_nat n * q :: u64) = n * unat q" using n(1) by (simp add: unat_word_ariths)
  qed (rule that)
  have "n * unat par \<le> unat bgl \<and> sq = bgl - of_nat n * par"
  proof -
    have a: "n * (x div (n + 1)) \<le> x" for x :: nat
      by (metis add.commute mult.commute le_add1 mult_le_mono1 order.trans times_div_less_eq_dividend Suc_eq_plus1)
    have b: "n * ((x - y) div n) \<le> x" for x y :: nat
      by (metis diff_le_self order.trans times_div_less_eq_dividend)
    show ?thesis
      using assms(1) a [of "unat bgl"] b [of "unat bgl" "unat ms"] n
      by (auto simp: sublist_gas_limits_def SEQUENTIAL_SUBLISTS_def Let_def unat_div unat_sub_less not_le word_less_nat_alt
          split: if_splits)
  qed
  then show ?thesis using le [of par] by (simp add: unat_sub word_le_nat_alt)
qed

lemma gas_limit_par:
  assumes "sublist_gas_limits bgl pc ms = Some (par, sq)"
  shows "par \<le> bgl"
proof -
  have "unat par \<le> unat bgl"
    using assms div_le_dividend [of "unat bgl" "unat (pc + 1)"]
      order.trans [OF div_le_dividend [of "unat bgl - unat ms" "unat pc"] diff_le_self]
    by (auto simp: sublist_gas_limits_def SEQUENTIAL_SUBLISTS_def Let_def unat_div unat_sub_less not_le word_less_nat_alt
        split: if_splits)
  then show ?thesis by (simp add: word_le_nat_alt)
qed

definition gas_of :: "seated list \<Rightarrow> nat" where
  "gas_of h = sum_list (map (\<lambda>e. unat (fp_gas_used (snd (snd e)))) h)"

definition gas_inv :: "nat \<Rightarrow> u64 \<Rightarrow> u64 \<Rightarrow> seated list \<Rightarrow> partitioner \<Rightarrow> bool" where
  "gas_inv n par sq h p =
     (\<forall>j \<le> n. sl_gas_limit (pt_sublists p ! j) = (if j < n then par else sq)
        \<and> unat (sl_gas_used (pt_sublists p ! j)) = gas_of (in_sublist j h)
        \<and> sl_gas_used (pt_sublists p ! j) \<le> sl_gas_limit (pt_sublists p ! j))"

lemma fits_nat:
  assumes "fits s g" "u \<le> g" "sl_gas_limit s < - 1"
  shows "unat (sl_gas_used s + u) = unat (sl_gas_used s) + unat u \<and> sl_gas_used s + u \<le> sl_gas_limit s"
proof -
  have "unat (sl_gas_used s) + unat g < 2 ^ 64"
    using assms(1,3) by (auto simp: fits_def saturating_add_def split: if_splits)
  moreover from this have "unat (sl_gas_used s) + unat g \<le> unat (sl_gas_limit s)"
    using assms(1) by (simp add: fits_def saturating_add_def word_le_nat_alt unat_word_ariths)
  ultimately show ?thesis using assms(2) by (simp add: word_le_nat_alt unat_word_ariths)
qed

lemma gas_of_snoc: "gas_of (h @ [e]) = gas_of h + unat (fp_gas_used (snd (snd e)))"
  by (simp add: gas_of_def)

lemma place_gas:
  assumes g: "gas_inv n par sq h p" and pl: "place i j tx p = Some p'" and len: "length (pt_sublists p) = n + 1"
    and fit: "fits (pt_sublists p ! j) (fp_gas_limit tx)" "fp_gas_used tx \<le> fp_gas_limit tx"
    and lim: "par < - 1" "sq < - 1"
  shows "gas_inv n par sq (h @ [(i, j, tx)]) p'"
proof -
  note P = place_simps [OF pl]
  have "sl_gas_limit (pt_sublists p ! j) < - 1" using g lim P(1) len by (auto simp: gas_inv_def less_Suc_eq_le)
  note f = fits_nat [OF fit this]
  show ?thesis unfolding gas_inv_def
  proof (intro allI impI)
    fix j'
    assume j': "j' \<le> n"
    have old: "sl_gas_limit (pt_sublists p ! j') = (if j' < n then par else sq)"
      "unat (sl_gas_used (pt_sublists p ! j')) = gas_of (in_sublist j' h)"
      "sl_gas_used (pt_sublists p ! j') \<le> sl_gas_limit (pt_sublists p ! j')"
      using g j' by (auto simp: gas_inv_def)
    show "sl_gas_limit (pt_sublists p' ! j') = (if j' < n then par else sq)
        \<and> unat (sl_gas_used (pt_sublists p' ! j')) = gas_of (in_sublist j' (h @ [(i, j, tx)]))
        \<and> sl_gas_used (pt_sublists p' ! j') \<le> sl_gas_limit (pt_sublists p' ! j')"
      using old f P(1) by (cases "j' = j") (simp_all add: P(2) charge_def in_sublist_def gas_of_snoc)
  qed
qed

lemma built_gas:
  assumes "built n bgl ms h p" "sublist_gas_limits bgl (of_nat n) ms = Some (par, sq)" "par < - 1" "sq < - 1"
  shows "(\<forall>(i, j, f) \<in> set h. fp_gas_used f \<le> fp_gas_limit f) \<Longrightarrow> gas_inv n par sq h p"
  using assms(1)
proof (induction rule: built.induct)
  case (fresh p)
  then show ?case
    using assms(2) by (auto simp: gas_inv_def partitioner_new_def in_sublist_def gas_of_def nth_append)
next
  case (seat h p i tx j p')
  have g: "gas_inv n par sq h p" "fp_gas_used tx \<le> fp_gas_limit tx" using seat by auto
  have inv: "part_inv n h p" by (rule built_inv [OF seat.hyps(1)])
  then have len: "length (pt_sublists p) = n + 1" by (simp add: part_inv_def)
  show ?case
    by (rule add_cases [OF inv, of i tx]) (use seat.hyps(2) place_gas [OF g(1) _ len _ g(2) assms(3,4)] in auto)
next
  case (seat_sequential h p i tx j p')
  have g: "gas_inv n par sq h p" "fp_gas_used tx \<le> fp_gas_limit tx" using seat_sequential by auto
  have inv: "part_inv n h p" by (rule built_inv [OF seat_sequential.hyps(1)])
  then have len: "length (pt_sublists p) = n + 1" by (simp add: part_inv_def)
  show ?case
    by (rule add_sequential_cases [OF inv, of i tx])
      (use seat_sequential.hyps(2) place_gas [OF g(1) _ len _ g(2) assms(3,4)] in auto)
next
  case (refuse h p i tx p')
  show ?case by (rule add_cases [OF built_inv [OF refuse.hyps(1)], of i tx]) (use refuse in auto)
next
  case (refuse_sequential h p i tx p')
  show ?case
    by (rule add_sequential_cases [OF built_inv [OF refuse_sequential.hyps(1)], of i tx]) (use refuse_sequential in auto)
qed

lemma gas_of_sublists: "(\<Sum>j < m. gas_of (in_sublist j h)) = gas_of (filter (\<lambda>e. fst (snd e) < m) h)"
proof (induction m)
  case (Suc m)
  have "gas_of (filter (\<lambda>e. fst (snd e) < Suc m) h) = gas_of (filter (\<lambda>e. fst (snd e) < m) h) + gas_of (in_sublist m h)"
    by (induction h) (auto simp: in_sublist_def gas_of_def)
  then show ?case using Suc by simp
qed (simp add: gas_of_def)

text \<open>C25. Gas never escapes: the limits of the sublists add up to the block's gas limit, no sublist
  uses more than its own, and when transactions use at most the gas they declare the seated ones use
  together at most the gas limit of the block, with no wrap-around in any counter.\<close>

theorem partition_gas_bounded:
  assumes b: "built n bgl ms h p" and n: "n < 2 ^ 64 - 1" and bgl: "bgl < - 1"
    and used: "\<forall>(i, j, f) \<in> set h. fp_gas_used f \<le> fp_gas_limit f"
  shows "(\<Sum>j \<le> n. unat (sl_gas_limit (pt_sublists p ! j))) = unat bgl
    \<and> (\<forall>j \<le> n. unat (sl_gas_used (pt_sublists p ! j)) = gas_of (in_sublist j h)
         \<and> sl_gas_used (pt_sublists p ! j) \<le> sl_gas_limit (pt_sublists p ! j))
    \<and> gas_of h \<le> unat bgl"
proof -
  obtain par sq where ps: "sublist_gas_limits bgl (of_nat n) ms = Some (par, sq)"
    using b by (induction rule: built.induct) (auto simp: partitioner_new_def)
  note tot = gas_limits_total [OF ps n]
  have inv: "part_inv n h p" by (rule built_inv [OF b])
  have "par \<le> bgl" "sq \<le> bgl" using gas_limit_par [OF ps] tot by (simp_all add: word_le_nat_alt)
  then have g: "gas_inv n par sq h p" using bgl by (intro built_gas [OF b ps _ _ used]) auto
  have lims: "(\<Sum>j \<le> n. unat (sl_gas_limit (pt_sublists p ! j))) = (\<Sum>j \<le> n. unat (if j < n then par else sq))"
    using g by (intro sum.cong) (simp_all add: gas_inv_def)
  also have "\<dots> = unat bgl" using tot by (simp add: lessThan_Suc_atMost [symmetric])
  finally have total: "(\<Sum>j \<le> n. unat (sl_gas_limit (pt_sublists p ! j))) = unat bgl" .
  have per: "\<forall>j \<le> n. unat (sl_gas_used (pt_sublists p ! j)) = gas_of (in_sublist j h)
      \<and> sl_gas_used (pt_sublists p ! j) \<le> sl_gas_limit (pt_sublists p ! j)"
    using g unfolding gas_inv_def by (metis (lifting))
  have "filter (\<lambda>e. fst (snd e) < Suc n) h = h" using inv by (auto simp: part_inv_def filter_id_conv less_Suc_eq_le)
  then have "gas_of h = (\<Sum>j \<le> n. gas_of (in_sublist j h))"
    using gas_of_sublists [of h "Suc n"] by (simp add: lessThan_Suc_atMost)
  also have "\<dots> \<le> (\<Sum>j \<le> n. unat (sl_gas_limit (pt_sublists p ! j)))"
  proof (intro sum_mono)
    fix j
    assume "j \<in> {..n}"
    then show "gas_of (in_sublist j h) \<le> unat (sl_gas_limit (pt_sublists p ! j))"
      using per by (metis atMost_iff word_le_nat_alt)
  qed
  finally have "gas_of h \<le> unat bgl" unfolding total .
  with total per show ?thesis by (intro conjI)
qed

theorem partition_gas_bounded_witness:
  "gas_of sample_history = 300 \<and> gas_of sample_history \<le> unat (9000 :: u64)
    \<and> unat (sl_gas_used (pt_sublists (sample_partitioner 5) ! 0)) = 120"
proof -
  have h: "gas_of sample_history = 300" "gas_of (in_sublist 0 sample_history) = 120"
    by (simp_all add: gas_of_def sample_history_def sample_fp_def in_sublist_def)
  have "\<forall>(i, j, f) \<in> set sample_history. fp_gas_used f \<le> fp_gas_limit f" by (simp add: sample_history_def sample_fp_def)
  from partition_gas_bounded [OF sample_built _ _ this] show ?thesis using h by auto
qed

end
